(* ===== verification/VmiPrelude.thy ===== *)
theory VmiPrelude
  imports Main "HOL-Library.Word"
begin

text \<open>
  Shared ground of the development: machine words, the outcome type of fallible C code, the
  collections of simplification rules, and the generic facts on words and lists the
  components use.

  A C operation that can go wrong returns \<open>'a res\<close>: \<open>Inl\<close> names what went wrong and
  \<open>Inr\<close> carries the value. The failures are \<open>Fault\<close> (an access outside the mapped memory,
  where the C program is killed by a signal), \<open>Overflow\<close> (a store past the end of a buffer
  of the host, or a load past it), \<open>Abort\<close> (a failed assertion or \<open>abort()\<close>) and \<open>NoFuel\<close> (a
  loop whose bound is given as fuel has not finished).
\<close>

unbundle bit_operations_syntax

section \<open>Words\<close>

type_synonym u8 = "8 word"
type_synonym u16 = "16 word"
type_synonym u32 = "32 word"
type_synonym u64 = "64 word"

named_theorems layout_simps \<open>constants of the guest kernel's layout\<close>
named_theorems ram_eval \<open>rules that evaluate loads from a concrete memory\<close>
named_theorems res_simps \<open>rules that compute with outcomes\<close>

lemma unat_less_u64: "unat (x :: u64) < 18446744073709551616"
  using unsigned_less [of x] by simp

lemma word_add_diff_cancel_u64 [simp]: "(x :: u64) + y - y = x"
  by simp

lemma word_and_mask_less:
  "(x :: 'a::len word) AND mask n \<le> mask n"
  by (rule word_and_le1)

lemma unat_add_small_u64:
  "unat (a :: u64) + unat b < 2 ^ 64 \<Longrightarrow> unat (a + b) = unat a + unat b"
  by (simp add: unat_word_ariths)

lemma take_bit_self_less:
  assumes "take_bit n w = (w :: u64)" and "n < 64"
  shows "w < 2 ^ n"
  using assms and_mask_less' [of n w] by (simp add: take_bit_eq_mask word_size)

section \<open>Outcomes of C code\<close>

datatype cerr = Fault | Overflow | NoFuel | Abort

type_synonym 'a res = "cerr + 'a"

fun bindE :: "'a res \<Rightarrow> ('a \<Rightarrow> 'b res) \<Rightarrow> 'b res" where
  "bindE (Inl e) f = Inl e"
| "bindE (Inr x) f = f x"

declare bindE.simps [res_simps]

lemma bindE_Inr_iff [res_simps]: "bindE m f = Inr y \<longleftrightarrow> (\<exists>x. m = Inr x \<and> f x = Inr y)"
  by (cases m) auto

lemma bindE_Inl_iff: "bindE m f = Inl e \<longleftrightarrow> m = Inl e \<or> (\<exists>x. m = Inr x \<and> f x = Inl e)"
  by (cases m) auto

lemma bindE_cong [fundef_cong]:
  "m = m' \<Longrightarrow> (\<And>x. m' = Inr x \<Longrightarrow> f x = g x) \<Longrightarrow> bindE m f = bindE m' g"
  by (cases m') auto

text \<open>Evaluate a step only once the one before it has a value.\<close>

lemma bindE_weak_cong: "m = m' \<Longrightarrow> bindE m f = bindE m' f"
  by simp

lemma bindE_assoc: "bindE (bindE m f) g = bindE m (\<lambda>x. bindE (f x) g)"
  by (cases m) auto

end
