(* ===== verification/GuestRam.thy ===== *)
theory GuestRam
  imports VmiPrelude
begin

text \<open>
  The guest's physical memory as the plugin sees it. The plugin holds \<open>mem\<close>, the host
  address of guest physical address 0 (\<open>qemu_get_ram_ptr(0x0)\<close>), and reads the guest with
  \<open>*(unsigned long *)(mem + gpa)\<close>. A pointer into that area is modelled by its offset from
  \<open>mem\<close>, a 64-bit word, so pointer arithmetic wraps as it does on the host; the area itself
  is a partial map from offsets to bytes, and an access outside its domain is \<open>Fault\<close>.
  Multi-byte accesses are little endian.
\<close>

type_synonym ram = "u64 \<Rightarrow> u8 option"

section \<open>Loads and stores\<close>

definition rd8 :: "ram \<Rightarrow> u64 \<Rightarrow> u8 res" where
  "rd8 r a = (case r a of None \<Rightarrow> Inl Fault | Some b \<Rightarrow> Inr b)"

primrec rd_bytes :: "ram \<Rightarrow> u64 \<Rightarrow> nat \<Rightarrow> u8 list res" where
  "rd_bytes r a 0 = Inr []"
| "rd_bytes r a (Suc n) =
     bindE (rd8 r a) (\<lambda>b. bindE (rd_bytes r (a + 1) n) (\<lambda>bs. Inr (b # bs)))"

primrec wr_bytes :: "ram \<Rightarrow> u64 \<Rightarrow> u8 list \<Rightarrow> ram res" where
  "wr_bytes r a [] = Inr r"
| "wr_bytes r a (b # bs) =
     (case r a of None \<Rightarrow> Inl Fault | Some _ \<Rightarrow> wr_bytes (r(a \<mapsto> b)) (a + 1) bs)"

primrec le_word :: "u8 list \<Rightarrow> 'a::len word" where
  "le_word [] = 0"
| "le_word (b # bs) = ucast b OR push_bit 8 (le_word bs)"

primrec le_bytes :: "nat \<Rightarrow> 'a::len word \<Rightarrow> u8 list" where
  "le_bytes 0 w = []"
| "le_bytes (Suc n) w = ucast w # le_bytes n (drop_bit 8 w)"

definition rd64 :: "ram \<Rightarrow> u64 \<Rightarrow> u64 res" where
  "rd64 r a = bindE (rd_bytes r a 8) (\<lambda>bs. Inr (le_word bs))"

definition rd32 :: "ram \<Rightarrow> u64 \<Rightarrow> u32 res" where
  "rd32 r a = bindE (rd_bytes r a 4) (\<lambda>bs. Inr (le_word bs))"

definition wr64 :: "ram \<Rightarrow> u64 \<Rightarrow> u64 \<Rightarrow> ram res" where
  "wr64 r a v = wr_bytes r a (le_bytes 8 v)"

text \<open>
  \<open>sprintf(dst, "%s", src)\<close> with \<open>src\<close> in the guest and \<open>dst\<close> an array of \<open>cap\<close> bytes:
  bytes are copied up to the terminating zero, which has to fit as well. A string that does
  not fit is stored past the end of \<open>dst\<close>.
\<close>

fun sprintf_s :: "ram \<Rightarrow> u64 \<Rightarrow> nat \<Rightarrow> string res" where
  "sprintf_s r a 0 = Inl Overflow"
| "sprintf_s r a (Suc cap) =
     bindE (rd8 r a) (\<lambda>b.
       if b = 0 then Inr []
       else bindE (sprintf_s r (a + 1) cap) (\<lambda>s. Inr (char_of (unat b) # s)))"

text \<open>A memory laid out for a concrete run: a word is placed at an address.\<close>

definition put64 :: "u64 \<Rightarrow> u64 \<Rightarrow> ram \<Rightarrow> ram" where
  "put64 a v r = (\<lambda>x. if x - a < 8 then Some (le_bytes 8 v ! unat (x - a)) else r x)"

definition zram :: "u64 \<Rightarrow> ram" where
  "zram n = (\<lambda>a. if a < n then Some 0 else None)"

section \<open>Little-endian words and bytes\<close>

lemma length_le_bytes [simp]: "length (le_bytes n w) = n"
  by (induction n arbitrary: w) auto

lemma nth_le_bytes: "i < n \<Longrightarrow> le_bytes n w ! i = ucast (drop_bit (8 * i) w)"
  by (induction n arbitrary: w i)
     (auto simp: nth_Cons drop_bit_drop_bit ac_simps split: nat.splits)

lemma bit_le_word:
  "bit (le_word bs :: 'a::len word) n \<longleftrightarrow>
     n < LENGTH('a) \<and> n div 8 < length bs \<and> bit (bs ! (n div 8)) (n mod 8)"
proof (induction bs arbitrary: n)
  case Nil
  then show ?case by simp
next
  case (Cons b bs)
  show ?case
  proof (cases "n < 8")
    case True
    then show ?thesis
      by (auto simp: bit_or_iff bit_push_bit_iff bit_ucast_iff)
  next
    case False
    then have "(n - 8) div 8 = n div 8 - 1" "(n - 8) mod 8 = n mod 8" "1 \<le> n div 8"
      by (auto simp: le_mod_geq le_div_geq)
    moreover from this have "(b # bs) ! (n div 8) = bs ! (n div 8 - 1)"
      by (simp add: nth_Cons')
    moreover have "\<not> bit b n"
      using False bit_imp_le_length [of b n] by auto
    ultimately show ?thesis
      using False
      by (simp add: bit_or_iff bit_push_bit_iff bit_ucast_iff Cons.IH) linarith
  qed
qed

lemma le_word_le_bytes:
  "LENGTH('a) \<le> 8 * n \<Longrightarrow> le_word (le_bytes n (w :: 'a::len word)) = w"
proof (rule bit_word_eqI)
  fix i assume "LENGTH('a) \<le> 8 * n" and i: "i < LENGTH('a)"
  then have "i div 8 < n" by (simp add: less_mult_imp_div_less mult.commute)
  with i show "bit (le_word (le_bytes n w) :: 'a word) i = bit w i"
    by (simp add: bit_le_word nth_le_bytes bit_ucast_iff bit_drop_bit_eq)
qed

lemma le_word_le_bytes64 [simp]: "le_word (le_bytes 8 (w :: u64)) = w"
  by (rule le_word_le_bytes) simp

section \<open>Read over write\<close>

lemma rd_bytes_cong:
  "(\<And>i. i < n \<Longrightarrow> r (a + of_nat i) = r' (a + of_nat i)) \<Longrightarrow> rd_bytes r a n = rd_bytes r' a n"
proof (induction n arbitrary: a)
  case 0
  then show ?case by simp
next
  case (Suc n)
  have "r a = r' a"
    using Suc.prems [of 0] by simp
  moreover have "rd_bytes r (a + 1) n = rd_bytes r' (a + 1) n"
  proof (rule Suc.IH)
    fix i assume "i < n"
    then show "r (a + 1 + of_nat i) = r' (a + 1 + of_nat i)"
      using Suc.prems [of "Suc i"] by (simp add: ac_simps)
  qed
  ultimately show ?case by (simp add: rd8_def)
qed

lemma rd_bytes_all:
  "(\<And>i. i < length bs \<Longrightarrow> r (a + of_nat i) = Some (bs ! i)) \<Longrightarrow>
     rd_bytes r a (length bs) = Inr bs"
proof (induction bs arbitrary: a)
  case Nil
  then show ?case by simp
next
  case (Cons b bs)
  have "r a = Some b"
    using Cons.prems [of 0] by simp
  moreover have "rd_bytes r (a + 1) (length bs) = Inr bs"
  proof (rule Cons.IH)
    fix i assume "i < length bs"
    then show "r (a + 1 + of_nat i) = Some (bs ! i)"
      using Cons.prems [of "Suc i"] by (simp add: ac_simps)
  qed
  ultimately show ?case by (simp add: rd8_def)
qed

lemma put64_at: "i < 8 \<Longrightarrow> put64 a v r (a + of_nat i) = Some (le_bytes 8 v ! i)"
  by (simp add: put64_def word_less_nat_alt unat_of_nat)

lemma rd64_put64_same [simp, res_simps]: "rd64 (put64 a v r) a = Inr v"
proof -
  have "rd_bytes (put64 a v r) a (length (le_bytes 8 v)) = Inr (le_bytes 8 v)"
    by (rule rd_bytes_all) (simp add: put64_at)
  then show ?thesis
    by (simp add: rd64_def)
qed

lemma offset_outside:
  fixes b a :: u64
  assumes "8 \<le> b - a" and "n \<le> unat (a - b)" and "i < n"
  shows "\<not> b + of_nat i - a < 8"
proof -
  have 8: "8 \<le> unat (b - a)"
    using assms(1) by (simp add: word_le_nat_alt)
  then have "unat (b - a) + unat (a - b) = 2 ^ 64"
    using unat_less_u64 [of a] unat_less_u64 [of b]
    unfolding unat_sub_if' by (simp split: if_splits; arith)
  then have "unat (b - a) + i < 2 ^ 64" "i < 2 ^ 64"
    using assms(2,3) by linarith+
  then have "unat (b - a + of_nat i) = unat (b - a) + i"
    by (subst unat_add_small_u64) (simp_all add: unat_of_nat)
  then have "\<not> b - a + of_nat i < 8"
    using 8 by (simp add: word_less_nat_alt)
  moreover have "b - a + of_nat i = b + of_nat i - a" by simp
  ultimately show ?thesis by (simp only: not_False_eq_True)
qed

lemma rd_bytes_put64_other [ram_eval]:
  "8 \<le> b - a \<Longrightarrow> of_nat n \<le> a - b \<Longrightarrow> n \<le> 8 \<Longrightarrow> rd_bytes (put64 a v r) b n = rd_bytes r b n"
  by (rule rd_bytes_cong)
     (use offset_outside [of b a] in \<open>auto simp: put64_def word_le_nat_alt unat_of_nat\<close>)

lemma rd64_put64_other [simp, res_simps]:
  "8 \<le> b - a \<Longrightarrow> 8 \<le> a - b \<Longrightarrow> rd64 (put64 a v r) b = rd64 r b"
  by (simp add: rd64_def rd_bytes_put64_other)

text \<open>A store to mapped memory is the placement of the word; elsewhere it faults.\<close>

lemma unat_pred_u64: "(x :: u64) \<noteq> 0 \<Longrightarrow> unat x = Suc (unat (x - 1))"
  by (simp add: unat_sub_if' unat_eq_zero Suc_leI unat_gt_0)

lemma wr_bytes_ok:
  "length bs < 2 ^ 64 \<Longrightarrow> (\<And>i. i < length bs \<Longrightarrow> r (a + of_nat i) \<noteq> None) \<Longrightarrow>
     wr_bytes r a bs =
       Inr (\<lambda>x. if unat (x - a) < length bs then Some (bs ! unat (x - a)) else r x)"
proof (induction bs arbitrary: a r)
  case Nil
  then show ?case by simp
next
  case (Cons b bs)
  obtain y where y: "r a = Some y"
    using Cons.prems(2) [of 0] by auto
  have "wr_bytes (r(a \<mapsto> b)) (a + 1) bs =
    Inr (\<lambda>x. if unat (x - (a + 1)) < length bs then Some (bs ! unat (x - (a + 1)))
             else (r(a \<mapsto> b)) x)"
  proof (rule Cons.IH)
    fix i assume "i < length bs"
    then show "(r(a \<mapsto> b)) (a + 1 + of_nat i) \<noteq> None"
      using Cons.prems(2) [of "Suc i"] by (simp add: ac_simps)
  qed (use Cons.prems(1) in simp)
  moreover have "(if unat (x - (a + 1)) < length bs then Some (bs ! unat (x - (a + 1)))
                  else (r(a \<mapsto> b)) x) =
    (if unat (x - a) < length (b # bs) then Some ((b # bs) ! unat (x - a)) else r x)" for x
  proof (cases "x = a")
    case True
    have "\<not> unat (x - (a + 1)) < length bs"
      using True Cons.prems(1) by (simp add: unsigned_minus_1_eq_mask mask_eq_exp_minus_1)
    with True show ?thesis by simp
  next
    case False
    then have "unat (x - a) = Suc (unat (x - (a + 1)))"
      using unat_pred_u64 [of "x - a"] by (simp add: algebra_simps)
    with False show ?thesis by simp
  qed
  ultimately show ?case by (simp add: y)
qed

lemma wr64_ok:
  "(\<And>i. i < 8 \<Longrightarrow> r (a + of_nat i) \<noteq> None) \<Longrightarrow> wr64 r a v = Inr (put64 a v r)"
  by (subst wr64_def, subst wr_bytes_ok)
     (auto simp: put64_def word_less_nat_alt intro!: ext)

lemma rd_bytes_Inr_mapped:
  "rd_bytes r a n = Inr bs \<Longrightarrow> i < n \<Longrightarrow> r (a + of_nat i) \<noteq> None"
proof (induction n arbitrary: a bs i)
  case 0
  then show ?case by simp
next
  case (Suc n)
  then obtain b bs' where "rd8 r a = Inr b" and bs': "rd_bytes r (a + 1) n = Inr bs'"
    by (auto simp: res_simps)
  then have "r a \<noteq> None"
    by (auto simp: rd8_def split: option.splits)
  with Suc.IH [OF bs', of "i - 1"] Suc.prems(2) show ?case
    by (cases i) (auto simp: ac_simps)
qed

lemma wr64_of_rd64: "rd64 r a = Inr x \<Longrightarrow> wr64 r a v = Inr (put64 a v r)"
  by (rule wr64_ok) (auto simp: rd64_def res_simps dest: rd_bytes_Inr_mapped)

lemma put64_mapped: "r x \<noteq> None \<Longrightarrow> put64 a v r x \<noteq> None"
  by (simp add: put64_def)

section \<open>Bounds of copied strings\<close>

lemma sprintf_s_length: "sprintf_s r a cap = Inr s \<Longrightarrow> length s < cap"
  by (induction r a cap arbitrary: s rule: sprintf_s.induct)
     (auto simp: res_simps split: if_splits)

section \<open>Loads from a concrete memory\<close>

lemma rd8_put64 [ram_eval]:
  "rd8 (put64 a v r) b =
     (if b - a < 8 then Inr (ucast (drop_bit (8 * unat (b - a)) v)) else rd8 r b)"
  by (simp add: rd8_def put64_def nth_le_bytes word_less_nat_alt)

lemma rd8_zram [ram_eval]: "rd8 (zram n) a = (if a < n then Inr 0 else Inl Fault)"
  by (simp add: rd8_def zram_def)

lemma sprintf_s_numeral [ram_eval]:
  "sprintf_s r a (numeral n) =
     bindE (rd8 r a) (\<lambda>b.
       if b = 0 then Inr []
       else bindE (sprintf_s r (a + 1) (pred_numeral n)) (\<lambda>s. Inr (char_of (unat b) # s)))"
  by (simp add: numeral_eq_Suc)

lemma rd_bytes_put64_same [ram_eval]:
  "n \<le> 8 \<Longrightarrow> rd_bytes (put64 a v r) a n = Inr (take n (le_bytes 8 v))"
  using rd_bytes_all [of "take n (le_bytes 8 v)" "put64 a v r" a]
  by (simp add: put64_at min_absorb2)

lemma le_word_take4: "(le_word (take 4 (le_bytes 8 (v :: u64))) :: u32) = ucast v"
proof (rule bit_word_eqI)
  fix i assume "i < LENGTH(32)"
  then have "i div 8 < 4" by simp
  with \<open>i < LENGTH(32)\<close> show "bit (le_word (take 4 (le_bytes 8 v)) :: u32) i = bit (ucast v :: u32) i"
    by (simp add: bit_le_word nth_le_bytes bit_ucast_iff bit_drop_bit_eq)
qed

lemma rd32_put64_same [ram_eval]: "rd32 (put64 a v r) a = Inr (ucast v)"
  by (simp add: rd32_def rd_bytes_put64_same le_word_take4)

lemma rd32_put64_other [ram_eval]:
  "8 \<le> b - a \<Longrightarrow> 4 \<le> a - b \<Longrightarrow> rd32 (put64 a v r) b = rd32 r b"
  by (simp add: rd32_def rd_bytes_put64_other)

lemma rd64_zram [ram_eval]:
  assumes "a < n - 7" and "7 \<le> n"
  shows "rd64 (zram n) a = Inr 0"
proof -
  have "zram n (a + of_nat i) = Some 0" if "i < 8" for i
  proof -
    have "unat (a + of_nat i) = unat a + i"
      using assms that
      by (subst unat_add_small_u64)
         (auto simp: unat_of_nat word_less_nat_alt word_le_nat_alt unat_sub_if' dest: order_less_trans
          intro: less_le_trans [OF _ less_imp_le [OF unat_less_u64 [of n]]])
    then show ?thesis
      using assms that by (simp add: zram_def word_less_nat_alt word_le_nat_alt unat_sub_if')
  qed
  then have "rd_bytes (zram n) a (length (replicate 8 (0 :: u8))) = Inr (replicate 8 0)"
    by (intro rd_bytes_all) simp
  then show ?thesis by (simp add: rd64_def numeral_eq_Suc)
qed

lemma bit_one_0 [ram_eval]: "bit (Suc 0) 0"
  by (simp add: bit_0)

declare char_of_def [ram_eval]

end
