(* ===== verification/KernelLayout.thy ===== *)
theory KernelLayout
  imports GuestRam
begin

text \<open>
  The guest kernel's layout and address arithmetic: the constants of
  \<open>plugin/symbol-x86_64.h\<close> and the address conversions of \<open>plugin/linux-x86_64.c\<close>.
  The leading underscores of a C name are dropped (\<open>__va\<close> is \<open>va\<close>,
  \<open>__START_KERNEL_map\<close> is \<open>START_KERNEL_map\<close>).
\<close>

section \<open>Symbols and offsets\<close>

definition INIT_TASK_GVA :: u64 where
  [layout_simps]: "INIT_TASK_GVA = 0xffffffff81c14440"

definition TASK_PID_OFFSET :: u64 where
  [layout_simps]: "TASK_PID_OFFSET = 732"

definition TASK_COMM_OFFSET :: u64 where
  [layout_simps]: "TASK_COMM_OFFSET = 1184"

definition TASK_TASKS_OFFSET :: u64 where
  [layout_simps]: "TASK_TASKS_OFFSET = 616"

definition TASK_MM_OFFSET :: u64 where
  [layout_simps]: "TASK_MM_OFFSET = 672"

definition TASK_NSPROXY_OFFSET :: u64 where
  [layout_simps]: "TASK_NSPROXY_OFFSET = 1424"

definition NSPROXY_UTS_NS_OFFSET :: u64 where
  [layout_simps]: "NSPROXY_UTS_NS_OFFSET = 8"

definition UTS_NAMESPACE_NAME :: u64 where
  [layout_simps]: "UTS_NAMESPACE_NAME = 4"

definition NEW_UTS_LEN_JUMP :: u64 where
  [layout_simps]: "NEW_UTS_LEN_JUMP = 65"

definition MM_PGD_OFFSET :: u64 where
  [layout_simps]: "MM_PGD_OFFSET = 64"

definition START_KERNEL_map :: u64 where
  [layout_simps]: "START_KERNEL_map = 0xffffffff80000000"

definition PAGE_OFFSET :: u64 where
  [layout_simps]: "PAGE_OFFSET = 0xffff880000000000"

definition SYSTEM_CALL_GVA :: u64 where
  [layout_simps]: "SYSTEM_CALL_GVA = 0xffffffff81801420"

definition CPU_POSSIBLE_MASK_GVA :: u64 where
  [layout_simps]: "CPU_POSSIBLE_MASK_GVA = 0xffffffff81d03dc0"

definition PER_CPU_OFFSET_GVA :: u64 where
  [layout_simps]: "PER_CPU_OFFSET_GVA = 0xffffffff81d030a0"

definition KERNEL_CPUSTAT :: u64 where
  [layout_simps]: "KERNEL_CPUSTAT = 0x000000000000e340"

definition PAGE_KB :: u64 where
  [layout_simps]: "PAGE_KB = 4"

definition ALL_BDEVS_GVA :: u64 where
  [layout_simps]: "ALL_BDEVS_GVA = 0xffffffff81c6e520"

definition TOTALRAM_PAGES_GVA :: u64 where
  [layout_simps]: "TOTALRAM_PAGES_GVA = 0xffffffff81d06228"

definition VM_STAT_GVA :: u64 where
  [layout_simps]: "VM_STAT_GVA = 0xffffffff81c06200"

definition SWAPPER_SPACES_GVA :: u64 where
  [layout_simps]: "SWAPPER_SPACES_GVA = 0xffffffff81c5cc60"

definition ADDRESS_SPACE_SIZE :: u64 where
  [layout_simps]: "ADDRESS_SPACE_SIZE = 168"

definition ADDRESS_SPACE_NRPAGES_OFFSET :: u64 where
  [layout_simps]: "ADDRESS_SPACE_NRPAGES_OFFSET = 96"

definition MAX_SWAPFILES :: nat where
  [layout_simps]: "MAX_SWAPFILES = 29"

definition BLOCK_DEVICE_BD_LIST_OFFSET :: u64 where
  [layout_simps]: "BLOCK_DEVICE_BD_LIST_OFFSET = 168"

definition BLOCK_DEVICE_BD_INODE_OFFSET :: u64 where
  [layout_simps]: "BLOCK_DEVICE_BD_INODE_OFFSET = 8"

definition INODE_I_MAPPING_OFFSET :: u64 where
  [layout_simps]: "INODE_I_MAPPING_OFFSET = 48"

definition MODULES_HEAD_GVA :: u64 where
  [layout_simps]: "MODULES_HEAD_GVA = 0xffffffff81c4e130"

definition MODULE_LIST_OFFSET :: u64 where
  [layout_simps]: "MODULE_LIST_OFFSET = 8"

definition MODULE_NAME_OFFSET :: u64 where
  [layout_simps]: "MODULE_NAME_OFFSET = 24"

definition MODULE_MODULE_CORE_OFFSET :: u64 where
  [layout_simps]: "MODULE_MODULE_CORE_OFFSET = 352"

definition DEV_BASE_HEAD_GVA :: u64 where
  [layout_simps]: "DEV_BASE_HEAD_GVA = 0xffffffff81cd2008"

definition ND_DEVICE_LIST_OFFSET :: u64 where
  [layout_simps]: "ND_DEVICE_LIST_OFFSET = 80"

definition ND_NAME_OFFSET :: u64 where
  [layout_simps]: "ND_NAME_OFFSET = 0"

definition ND_DEV_ADDR_OFFSET :: u64 where
  [layout_simps]: "ND_DEV_ADDR_OFFSET = 672"

definition ND_IP_PTR_OFFSET :: u64 where
  [layout_simps]: "ND_IP_PTR_OFFSET = 624"

definition IND_IFA_LIST_OFFSET :: u64 where
  [layout_simps]: "IND_IFA_LIST_OFFSET = 16"

definition INA_IFA_ADDRESS_OFFSET :: u64 where
  [layout_simps]: "INA_IFA_ADDRESS_OFFSET = 52"

definition INA_IFA_BROADCAST_OFFSET :: u64 where
  [layout_simps]: "INA_IFA_BROADCAST_OFFSET = 60"

definition INA_IFA_MASK_OFFSET :: u64 where
  [layout_simps]: "INA_IFA_MASK_OFFSET = 56"

text \<open>The enumerations of the header, with the C value of each constructor.\<close>

datatype cpu_stat =
    CPUTIME_USER | CPUTIME_NICE | CPUTIME_SYSTEM | CPUTIME_SOFTIRQ | CPUTIME_IRQ
  | CPUTIME_IDLE | CPUTIME_IOWAIT | CPUTIME_STEAL | CPUTIME_TOTAL

fun cpu_stat_val :: "cpu_stat \<Rightarrow> u64" where
  "cpu_stat_val CPUTIME_USER = 0"
| "cpu_stat_val CPUTIME_NICE = 1"
| "cpu_stat_val CPUTIME_SYSTEM = 2"
| "cpu_stat_val CPUTIME_SOFTIRQ = 3"
| "cpu_stat_val CPUTIME_IRQ = 4"
| "cpu_stat_val CPUTIME_IDLE = 5"
| "cpu_stat_val CPUTIME_IOWAIT = 6"
| "cpu_stat_val CPUTIME_STEAL = 7"
| "cpu_stat_val CPUTIME_TOTAL = 8"

text \<open>Of \<open>enum zone_stat_item\<close> the two members the plugin reads.\<close>

definition NR_FREE_PAGES :: u64 where
  [layout_simps]: "NR_FREE_PAGES = 0"

definition NR_FILE_PAGES :: u64 where
  [layout_simps]: "NR_FILE_PAGES = 9"

section \<open>Address conversion\<close>

definition va :: "u64 \<Rightarrow> u64" where
  "va x = x + PAGE_OFFSET"

definition virt_to_phys :: "u64 \<Rightarrow> u64" where
  "virt_to_phys x =
     (let y = x - START_KERNEL_map
      in y + (if x > y then 0 else START_KERNEL_map - PAGE_OFFSET))"

definition pa :: "u64 \<Rightarrow> u64" where
  "pa x = virt_to_phys x"

text \<open>
  The carry test of \<open>virt_to_phys\<close> tells the two kernel mappings apart: an address at or
  above \<open>START_KERNEL_map\<close> is kernel text or data, one below is in the direct mapping.
\<close>

lemma virt_to_phys_text:
  "START_KERNEL_map \<le> x \<Longrightarrow> virt_to_phys x = x - START_KERNEL_map"
  by (simp add: virt_to_phys_def layout_simps word_le_nat_alt word_less_nat_alt unat_sub_if')

lemma virt_to_phys_direct:
  "x < START_KERNEL_map \<Longrightarrow> virt_to_phys x = x - PAGE_OFFSET"
  using unat_less_u64 [of x]
  by (simp add: virt_to_phys_def layout_simps word_le_nat_alt word_less_nat_alt unat_sub_if' Let_def)

text \<open>\<open>va\<close> and \<open>virt_to_phys\<close> are inverse on the direct mapping.\<close>

lemma virt_to_phys_va [simp]:
  assumes "x < START_KERNEL_map - PAGE_OFFSET"
  shows "virt_to_phys (va x) = x"
proof -
  have "va x < START_KERNEL_map"
    using assms by (simp add: va_def layout_simps word_less_nat_alt unat_word_ariths)
  then show ?thesis
    by (simp add: virt_to_phys_direct va_def)
qed

lemma va_virt_to_phys:
  "PAGE_OFFSET \<le> x \<Longrightarrow> x < START_KERNEL_map \<Longrightarrow> va (virt_to_phys x) = x"
  by (simp add: virt_to_phys_direct va_def)

end
