(* ===== verification/GuestList.thy ===== *)
theory GuestList
  imports GuestRam
begin

text \<open>
  Walking a circular list of the guest kernel. Every list command of the plugin is a loop
  \<open>while (gva != HEAD) { body; gva = next; }\<close> over guest addresses; the guest decides where
  \<open>next\<close> leads, so the loop takes fuel and its termination is a property of the guest's
  memory.
\<close>

section \<open>The loop\<close>

fun walk_list ::
  "nat \<Rightarrow> u64 \<Rightarrow> (u64 \<Rightarrow> 's \<Rightarrow> 's res) \<Rightarrow> (u64 \<Rightarrow> u64 res) \<Rightarrow> u64 \<Rightarrow> 's \<Rightarrow> 's res" where
  "walk_list 0 stop body next g s = Inl NoFuel"
| "walk_list (Suc n) stop body next g s =
     (if g = stop then Inr s
      else bindE (body g s) (\<lambda>s'. bindE (next g) (\<lambda>g'. walk_list n stop body next g' s')))"

section \<open>Chains\<close>

text \<open>
  \<open>chain next stop g gs\<close>: following \<open>next\<close> from \<open>g\<close> visits \<open>gs\<close>, none of them \<open>stop\<close>, and
  then reaches \<open>stop\<close>.
\<close>

fun chain :: "(u64 \<Rightarrow> u64 res) \<Rightarrow> u64 \<Rightarrow> u64 \<Rightarrow> u64 list \<Rightarrow> bool" where
  "chain next stop g [] \<longleftrightarrow> g = stop"
| "chain next stop g (x # xs) \<longleftrightarrow>
     g = x \<and> x \<noteq> stop \<and> (case next x of Inl _ \<Rightarrow> False | Inr y \<Rightarrow> chain next stop y xs)"

primrec foldE :: "('a \<Rightarrow> 's \<Rightarrow> 's res) \<Rightarrow> 'a list \<Rightarrow> 's \<Rightarrow> 's res" where
  "foldE f [] s = Inr s"
| "foldE f (x # xs) s = bindE (f x s) (foldE f xs)"

text \<open>A chain is unique, so the guest's list is well defined, and it never visits an address twice.\<close>

lemma chain_unique: "chain next stop g xs \<Longrightarrow> chain next stop g ys \<Longrightarrow> xs = ys"
proof (induction xs arbitrary: g ys)
  case Nil
  then show ?case by (cases ys) auto
next
  case (Cons x xs)
  then obtain y ys' where "ys = y # ys'" by (cases ys) auto
  with Cons show ?case by (auto split: sum.splits)
qed

lemma chain_suffix: "chain next stop g (xs @ x # ys) \<Longrightarrow> chain next stop x (x # ys)"
  by (induction xs arbitrary: g) (auto split: sum.splits)

lemma chain_distinct:
  assumes "chain next stop g gs"
  shows "distinct gs"
proof (rule ccontr)
  assume "\<not> distinct gs"
  then obtain xs ys zs y where gs: "gs = xs @ [y] @ ys @ [y] @ zs"
    using not_distinct_decomp by blast
  have "chain next stop y (y # ys @ y # zs)"
    using chain_suffix [of "next" stop g xs y "ys @ y # zs"] assms gs by simp
  moreover have "chain next stop y (y # zs)"
    using chain_suffix [of "next" stop g "xs @ y # ys" y zs] assms gs by simp
  ultimately have "y # ys @ y # zs = y # zs" by (rule chain_unique)
  then show False
    by (metis append_eq_append_conv_if length_Cons length_append list.inject not_add_less2
        not_less_eq lessI add_Suc_right)
qed

section \<open>What the loop computes\<close>

lemma walk_list_complete:
  "chain next stop g gs \<Longrightarrow> length gs < fuel \<Longrightarrow>
     foldE body gs s = Inr s' \<Longrightarrow> walk_list fuel stop body next g s = Inr s'"
proof (induction gs arbitrary: g fuel s)
  case Nil
  then show ?case by (cases fuel) auto
next
  case (Cons x xs)
  then obtain n where "fuel = Suc n" by (cases fuel) auto
  with Cons show ?case by (auto simp: res_simps split: sum.splits)
qed

lemma walk_list_sound:
  "walk_list fuel stop body next g s = Inr s' \<Longrightarrow>
     \<exists>gs. chain next stop g gs \<and> length gs < fuel \<and> foldE body gs s = Inr s'"
proof (induction fuel arbitrary: g s)
  case 0
  then show ?case by simp
next
  case (Suc n)
  show ?case
  proof (cases "g = stop")
    case True
    with Suc.prems show ?thesis by (intro exI [of _ "[]"]) simp
  next
    case False
    with Suc.prems obtain s1 y where b: "body g s = Inr s1" and y: "next g = Inr y"
      and r: "walk_list n stop body next y s1 = Inr s'"
      by (auto simp: res_simps)
    from Suc.IH [OF r] obtain gs where "chain next stop y gs" "length gs < n"
      "foldE body gs s1 = Inr s'" by blast
    with False b y show ?thesis by (intro exI [of _ "g # gs"]) simp
  qed
qed

text \<open>A loop that cannot leave a set of addresses without the list head never returns.\<close>

lemma walk_list_diverges:
  assumes "g \<in> A" and "stop \<notin> A" and "\<And>x y. x \<in> A \<Longrightarrow> next x = Inr y \<Longrightarrow> y \<in> A"
  shows "walk_list fuel stop body next g s \<noteq> Inr s'"
  using assms(1)
proof (induction fuel arbitrary: g s)
  case 0
  then show ?case by simp
next
  case (Suc n)
  then have "g \<noteq> stop" using assms(2) by auto
  then show ?case using Suc assms(3) by (auto simp: res_simps)
qed

text \<open>Bodies that read an item at each address and feed it to an update.\<close>

lemma foldE_reads:
  "list_all2 (\<lambda>g t. rd g = Inr t) gs ts \<Longrightarrow>
     foldE (\<lambda>g s. bindE (rd g) (\<lambda>t. Inr (f t s))) gs s = Inr (fold f ts s)"
  by (induction arbitrary: s rule: list_all2_induct) auto

lemma foldE_reads_sound:
  "foldE (\<lambda>g s. bindE (rd g) (\<lambda>t. Inr (f t s))) gs s = Inr s' \<Longrightarrow>
     \<exists>ts. list_all2 (\<lambda>g t. rd g = Inr t) gs ts \<and> s' = fold f ts s"
proof (induction gs arbitrary: s)
  case Nil
  then show ?case by simp
next
  case (Cons g gs)
  then obtain t where t: "rd g = Inr t"
    and r: "foldE (\<lambda>g s. bindE (rd g) (\<lambda>t. Inr (f t s))) gs (f t s) = Inr s'"
    by (auto simp: bindE_Inr_iff)
  from Cons.IH [OF r] obtain ts where "list_all2 (\<lambda>g t. rd g = Inr t) gs ts" "s' = fold f ts (f t s)"
    by blast
  with t show ?case by (intro exI [of _ "t # ts"]) simp
qed

end
