(* ===== verification/HostList.thy ===== *)
theory HostList
  imports VmiPrelude
begin

text \<open>
  The host heap and the circular doubly linked lists of \<open>plugin/list.h\<close> in which the
  plugin collects its results. A \<open>struct list_head\<close> is a pair of pointers embedded in the
  listed object: the object at address \<open>b\<close> has it at \<open>b + off\<close>, and \<open>list_entry\<close> goes back
  from the embedded head to the object. Addresses are natural numbers.

  \<open>malloc\<close> hands out fresh memory. \<open>free\<close> marks an object dead and leaves its bytes alone, as
  the allocator does for the bytes in question until the next \<open>malloc\<close>; the ghost field
  \<open>h_uaf\<close> counts the reads of dead objects, which C leaves undefined.
\<close>

section \<open>Heap\<close>

record 'e heap =
  h_next :: "nat \<Rightarrow> nat"
  h_prev :: "nat \<Rightarrow> nat"
  h_obj :: "nat \<Rightarrow> 'e"
  h_live :: "nat set"
  h_brk :: nat
  h_uaf :: nat

definition malloc :: "nat \<Rightarrow> 'e heap \<Rightarrow> nat \<times> 'e heap" where
  "malloc sz h = (h_brk h, h\<lparr>h_live := insert (h_brk h) (h_live h), h_brk := h_brk h + sz\<rparr>)"

definition hfree :: "nat \<Rightarrow> 'e heap \<Rightarrow> 'e heap" where
  "hfree b h = h\<lparr>h_live := h_live h - {b}\<rparr>"

text \<open>A read of the object at \<open>b\<close>.\<close>

definition touch :: "nat \<Rightarrow> 'e heap \<Rightarrow> 'e heap" where
  "touch b h = (if b \<in> h_live h then h else h\<lparr>h_uaf := h_uaf h + 1\<rparr>)"

section \<open>Operations of list.h\<close>

definition INIT_LIST_HEAD :: "nat \<Rightarrow> 'e heap \<Rightarrow> 'e heap" where
  "INIT_LIST_HEAD ptr h = h\<lparr>h_next := (h_next h)(ptr := ptr), h_prev := (h_prev h)(ptr := ptr)\<rparr>"

definition list_entry :: "nat \<Rightarrow> nat \<Rightarrow> nat" where
  "list_entry off ptr = ptr - off"

definition list_add_between :: "nat \<Rightarrow> nat \<Rightarrow> nat \<Rightarrow> 'e heap \<Rightarrow> 'e heap" where
  "list_add_between new prev next h =
     (let h1 = h\<lparr>h_prev := (h_prev h)(next := new)\<rparr>;
          h2 = h1\<lparr>h_next := (h_next h1)(new := next)\<rparr>;
          h3 = h2\<lparr>h_prev := (h_prev h2)(new := prev)\<rparr>
      in h3\<lparr>h_next := (h_next h3)(prev := new)\<rparr>)"

definition list_add :: "nat \<Rightarrow> nat \<Rightarrow> 'e heap \<Rightarrow> 'e heap" where
  "list_add new head h = list_add_between new head (h_next h head) h"

definition list_add_tail :: "nat \<Rightarrow> nat \<Rightarrow> 'e heap \<Rightarrow> 'e heap" where
  "list_add_tail new head h = list_add_between new (h_prev h head) head h"

definition list_del_between :: "nat \<Rightarrow> nat \<Rightarrow> 'e heap \<Rightarrow> 'e heap" where
  "list_del_between prev next h =
     (let h1 = h\<lparr>h_prev := (h_prev h)(next := prev)\<rparr>
      in h1\<lparr>h_next := (h_next h1)(prev := next)\<rparr>)"

definition list_del :: "nat \<Rightarrow> 'e heap \<Rightarrow> 'e heap" where
  "list_del entry h = list_del_between (h_prev h entry) (h_next h entry) h"

text \<open>
  \<open>list_for_each_entry\<close> with a body that only reads: the loop visits the objects in order.
  The fuel bounds the number of tests of the loop condition.
\<close>

fun for_each_from :: "nat \<Rightarrow> nat \<Rightarrow> nat \<Rightarrow> nat \<Rightarrow> 'e heap \<Rightarrow> 'e list res" where
  "for_each_from 0 off head ptr h = Inl NoFuel"
| "for_each_from (Suc n) off head ptr h =
     (if ptr = head then Inr []
      else bindE (for_each_from n off head (h_next h ptr) h)
             (\<lambda>es. Inr (h_obj h (list_entry off ptr) # es)))"

definition list_for_each_entry :: "nat \<Rightarrow> nat \<Rightarrow> nat \<Rightarrow> 'e heap \<Rightarrow> 'e list res" where
  "list_for_each_entry fuel off head h = for_each_from fuel off head (h_next h head) h"

text \<open>
  The plugin's clean-up loop: \<open>list_for_each_entry\<close> whose body unlinks the entry and frees
  it, after which the loop reads \<open>next\<close> out of the freed entry.
\<close>

fun free_entries_from :: "nat \<Rightarrow> nat \<Rightarrow> nat \<Rightarrow> nat \<Rightarrow> 'e heap \<Rightarrow> 'e heap res" where
  "free_entries_from 0 off head ptr h = Inl NoFuel"
| "free_entries_from (Suc n) off head ptr h =
     (if ptr = head then Inr h
      else let h1 = list_del ptr h;
               h2 = hfree (list_entry off ptr) h1;
               h3 = touch (list_entry off ptr) h2
           in free_entries_from n off head (h_next h3 ptr) h3)"

definition free_entries :: "nat \<Rightarrow> nat \<Rightarrow> nat \<Rightarrow> 'e heap \<Rightarrow> 'e heap res" where
  "free_entries fuel off head h = free_entries_from fuel off head (h_next h head) h"

section \<open>Abstraction to sequences\<close>

text \<open>
  \<open>path f x ps y\<close>: following \<open>f\<close> from \<open>x\<close> passes through \<open>ps\<close> and then reaches \<open>y\<close>. A
  well-formed list with head \<open>hd\<close> is such a path from \<open>hd\<close> back to \<open>hd\<close> along \<open>next\<close>, and
  the reversed one along \<open>prev\<close>.
\<close>

fun path :: "(nat \<Rightarrow> nat) \<Rightarrow> nat \<Rightarrow> nat list \<Rightarrow> nat \<Rightarrow> bool" where
  "path f x [] y \<longleftrightarrow> f x = y"
| "path f x (p # ps) y \<longleftrightarrow> f x = p \<and> path f p ps y"

definition dll :: "'e heap \<Rightarrow> nat \<Rightarrow> nat list \<Rightarrow> bool" where
  "dll h head ps \<longleftrightarrow>
     path (h_next h) head ps head \<and> path (h_prev h) head (rev ps) head \<and> distinct (head # ps)"

lemma path_append: "path f x (ps @ q # qs) y \<longleftrightarrow> path f x ps q \<and> path f q qs y"
  by (induction ps arbitrary: x) auto

lemma path_upd: "a \<noteq> x \<Longrightarrow> a \<notin> set ps \<Longrightarrow> path (f(a := v)) x ps y = path f x ps y"
  by (induction ps arbitrary: x) auto

lemma path_snoc: "path f x (ps @ [q]) y \<longleftrightarrow> path f x ps q \<and> f q = y"
  by (simp add: path_append)

lemma path_end: "path f x ps y \<Longrightarrow> f (last (x # ps)) = y"
  by (induction ps arbitrary: x) auto

lemma path_upd_last:
  "path f x ps y \<Longrightarrow> distinct (x # ps) \<Longrightarrow> path (f(last (x # ps) := v)) x ps v"
proof (induction ps arbitrary: x)
  case Nil
  then show ?case by simp
next
  case (Cons p ps)
  have "path (f(last (p # ps) := v)) p ps v"
    by (rule Cons.IH) (use Cons.prems in auto)
  moreover have "last (p # ps) \<noteq> x"
    using Cons.prems(2) last_in_set [of "p # ps"] by auto
  ultimately show ?case
    using Cons.prems(1) by (cases "ps = []") (auto simp: fun_upd_def)
qed

lemma dll_prev_head: "dll h head ps \<Longrightarrow> h_prev h head = last (head # ps)"
  by (cases ps rule: rev_cases) (auto simp: dll_def)

lemma dll_empty: "dll (INIT_LIST_HEAD p h) p []"
  by (simp add: dll_def INIT_LIST_HEAD_def)

text \<open>Insertion at the head and at the tail, deletion anywhere.\<close>

lemma path_add:
  "path f x ps y \<Longrightarrow> distinct (x # ps) \<Longrightarrow> new \<notin> set (x # ps) \<Longrightarrow>
     path (f(new := y, last (x # ps) := new)) x (ps @ [new]) y"
  using path_upd_last [of "f(new := y)" x ps y new] path_upd [of new x ps f y y]
    last_in_set [of "x # ps"]
  by (auto simp: path_snoc)

lemma dll_add_tail:
  assumes "dll h head ps" and "new \<notin> set (head # ps)"
  shows "dll (list_add_tail new head h) head (ps @ [new])"
proof -
  let ?h = "list_add_tail new head h"
  note d = assms(1) [unfolded dll_def]
  have n: "h_next ?h = (h_next h)(new := head, last (head # ps) := new)"
    and p: "h_prev ?h = (h_prev h)(head := new, new := last (head # ps))"
    by (simp_all add: list_add_tail_def list_add_between_def dll_prev_head [OF assms(1)])
  have "path (h_next ?h) head (ps @ [new]) head"
    unfolding n by (rule path_add) (use d assms(2) in auto)
  moreover have "path (h_prev ?h) head (rev (ps @ [new])) head"
    using d assms(2) by (cases ps rule: rev_cases) (auto simp: p path_upd)
  ultimately show ?thesis
    using d assms(2) by (auto simp: dll_def)
qed

lemma dll_add:
  assumes "dll h head ps" and "new \<notin> set (head # ps)"
  shows "dll (list_add new head h) head (new # ps)"
proof -
  let ?h = "list_add new head h"
  note d = assms(1) [unfolded dll_def]
  have nx: "h_next h head = last (head # rev ps)"
    using d by (cases ps) auto
  then have v: "h_prev ?h = (h_prev h)(new := head, last (head # rev ps) := new)"
    using assms(2) by (cases ps) (auto simp: list_add_def list_add_between_def fun_upd_twist)
  have "path (h_prev ?h) head (rev ps @ [new]) head"
    unfolding v by (rule path_add) (use d assms(2) in auto)
  moreover have "path (h_next ?h) head (new # ps) head"
    using d assms(2) nx
    by (cases ps) (auto simp: list_add_def list_add_between_def path_upd)
  ultimately show ?thesis
    using d assms(2) by (auto simp: dll_def)
qed

lemma path_next: "path f x (xs @ p # ys) y \<Longrightarrow> f p = hd (ys @ [y])"
  by (cases ys) (auto simp: path_append)

lemma path_del:
  assumes "path f x (xs @ p # ys) x" and "distinct (x # xs @ p # ys)"
  shows "path (f(last (x # xs) := hd (ys @ [x]))) x (xs @ ys) x"
proof -
  from assms(1) have xs: "path f x xs p" and ys: "path f p ys x"
    by (simp_all add: path_append)
  have "path (f(last (x # xs) := hd (ys @ [x]))) x xs (hd (ys @ [x]))"
    by (rule path_upd_last [OF xs]) (use assms(2) in auto)
  moreover have "last (x # xs) \<notin> set ys"
    using assms(2) by (cases "xs = []") (auto simp: disjoint_iff)
  ultimately show ?thesis
    using ys by (cases ys) (auto simp: path_append path_upd)
qed

lemma dll_del:
  assumes "dll h head (xs @ p # ys)"
  shows "dll (list_del p h) head (xs @ ys)"
proof -
  note d = assms [unfolded dll_def]
  have n: "path (h_next h) head (xs @ p # ys) head"
    and v: "path (h_prev h) head (rev ys @ p # rev xs) head"
    using d by simp_all
  have hn: "h_next h p = last (head # rev ys)" "h_next h p = hd (ys @ [head])"
    using path_next [OF n] by (cases ys; simp)+
  have hv: "h_prev h p = last (head # xs)" "h_prev h p = hd (rev xs @ [head])"
    using path_next [OF v] by (cases xs rule: rev_cases; simp)+
  have "path ((h_next h)(h_prev h p := h_next h p)) head (xs @ ys) head"
    unfolding hv(1) hn(2) by (rule path_del [OF n]) (use d in auto)
  moreover have "path ((h_prev h)(h_next h p := h_prev h p)) head (rev ys @ rev xs) head"
    unfolding hn(1) hv(2) by (rule path_del [OF v]) (use d in auto)
  ultimately show ?thesis
    using d by (simp add: dll_def list_del_def list_del_between_def)
qed

section \<open>Iteration and clean-up\<close>

lemma for_each_path:
  "path (h_next h) x ps head \<Longrightarrow> head \<notin> set ps \<Longrightarrow> length ps < fuel \<Longrightarrow>
     for_each_from fuel off head (h_next h x) h = Inr (map (\<lambda>p. h_obj h (list_entry off p)) ps)"
proof (induction ps arbitrary: x fuel)
  case Nil
  then show ?case by (cases fuel) auto
next
  case (Cons p ps)
  then obtain n where n: "fuel = Suc n" by (cases fuel) auto
  have "for_each_from n off head (h_next h p) h = Inr (map (\<lambda>p. h_obj h (list_entry off p)) ps)"
    by (rule Cons.IH) (use Cons.prems n in auto)
  then show ?case using Cons.prems n by auto
qed

lemma list_for_each_entry_dll:
  "dll h head ps \<Longrightarrow> length ps < fuel \<Longrightarrow>
     list_for_each_entry fuel off head h = Inr (map (\<lambda>p. h_obj h (list_entry off p)) ps)"
  by (simp add: list_for_each_entry_def dll_def for_each_path)

lemma list_del_frame [simp]:
  "h_obj (list_del p h) = h_obj h" "h_live (list_del p h) = h_live h"
  "h_brk (list_del p h) = h_brk h" "h_uaf (list_del p h) = h_uaf h"
  by (simp_all add: list_del_def list_del_between_def)

lemma hfree_frame [simp]:
  "h_next (hfree b h) = h_next h" "h_prev (hfree b h) = h_prev h"
  "h_obj (hfree b h) = h_obj h" "h_live (hfree b h) = h_live h - {b}"
  "h_brk (hfree b h) = h_brk h" "h_uaf (hfree b h) = h_uaf h"
  by (simp_all add: hfree_def)

lemma touch_frame [simp]:
  "h_next (touch b h) = h_next h" "h_prev (touch b h) = h_prev h"
  "h_obj (touch b h) = h_obj h" "h_live (touch b h) = h_live h"
  "h_brk (touch b h) = h_brk h"
  "h_uaf (touch b h) = (if b \<in> h_live h then h_uaf h else Suc (h_uaf h))"
  by (simp_all add: touch_def)

lemma dll_frame: "h_next h' = h_next h \<Longrightarrow> h_prev h' = h_prev h \<Longrightarrow> dll h' head ps = dll h head ps"
  by (simp add: dll_def)

lemma list_del_first:
  "dll h head (p # ps) \<Longrightarrow> h_next (list_del p h) p = h_next (list_del p h) head"
  using path_next [of "h_prev h" head "rev ps" p "[]" head]
  by (auto simp: dll_def list_del_def list_del_between_def)

lemma path_image: "path f x ps y \<Longrightarrow> z \<in> set (x # ps) \<Longrightarrow> f z \<in> set (y # ps)"
  by (induction ps arbitrary: x) auto

lemma list_del_other:
  assumes "dll h head ps" and "x \<notin> set (head # ps)" and "p \<in> set ps"
  shows "h_next (list_del p h) x = h_next h x" "h_prev (list_del p h) x = h_prev h x"
  using assms path_image [of "h_next h" head ps head p] path_image [of "h_prev h" head "rev ps" head p]
  by (auto simp: dll_def list_del_def list_del_between_def)

text \<open>
  The clean-up loop visits every entry once, unlinks and frees it, and reads each freed
  entry once to find the next.
\<close>

lemma free_entries_dll:
  assumes "dll h head ps" and "length ps < fuel"
    and "list_entry off ` set ps \<subseteq> h_live h" and "inj_on (list_entry off) (set ps)"
  shows "\<exists>h'. free_entries fuel off head h = Inr h' \<and> dll h' head [] \<and>
     h_live h' = h_live h - list_entry off ` set ps \<and> h_uaf h' = h_uaf h + length ps \<and>
     h_obj h' = h_obj h \<and> h_brk h' = h_brk h \<and>
     (\<forall>x. x \<notin> set (head # ps) \<longrightarrow> h_next h' x = h_next h x \<and> h_prev h' x = h_prev h x)"
  using assms
proof (induction ps arbitrary: h fuel)
  case Nil
  then show ?case by (cases fuel) (auto simp: free_entries_def dll_def)
next
  case (Cons p ps)
  then obtain n where n: "fuel = Suc n" by (cases fuel) auto
  let ?b = "list_entry off p"
  let ?h = "touch ?b (hfree ?b (list_del p h))"
  have d: "dll (list_del p h) head ps"
    using dll_del [of h head "[]" p ps] Cons.prems(1) by simp
  have others: "?b \<notin> list_entry off ` set ps"
    using Cons.prems(1,4) by (auto simp: dll_def)
  have "\<exists>h'. free_entries n off head ?h = Inr h' \<and> dll h' head [] \<and>
     h_live h' = h_live ?h - list_entry off ` set ps \<and> h_uaf h' = h_uaf ?h + length ps \<and>
     h_obj h' = h_obj ?h \<and> h_brk h' = h_brk ?h \<and>
     (\<forall>x. x \<notin> set (head # ps) \<longrightarrow> h_next h' x = h_next ?h x \<and> h_prev h' x = h_prev ?h x)"
  proof (rule Cons.IH)
    show "dll ?h head ps" using d by (simp add: dll_def)
    show "list_entry off ` set ps \<subseteq> h_live ?h"
      using Cons.prems(3) others by (simp add: subset_Diff_insert)
  qed (use Cons.prems n in \<open>auto simp: inj_on_def\<close>)
  then obtain h' where h': "free_entries n off head ?h = Inr h'" "dll h' head []"
    "h_live h' = h_live ?h - list_entry off ` set ps" "h_uaf h' = h_uaf ?h + length ps"
    "h_obj h' = h_obj ?h" "h_brk h' = h_brk ?h"
    and fr: "\<And>x. x \<notin> set (head # ps) \<Longrightarrow> h_next h' x = h_next ?h x \<and> h_prev h' x = h_prev ?h x"
    by blast
  have "h_next h head = p" "p \<noteq> head"
    using Cons.prems(1) by (auto simp: dll_def)
  then have "free_entries fuel off head h = Inr h'"
    using list_del_first [OF Cons.prems(1)] h'(1) by (simp add: n free_entries_def Let_def)
  moreover have "x \<notin> set (head # p # ps) \<Longrightarrow> h_next h' x = h_next h x \<and> h_prev h' x = h_prev h x" for x
    using list_del_other [OF Cons.prems(1), of x p] fr [of x] by simp
  moreover have "h_live h' = h_live h - list_entry off ` set (p # ps)"
    using h'(3) by auto
  ultimately show ?case
    using h' by (intro exI [of _ h']) simp
qed

lemma list_add_tail_other:
  assumes "dll h head ps" and "x \<notin> set (new # head # ps)"
  shows "h_next (list_add_tail new head h) x = h_next h x"
    "h_prev (list_add_tail new head h) x = h_prev h x"
  using assms last_in_set [of "head # ps"]
  by (auto simp: list_add_tail_def list_add_between_def dll_prev_head [OF assms(1)])

section \<open>Result lists\<close>

text \<open>
  How the plugin uses these lists: a head of its own allocation, objects allocated and
  appended one by one, a loop over the objects, and the clean-up loop.
\<close>

definition sizeof_list_head :: nat where
  "sizeof_list_head = 16"

definition new_list :: "'e heap \<Rightarrow> nat \<times> 'e heap" where
  "new_list h = (let (b, h1) = malloc sizeof_list_head h in (b, INIT_LIST_HEAD b h1))"

definition push_obj :: "nat \<Rightarrow> nat \<Rightarrow> nat \<Rightarrow> 'e \<Rightarrow> 'e heap \<Rightarrow> 'e heap" where
  "push_obj sz off head e h =
     (let (b, h1) = malloc sz h
      in list_add_tail (b + off) head (h1\<lparr>h_obj := (h_obj h1)(b := e)\<rparr>))"

text \<open>
  \<open>holds off h head es\<close>: the list at \<open>head\<close> is well formed, its live objects carry \<open>es\<close> in
  order, and all of it lies below the break, so that the next allocation is fresh.
\<close>

definition holds :: "nat \<Rightarrow> 'e heap \<Rightarrow> nat \<Rightarrow> 'e list \<Rightarrow> bool" where
  "holds off h head es \<longleftrightarrow>
     (\<exists>ps. dll h head ps \<and> es = map (\<lambda>p. h_obj h (list_entry off p)) ps \<and>
        (\<forall>p \<in> set ps. off \<le> p) \<and> list_entry off ` set ps \<subseteq> h_live h \<and>
        (\<forall>p \<in> set (head # ps). p < h_brk h))"

locale result_list =
  fixes create :: "'h \<Rightarrow> nat \<times> 'h"
    and push :: "nat \<Rightarrow> 'e \<Rightarrow> 'h \<Rightarrow> 'h"
    and iterate :: "nat \<Rightarrow> nat \<Rightarrow> 'h \<Rightarrow> 'e list res"
    and release :: "nat \<Rightarrow> nat \<Rightarrow> 'h \<Rightarrow> 'h res"
    and contents :: "'h \<Rightarrow> nat \<Rightarrow> 'e list \<Rightarrow> bool"
  assumes create_contents: "create h = (head, h') \<Longrightarrow> contents h' head []"
    and push_contents: "contents h head es \<Longrightarrow> contents (push head e h) head (es @ [e])"
    and iterate_contents: "contents h head es \<Longrightarrow> length es < fuel \<Longrightarrow> iterate fuel head h = Inr es"
    and release_contents: "contents h head es \<Longrightarrow> length es < fuel \<Longrightarrow>
      \<exists>h'. release fuel head h = Inr h' \<and> contents h' head []"
begin

lemma push_all_contents:
  "contents h head es \<Longrightarrow> contents (fold (push head) xs h) head (es @ xs)"
proof (induction xs arbitrary: h es)
  case Nil
  then show ?case by simp
next
  case (Cons x xs)
  have "contents (fold (push head) xs (push head x h)) head ((es @ [x]) @ xs)"
    by (rule Cons.IH) (rule push_contents [OF Cons.prems])
  then show ?case by simp
qed

lemma collect_iterate:
  assumes "create h = (head, h0)" and "length xs < fuel"
  shows "iterate fuel head (fold (push head) xs h0) = Inr xs"
  using push_all_contents [OF create_contents [OF assms(1)], of xs] assms(2)
  by (simp add: iterate_contents)

end

lemma list_entry_add [simp]: "list_entry off (b + off) = b"
  by (simp add: list_entry_def)

lemma list_entry_less: "off \<le> p \<Longrightarrow> p < n \<Longrightarrow> list_entry off p < n"
  by (simp add: list_entry_def)

lemma list_entry_inj: "(\<And>p. p \<in> A \<Longrightarrow> off \<le> p) \<Longrightarrow> inj_on (list_entry off) A"
  by (auto simp: inj_on_def list_entry_def) (metis le_add_diff_inverse2)

lemma list_add_tail_frame [simp]:
  "h_obj (list_add_tail new head h) = h_obj h" "h_live (list_add_tail new head h) = h_live h"
  "h_brk (list_add_tail new head h) = h_brk h" "h_uaf (list_add_tail new head h) = h_uaf h"
  by (simp_all add: list_add_tail_def list_add_between_def)

lemma new_list_holds: "new_list h = (head, h') \<Longrightarrow> holds off h' head []"
  by (auto simp: new_list_def malloc_def holds_def sizeof_list_head_def INIT_LIST_HEAD_def dll_def)

lemma push_obj_holds:
  assumes "holds off h head es" and "off < sz"
  shows "holds off (push_obj sz off head e h) head (es @ [e])"
proof -
  from assms(1) obtain ps where d: "dll h head ps" and es: "es = map (\<lambda>p. h_obj h (list_entry off p)) ps"
    and off: "\<forall>p \<in> set ps. off \<le> p" and live: "list_entry off ` set ps \<subseteq> h_live h"
    and brk: "\<forall>p \<in> set (head # ps). p < h_brk h"
    by (auto simp: holds_def)
  let ?h = "push_obj sz off head e h" and ?new = "h_brk h + off"
  let ?h1 = "h\<lparr>h_live := insert (h_brk h) (h_live h), h_brk := h_brk h + sz,
    h_obj := (h_obj h)(h_brk h := e)\<rparr>"
  have "dll ?h1 head ps" and "?new \<notin> set (head # ps)"
    using d brk by (auto simp: dll_def)
  from dll_add_tail [OF this] have "dll ?h head (ps @ [?new])"
    by (simp add: push_obj_def malloc_def Let_def)
  moreover have "es @ [e] = map (\<lambda>p. h_obj ?h (list_entry off p)) (ps @ [?new])"
    using off brk by (auto simp: es push_obj_def malloc_def Let_def) (metis less_irrefl list_entry_less)
  moreover have "list_entry off ` set (ps @ [?new]) \<subseteq> h_live ?h"
    using live by (auto simp: push_obj_def malloc_def Let_def)
  moreover have "\<forall>p \<in> set (head # ps @ [?new]). p < h_brk ?h"
    using brk assms(2) by (auto simp: push_obj_def malloc_def Let_def)
  ultimately show ?thesis
    using off unfolding holds_def by (intro exI [of _ "ps @ [?new]"]) auto
qed

lemma iterate_holds:
  "holds off h head es \<Longrightarrow> length es < fuel \<Longrightarrow> list_for_each_entry fuel off head h = Inr es"
  by (auto simp: holds_def list_for_each_entry_dll)

lemma free_entries_holds:
  assumes "holds off h head es" and "length es < fuel"
  shows "\<exists>h'. free_entries fuel off head h = Inr h' \<and> holds off h' head [] \<and>
    h_uaf h' = h_uaf h + length es \<and> h_brk h' = h_brk h"
proof -
  from assms(1) obtain ps where ps: "dll h head ps" "es = map (\<lambda>p. h_obj h (list_entry off p)) ps"
    "\<forall>p \<in> set ps. off \<le> p" "list_entry off ` set ps \<subseteq> h_live h" "head < h_brk h"
    by (auto simp: holds_def)
  moreover have "inj_on (list_entry off) (set ps)"
    using ps(3) by (intro list_entry_inj) auto
  ultimately show ?thesis
    using free_entries_dll [of h head ps fuel off] assms(2) by (auto simp: holds_def)
qed

end
