(* ===== verification/CFloat.thy ===== *)
theory CFloat
  imports Complex_Main
begin

text \<open>
  C's binary floating point as the plugin uses it: \<open>float\<close> (24 significant bits) for the
  CPU and memory percentages and \<open>double\<close> (53 bits) inside \<open>ilog2\<close>. A value is a real
  number and every operation rounds its exact result to \<open>p\<close> significant bits, to nearest
  with ties to even. The exponent is not bounded: the quantities here lie between
  \<open>2 ^ - 64\<close> and \<open>2 ^ 71\<close> and neither overflow nor become subnormal.
\<close>

section \<open>Rounding to nearest, ties to even\<close>

definition rne :: "real \<Rightarrow> int" where
  "rne x =
     (let f = \<lfloor>x\<rfloor>; d = x - of_int f
      in if d < 1 / 2 then f else if d > 1 / 2 then f + 1 else if even f then f else f + 1)"

definition bexp :: "real \<Rightarrow> int" where
  "bexp x = \<lfloor>log 2 \<bar>x\<bar>\<rfloor>"

definition rnd :: "nat \<Rightarrow> real \<Rightarrow> real" where
  "rnd p x =
     (if x = 0 then 0
      else let e = bexp x + 1 - int p in of_int (rne (x / 2 powi e)) * 2 powi e)"

definition fl32 :: "real \<Rightarrow> real" where
  "fl32 x = rnd 24 x"

definition fl64 :: "real \<Rightarrow> real" where
  "fl64 x = rnd 53 x"

section \<open>Properties of rounding\<close>

lemma rne_of_int [simp]: "rne (of_int k) = k"
  by (simp add: rne_def)

lemma rne_error: "\<bar>of_int (rne x) - x\<bar> \<le> 1 / 2"
  unfolding rne_def Let_def by simp

lemma rne_mono: "x \<le> y \<Longrightarrow> rne x \<le> rne y"
proof (cases "\<lfloor>x\<rfloor> = \<lfloor>y\<rfloor>")
  case True
  moreover assume "x \<le> y"
  ultimately show ?thesis by (auto simp: rne_def Let_def)
next
  case False
  moreover assume "x \<le> y"
  ultimately have "\<lfloor>x\<rfloor> + 1 \<le> \<lfloor>y\<rfloor>"
    using floor_mono [of x y] by linarith
  moreover have "rne x \<le> \<lfloor>x\<rfloor> + 1" and "\<lfloor>y\<rfloor> \<le> rne y"
    by (auto simp: rne_def Let_def)
  ultimately show ?thesis by linarith
qed

lemma pow2_less_iff [simp]: "(2::real) powi a < 2 powi b \<longleftrightarrow> a < b"
  by (metis linorder_not_le one_less_numeral_iff power_int_increasing power_int_strict_increasing
      numeral_One one_le_numeral semiring_norm(76))

lemma pow2_le_iff [simp]: "(2::real) powi a \<le> 2 powi b \<longleftrightarrow> a \<le> b"
  using pow2_less_iff [of b a] by linarith

lemma pow2_pos [simp]: "0 < (2::real) powi a"
  by simp

lemma bexp_bounds:
  assumes "0 < x"
  shows "2 powi bexp x \<le> x" and "x < 2 powi (bexp x + 1)"
proof -
  have x: "x = 2 powr log 2 x"
    using assms by simp
  have "2 powr of_int (bexp x) \<le> 2 powr log 2 x"
    by (rule powr_mono) (use assms in \<open>simp_all add: bexp_def\<close>)
  then show "2 powi bexp x \<le> x"
    using assms by (simp add: powr_real_of_int')
  have "2 powr log 2 x < 2 powr of_int (bexp x + 1)"
    by (rule powr_less_mono) (use assms in \<open>simp_all add: bexp_def\<close>)
  also have "2 powr of_int (bexp x + 1) = (2::real) powi (bexp x + 1)"
    by (rule powr_real_of_int') simp_all
  finally show "x < 2 powi (bexp x + 1)"
    by (simp only: x [symmetric])
qed

lemma bexp_eqI:
  assumes "2 powi k \<le> x" and "x < 2 powi (k + 1)"
  shows "bexp x = k"
proof -
  have "0 < x"
    using assms(1) zero_less_power_int [of "2::real" k] by linarith
  note b = bexp_bounds [OF this]
  have "(2::real) powi k < 2 powi (bexp x + 1)" "(2::real) powi bexp x < 2 powi (k + 1)"
    using assms b by linarith+
  then have "k < bexp x + 1" "bexp x < k + 1"
    by simp_all
  then show ?thesis by linarith
qed

text \<open>A positive number stays in its binade, end points included.\<close>

lemma scaled_bounds:
  assumes "0 < x" and "e = bexp x + 1 - int p"
  shows "2 powi (int p - 1) \<le> x / 2 powi e" and "x / 2 powi e < 2 powi int p"
proof -
  have "2 powi (int p - 1) * 2 powi e = (2::real) powi bexp x"
    "2 powi int p * 2 powi e = (2::real) powi (bexp x + 1)"
    unfolding assms(2) by (subst power_int_add [symmetric]; simp)+
  with bexp_bounds [OF assms(1)]
  show "2 powi (int p - 1) \<le> x / 2 powi e" and "x / 2 powi e < 2 powi int p"
    by (simp_all add: field_simps)
qed

lemma rnd_binade:
  assumes "0 < x" and "0 < p"
  shows "2 powi bexp x \<le> rnd p x" and "rnd p x \<le> 2 powi (bexp x + 1)"
proof -
  define e where "e = bexp x + 1 - int p"
  note b = scaled_bounds [OF assms(1) e_def]
  have r: "rnd p x = of_int (rne (x / 2 powi e)) * 2 powi e"
    using assms(1) by (simp add: rnd_def e_def Let_def)
  have i: "(2::real) powi (int p - 1) = of_int (2 ^ (p - 1))" "(2::real) powi int p = of_int (2 ^ p)"
    using assms(2) by (simp_all add: power_int_def nat_diff_distrib)
  have "2 ^ (p - 1) \<le> rne (x / 2 powi e)"
    using rne_mono [OF b(1) [unfolded i]] by (simp only: rne_of_int)
  then have "(2::real) powi (int p - 1) \<le> of_int (rne (x / 2 powi e))"
    unfolding i by (simp only: of_int_le_iff)
  then have "(2::real) powi (int p - 1) * 2 powi e \<le> rnd p x"
    unfolding r by (rule mult_right_mono) simp
  then show "2 powi bexp x \<le> rnd p x"
    by (simp add: e_def flip: power_int_add)
  have "rne (x / 2 powi e) \<le> 2 ^ p"
    using rne_mono [OF less_imp_le [OF b(2) [unfolded i]]] by (simp only: rne_of_int)
  then have "of_int (rne (x / 2 powi e)) \<le> (2::real) powi int p"
    unfolding i by (simp only: of_int_le_iff)
  then have "rnd p x \<le> 2 powi int p * 2 powi e"
    unfolding r by (rule mult_right_mono) simp
  also have "\<dots> = 2 powi (bexp x + 1)"
    unfolding e_def by (subst power_int_add [symmetric]; simp)
  finally show "rnd p x \<le> 2 powi (bexp x + 1)" .
qed

lemma rnd_0 [simp]: "rnd p 0 = 0"
  by (simp add: rnd_def)

lemma rnd_pos: "0 < x \<Longrightarrow> 0 < p \<Longrightarrow> 0 < rnd p x"
  using rnd_binade(1) [of x p] pow2_pos [of "bexp x"] by linarith

lemma rnd_nonneg: "0 \<le> x \<Longrightarrow> 0 < p \<Longrightarrow> 0 \<le> rnd p x"
  using rnd_pos [of x p] by (cases "x = 0") auto

lemma bexp_mono: "0 < x \<Longrightarrow> x \<le> y \<Longrightarrow> bexp x \<le> bexp y"
  by (simp add: bexp_def floor_mono)

lemma rnd_mono:
  assumes "0 \<le> x" and "x \<le> y" and "0 < p"
  shows "rnd p x \<le> rnd p y"
proof (cases "x = 0")
  case True
  then show ?thesis using assms by (simp add: rnd_nonneg)
next
  case False
  with assms have pos: "0 < x" "0 < y" by auto
  show ?thesis
  proof (cases "bexp x = bexp y")
    case True
    with pos assms show ?thesis
      by (auto simp: rnd_def Let_def intro!: mult_right_mono rne_mono divide_right_mono)
  next
    case False
    with bexp_mono [OF pos(1) assms(2)] have "bexp x + 1 \<le> bexp y" by linarith
    then have "(2::real) powi (bexp x + 1) \<le> 2 powi bexp y" by simp
    with rnd_binade [OF pos(1) assms(3)] rnd_binade [OF pos(2) assms(3)]
    show ?thesis by linarith
  qed
qed

text \<open>The relative error is at most half a unit in the last place.\<close>

lemma rnd_rel_error:
  assumes "0 < x"
  shows "\<bar>rnd p x - x\<bar> \<le> x * 2 powi (- int p)"
proof -
  define e where "e = bexp x + 1 - int p"
  have "rnd p x - x = (of_int (rne (x / 2 powi e)) - x / 2 powi e) * 2 powi e"
    using assms by (simp add: rnd_def e_def Let_def field_simps)
  then have "\<bar>rnd p x - x\<bar> \<le> 1 / 2 * 2 powi e"
    using rne_error [of "x / 2 powi e"] by (simp add: abs_mult mult_right_mono)
  also have "(1::real) / 2 * 2 powi e = 2 powi bexp x * 2 powi (- int p)"
    by (simp add: e_def power_int_add power_int_diff power_int_minus field_simps)
  also have "\<dots> \<le> x * 2 powi (- int p)"
    by (rule mult_right_mono) (use bexp_bounds(1) [OF assms] in simp_all)
  finally show ?thesis .
qed

text \<open>Integers of at most \<open>p\<close> bits are exact.\<close>

lemma rnd_exactI: "x / 2 powi (bexp x + 1 - int p) = of_int k \<Longrightarrow> rnd p x = x"
  unfolding rnd_def Let_def
  by (simp del: of_int_eq_iff) (metis nonzero_eq_divide_eq pow2_pos order_less_irrefl)

lemma rnd_of_nat:
  assumes "n < 2 ^ p"
  shows "rnd p (real n) = real n"
proof (cases "n = 0")
  case False
  then have pos: "0 < real n" by simp
  have "real n < 2 powi int p"
    using assms by (simp add: power_int_def)
  with bexp_bounds(1) [OF pos] have "(2::real) powi bexp (real n) < 2 powi int p"
    by linarith
  then have "0 \<le> int p - bexp (real n) - 1" by (simp only: pow2_less_iff)
  then obtain k where k: "int p - bexp (real n) - 1 = int k"
    using nonneg_int_cases by blast
  then have "bexp (real n) + 1 - int p = - int k" by linarith
  then have "real n / 2 powi (bexp (real n) + 1 - int p) = of_int (int n * 2 ^ k)"
    by (simp only:) (simp add: power_int_minus power_int_def field_simps)
  then show ?thesis by (rule rnd_exactI)
qed simp

end
