(* ===== verification/CFormat.thy ===== *)
theory CFormat
  imports VmiPrelude CFloat
begin

text \<open>
  The \<open>printf\<close> conversions of the plugin's output: \<open>%d\<close>, \<open>%lu\<close>, \<open>0x%016lx\<close>,
  \<open>%2.2X\<close>, \<open>%.1f\<close> and \<open>%5.1f\<close>, and the readers they are inverse to.
\<close>

section \<open>Conversions\<close>

definition digit_char :: "nat \<Rightarrow> char" where
  "digit_char d = char_of (if d < 10 then 48 + d else 87 + d)"

definition upper_digit_char :: "nat \<Rightarrow> char" where
  "upper_digit_char d = char_of (if d < 10 then 48 + d else 55 + d)"

fun show_nat :: "nat \<Rightarrow> string" where
  "show_nat n = (if n < 10 then [digit_char n] else show_nat (n div 10) @ [digit_char (n mod 10)])"

declare show_nat.simps [simp del]

definition show_int :: "int \<Rightarrow> string" where
  "show_int i = (if i < 0 then CHR 0x2D # show_nat (nat (- i)) else show_nat (nat i))"

primrec hex_digits :: "nat \<Rightarrow> nat \<Rightarrow> string" where
  "hex_digits 0 n = []"
| "hex_digits (Suc k) n = hex_digits k (n div 16) @ [digit_char (n mod 16)]"

text \<open>\<open>0x%016lx\<close>: a 64-bit value has at most sixteen digits, so exactly sixteen are printed.\<close>

definition fmt_016lx :: "u64 \<Rightarrow> string" where
  "fmt_016lx w = ''0x'' @ hex_digits 16 (unat w)"

text \<open>\<open>%2.2X\<close> of an \<open>unsigned char\<close>.\<close>

definition fmt_22X :: "u8 \<Rightarrow> string" where
  "fmt_22X b = [upper_digit_char (unat b div 16), upper_digit_char (unat b mod 16)]"

definition fmt_lu :: "u64 \<Rightarrow> string" where
  "fmt_lu w = show_nat (unat w)"

text \<open>\<open>%.1f\<close>: the exact binary value is rounded to one decimal, ties to even.\<close>

definition fmt_1f :: "real \<Rightarrow> string" where
  "fmt_1f x =
     (let t = rne (10 * x); a = nat \<bar>t\<bar>
      in (if x < 0 then ''-'' else []) @ show_nat (a div 10) @ ''.'' @ show_nat (a mod 10))"

definition pad_left :: "nat \<Rightarrow> string \<Rightarrow> string" where
  "pad_left k s = replicate (k - length s) (CHR 0x20) @ s"

definition fmt_51f :: "real \<Rightarrow> string" where
  "fmt_51f x = pad_left 5 (fmt_1f x)"

text \<open>\<open>%3d\<close> of a non-negative number.\<close>

definition fmt_3d :: "nat \<Rightarrow> string" where
  "fmt_3d n = pad_left 3 (show_nat n)"

definition nl :: string where
  "nl = [CHR 0x0A]"

text \<open>A counter incremented per entry and one line printed for each, as the list commands do.\<close>

fun numbered :: "(nat \<Rightarrow> 'a \<Rightarrow> string) \<Rightarrow> nat \<Rightarrow> 'a list \<Rightarrow> nat \<times> string" where
  "numbered line k [] = (k, [])"
| "numbered line k (x # xs) = (let (n, s) = numbered line (Suc k) xs in (n, line (Suc k) x @ s))"

lemma numbered_eq:
  "numbered line k xs = (k + length xs, concat (map2 line [Suc k..<Suc (k + length xs)] xs))"
proof (induction xs arbitrary: k)
  case Nil
  then show ?case by simp
next
  case (Cons x xs)
  have "[Suc k..<Suc (k + length (x # xs))] = Suc k # [Suc (Suc k)..<Suc (Suc k + length xs)]"
    by (simp add: upt_conv_Cons del: upt_Suc)
  then show ?case by (simp add: Cons.IH del: upt_Suc)
qed

section \<open>Reading back\<close>

definition digit_val :: "char \<Rightarrow> nat" where
  "digit_val c = (let k = of_char c in if k < 58 then k - 48 else k - 87)"

definition read_base :: "nat \<Rightarrow> string \<Rightarrow> nat" where
  "read_base b s = foldl (\<lambda>acc c. acc * b + digit_val c) 0 s"

lemma digit_val_digit_char [simp]: "d < 16 \<Longrightarrow> digit_val (digit_char d) = d"
  by (simp add: digit_val_def digit_char_def)

lemma read_base_snoc: "read_base b (s @ [c]) = read_base b s * b + digit_val c"
  by (simp add: read_base_def)

lemma read_show_nat: "read_base 10 (show_nat n) = n"
proof (induction n rule: show_nat.induct)
  case (1 n)
  then show ?case
    by (subst show_nat.simps) (auto simp: read_base_snoc, simp add: read_base_def)
qed

lemma read_hex_digits: "n < 16 ^ k \<Longrightarrow> read_base 16 (hex_digits k n) = n"
proof (induction k arbitrary: n)
  case 0
  then show ?case by (simp add: read_base_def)
next
  case (Suc k)
  then have "n div 16 < 16 ^ k" by (simp add: less_mult_imp_div_less mult.commute)
  with Suc.IH show ?case by (simp add: read_base_snoc)
qed

lemma length_hex_digits [simp]: "length (hex_digits k n) = k"
  by (induction k arbitrary: n) auto

lemma show_nat_inj: "show_nat m = show_nat n \<Longrightarrow> m = n"
  by (metis read_show_nat)

lemma show_nat_nonempty: "show_nat n \<noteq> []"
  by (subst show_nat.simps) simp

end
