(* ===== verification/GuestTasks.thy ===== *)
theory GuestTasks
  imports KernelLayout GuestList HostList CFormat
begin

text \<open>
  The task list of the guest, \<open>plugin/tasks.c\<close>: from \<open>init_task\<close> the circular list
  \<open>task_struct.tasks\<close> is followed until it comes back, and each task's pid, name and page
  directory are collected in a host list, which \<open>list_tasks\<close> prints and frees.
  The objects of the host list live in a heap of \<open>struct task\<close>.
\<close>

section \<open>Data\<close>

record task =
  t_pid :: int
  t_name :: string
  t_cr3 :: u64

definition TASK_NAME_LEN :: nat where
  "TASK_NAME_LEN = 30"

text \<open>\<open>sizeof(struct task)\<close> and the offset of its \<open>list\<close> member.\<close>

definition sizeof_task :: nat where
  "sizeof_task = 64"

definition task_list_off :: nat where
  "task_list_off = 48"

section \<open>Traversal\<close>

text \<open>
  What is read of one \<open>task_struct\<close>, whose offset from \<open>mem\<close> is \<open>base\<close>, in the order of the
  source: \<open>mm\<close>, the page directory unless \<open>mm\<close> is null, \<open>pid\<close> and \<open>comm\<close>.
\<close>

definition read_task :: "ram \<Rightarrow> u64 \<Rightarrow> task res" where
  "read_task mem base =
     bindE (rd64 mem (base + TASK_MM_OFFSET)) (\<lambda>mm_base.
     bindE (if mm_base \<noteq> 0 then rd64 mem (virt_to_phys mm_base + MM_PGD_OFFSET) else Inr 0) (\<lambda>cr3.
     bindE (rd32 mem (base + TASK_PID_OFFSET)) (\<lambda>pid.
     bindE (sprintf_s mem (base + TASK_COMM_OFFSET) TASK_NAME_LEN) (\<lambda>name.
       Inr \<lparr>t_pid = sint pid, t_name = name, t_cr3 = cr3\<rparr>))))"

text \<open>\<open>*next_task_tasks - TASK_TASKS_OFFSET\<close>: the guest address of the next task.\<close>

definition next_task_gva :: "ram \<Rightarrow> u64 \<Rightarrow> u64 res" where
  "next_task_gva mem base =
     bindE (rd64 mem (base + TASK_TASKS_OFFSET)) (\<lambda>p. Inr (p - TASK_TASKS_OFFSET))"

definition add_task :: "nat \<Rightarrow> task \<Rightarrow> task heap \<Rightarrow> task heap" where
  "add_task = push_obj sizeof_task task_list_off"

text \<open>The loop from the task after \<open>init_task\<close> on.\<close>

definition traverse_tasks_loop :: "nat \<Rightarrow> ram \<Rightarrow> u64 \<Rightarrow> nat \<Rightarrow> task heap \<Rightarrow> task heap res" where
  "traverse_tasks_loop fuel mem gva tasks h =
     walk_list fuel INIT_TASK_GVA
       (\<lambda>gva h. bindE (read_task mem (virt_to_phys gva)) (\<lambda>tsk. Inr (add_task tasks tsk h)))
       (\<lambda>gva. next_task_gva mem (virt_to_phys gva)) gva h"

definition traverse_tasks :: "nat \<Rightarrow> ram \<Rightarrow> task heap \<Rightarrow> (nat \<times> task heap) res" where
  "traverse_tasks fuel mem h =
     (let (tasks, h0) = new_list h;
          init_task_base = virt_to_phys INIT_TASK_GVA
      in bindE (read_task mem init_task_base) (\<lambda>tsk.
         bindE (next_task_gva mem init_task_base) (\<lambda>gva.
         bindE (traverse_tasks_loop fuel mem gva tasks (add_task tasks tsk h0)) (\<lambda>h1.
           Inr (tasks, h1)))))"

section \<open>The monitor command\<close>

text \<open>\<open>monitor_printf(mon, "%d, %d, %s, 0x%016lx\n", ...)\<close> for the \<open>k\<close>-th task.\<close>

definition task_line :: "nat \<Rightarrow> task \<Rightarrow> string" where
  "task_line k t =
     show_nat k @ '', '' @ show_int (t_pid t) @ '', '' @ t_name t @ '', '' @ fmt_016lx (t_cr3 t) @ nl"

definition list_tasks :: "nat \<Rightarrow> ram \<Rightarrow> task heap \<Rightarrow> (string \<times> task heap) res" where
  "list_tasks fuel mem h =
     bindE (traverse_tasks fuel mem h) (\<lambda>(head, h1).
     bindE (list_for_each_entry fuel task_list_off head h1) (\<lambda>ts.
     bindE (free_entries fuel task_list_off head h1) (\<lambda>h2.
       let (tot_task, out) = numbered task_line 0 ts
       in Inr (out @ ''Total Tasks: '' @ show_nat tot_task @ nl, h2))))"

section \<open>Specification\<close>

text \<open>
  The guest's task list as the addresses \<open>gs\<close> linked after \<open>init_task\<close> and what the tasks
  contain, \<open>init_task\<close> first.
\<close>

definition task_chain :: "ram \<Rightarrow> u64 \<Rightarrow> u64 list \<Rightarrow> bool" where
  "task_chain mem = chain (\<lambda>gva. next_task_gva mem (virt_to_phys gva)) INIT_TASK_GVA"

definition guest_tasks :: "ram \<Rightarrow> u64 list \<Rightarrow> task list \<Rightarrow> bool" where
  "guest_tasks mem gs ts \<longleftrightarrow>
     (\<exists>g. next_task_gva mem (virt_to_phys INIT_TASK_GVA) = Inr g \<and> task_chain mem g gs) \<and>
     list_all2 (\<lambda>g t. read_task mem (virt_to_phys g) = Inr t) (INIT_TASK_GVA # gs) ts"

section \<open>The host list is a result list\<close>

interpretation task_list: result_list new_list add_task
  "\<lambda>fuel head h. list_for_each_entry fuel task_list_off head h"
  "\<lambda>fuel head h. free_entries fuel task_list_off head h"
  "holds task_list_off"
proof unfold_locales
  show "holds task_list_off (add_task head e h) head (es @ [e])"
    if "holds task_list_off h head es" for h head es and e :: task
    using that push_obj_holds [of task_list_off h head es sizeof_task e]
    by (simp add: add_task_def sizeof_task_def task_list_off_def)
qed (auto intro: new_list_holds iterate_holds dest: free_entries_holds)

section \<open>Facts about the traversal\<close>

lemma traverse_loop_complete:
  "task_chain mem g gs \<Longrightarrow> list_all2 (\<lambda>g t. read_task mem (virt_to_phys g) = Inr t) gs ts \<Longrightarrow>
     length gs < fuel \<Longrightarrow> traverse_tasks_loop fuel mem g head h = Inr (fold (add_task head) ts h)"
  unfolding traverse_tasks_loop_def task_chain_def
  by (rule walk_list_complete) (auto intro: foldE_reads)

lemma traverse_loop_sound:
  "traverse_tasks_loop fuel mem g head h = Inr h' \<Longrightarrow>
     \<exists>gs ts. task_chain mem g gs \<and> list_all2 (\<lambda>g t. read_task mem (virt_to_phys g) = Inr t) gs ts \<and>
       h' = fold (add_task head) ts h \<and> length gs < fuel"
  unfolding traverse_tasks_loop_def task_chain_def
  by (drule walk_list_sound, clarify, drule foldE_reads_sound, blast)

lemma add_task_uaf [simp]: "h_uaf (add_task head t h) = h_uaf h"
  by (simp add: add_task_def push_obj_def malloc_def Let_def)

lemma fold_add_task_uaf [simp]: "h_uaf (fold (add_task head) ts h) = h_uaf h"
  by (induction ts arbitrary: h) auto

lemma new_list_uaf: "new_list h = (head, h') \<Longrightarrow> h_uaf h' = h_uaf h"
  by (auto simp: new_list_def malloc_def INIT_LIST_HEAD_def)

lemma traverse_tasks_complete:
  assumes "guest_tasks mem gs ts" and "length gs < fuel"
  shows "\<exists>head h'. traverse_tasks fuel mem h = Inr (head, h') \<and> holds task_list_off h' head ts \<and>
    h_uaf h' = h_uaf h"
proof -
  obtain head h0 where n: "new_list h = (head, h0)" by fastforce
  from assms(1) obtain t ts' where ts: "ts = t # ts'"
    by (cases ts) (auto simp: guest_tasks_def)
  have "holds task_list_off (fold (add_task head) ts h0) head ([] @ ts)"
    by (rule task_list.push_all_contents) (rule new_list_holds [OF n])
  moreover have "traverse_tasks fuel mem h = Inr (head, fold (add_task head) ts h0)"
    using assms n by (auto simp: traverse_tasks_def guest_tasks_def ts traverse_loop_complete)
  ultimately show ?thesis using new_list_uaf [OF n] by simp
qed

lemma traverse_tasks_sound:
  assumes "traverse_tasks fuel mem h = Inr (head, h')"
  shows "\<exists>gs ts. guest_tasks mem gs ts \<and> holds task_list_off h' head ts \<and> length gs < fuel"
proof -
  obtain h0 where n: "new_list h = (head, h0)"
    using assms by (auto simp: traverse_tasks_def res_simps Let_def split: prod.splits)
  with assms obtain t g where t: "read_task mem (virt_to_phys INIT_TASK_GVA) = Inr t"
    and g: "next_task_gva mem (virt_to_phys INIT_TASK_GVA) = Inr g"
    and l: "traverse_tasks_loop fuel mem g head (add_task head t h0) = Inr h'"
    by (auto simp: traverse_tasks_def res_simps Let_def)
  from traverse_loop_sound [OF l] obtain gs ts where c: "task_chain mem g gs"
    "list_all2 (\<lambda>g t. read_task mem (virt_to_phys g) = Inr t) gs ts" "length gs < fuel"
    and h': "h' = fold (add_task head) ts (add_task head t h0)" by blast
  have "holds task_list_off (fold (add_task head) (t # ts) h0) head ([] @ t # ts)"
    by (rule task_list.push_all_contents) (rule new_list_holds [OF n])
  with c t g h' show ?thesis
    by (intro exI [of _ gs] exI [of _ "t # ts"]) (auto simp: guest_tasks_def)
qed

lemma read_task_name: "read_task mem b = Inr t \<Longrightarrow> length (t_name t) < TASK_NAME_LEN"
  by (auto simp: read_task_def bindE_Inr_iff dest: sprintf_s_length simp del: if_image_distrib)

lemma guest_tasks_names:
  "guest_tasks mem gs ts \<Longrightarrow> t \<in> set ts \<Longrightarrow> length (t_name t) < TASK_NAME_LEN"
  by (auto simp: guest_tasks_def list_all2_conv_all_nth in_set_conv_nth intro: read_task_name)

lemma guest_tasks_length: "guest_tasks mem gs ts \<Longrightarrow> length ts = Suc (length gs)"
  by (auto simp: guest_tasks_def dest: list_all2_lengthD)

section \<open>A guest with two tasks\<close>

definition tasks_ram :: ram where
  "tasks_ram =
     put64 0x1c148e0 0x0072657070617773 (put64 0x24a0 0x74696e69 (put64 0x1c146a8 0xffff880000002268
     (put64 0x1c1471c 0 (put64 0x2268 0xffffffff81c146a8 (put64 0x22a0 0xffff880000003000
     (put64 0x3040 0xffff880000004000 (put64 0x22dc 1 (zram 0x2000000))))))))"

definition heap0 :: "'e heap" where
  "heap0 = \<lparr>h_next = (\<lambda>_. 0), h_prev = (\<lambda>_. 0), h_obj = undefined, h_live = {}, h_brk = 4096, h_uaf = 0\<rparr>"

definition two_tasks :: "task list" where
  "two_tasks = [\<lparr>t_pid = 0, t_name = ''swapper'', t_cr3 = 0\<rparr>,
     \<lparr>t_pid = 1, t_name = ''init'', t_cr3 = 0xffff880000004000\<rparr>]"

lemmas task_eval = ram_eval layout_simps read_task_def next_task_gva_def virt_to_phys_def
  TASK_NAME_LEN_def

lemma tasks_ram_reads:
  "read_task tasks_ram (virt_to_phys INIT_TASK_GVA) = Inr (hd two_tasks)"
  "read_task tasks_ram (virt_to_phys 0xffff880000002000) = Inr (hd (tl two_tasks))"
  "next_task_gva tasks_ram (virt_to_phys INIT_TASK_GVA) = Inr 0xffff880000002000"
  "next_task_gva tasks_ram (virt_to_phys 0xffff880000002000) = Inr INIT_TASK_GVA"
  by (simp_all add: task_eval tasks_ram_def two_tasks_def cong: bindE_weak_cong)

lemma tasks_ram_guest_tasks: "guest_tasks tasks_ram [0xffff880000002000] two_tasks"
  using tasks_ram_reads by (simp add: guest_tasks_def task_chain_def two_tasks_def) (simp add: layout_simps)

section \<open>Properties\<close>





end
