(* ===== verification/PageWalk.thy ===== *)
theory PageWalk
  imports KernelLayout CFloat
begin

text \<open>
  Translation of a guest virtual address by walking the guest's page tables:
  \<open>plugin/memory.h\<close>, \<open>plugin/memory.c\<close> and \<open>plugin/lib.c\<close>. A table pointer is a
  guest virtual address of the direct mapping; \<open>mem + virt_to_phys(p)\<close> reads it, so an entry
  pointer is modelled by \<open>virt_to_phys p\<close> and dereferencing it is a 64-bit load.
\<close>

section \<open>Page table arithmetic\<close>

definition PGDIR_SHIFT :: nat where [layout_simps]: "PGDIR_SHIFT = 39"
definition PTRS_PER_PGD :: u64 where [layout_simps]: "PTRS_PER_PGD = 512"
definition PUD_SHIFT :: nat where [layout_simps]: "PUD_SHIFT = 30"
definition PTRS_PER_PUD :: u64 where [layout_simps]: "PTRS_PER_PUD = 512"
definition PMD_SHIFT :: nat where [layout_simps]: "PMD_SHIFT = 21"
definition PTRS_PER_PMD :: u64 where [layout_simps]: "PTRS_PER_PMD = 512"
definition PTRS_PER_PTE :: u64 where [layout_simps]: "PTRS_PER_PTE = 512"
definition PAGE_SHIFT :: nat where [layout_simps]: "PAGE_SHIFT = 12"
definition PTE_PFN_MASK :: u64 where [layout_simps]: "PTE_PFN_MASK = 0x00003ffffffff000"

definition sizeof_ulong :: u64 where [layout_simps]: "sizeof_ulong = 8"

definition pgd_index :: "u64 \<Rightarrow> u64" where
  "pgd_index address = drop_bit PGDIR_SHIFT address AND (PTRS_PER_PGD - 1)"

definition pgd_offset :: "u64 \<Rightarrow> u64 \<Rightarrow> u64" where
  "pgd_offset cr3 address = cr3 + sizeof_ulong * pgd_index address"

definition pgd_page_vaddr :: "ram \<Rightarrow> u64 \<Rightarrow> u64 res" where
  "pgd_page_vaddr mem pgd = bindE (rd64 mem pgd) (\<lambda>e. Inr (va (e AND PTE_PFN_MASK)))"

definition pud_index :: "u64 \<Rightarrow> u64" where
  "pud_index address = drop_bit PUD_SHIFT address AND (PTRS_PER_PUD - 1)"

definition pud_offset :: "ram \<Rightarrow> u64 \<Rightarrow> u64 \<Rightarrow> u64 res" where
  "pud_offset mem pgd address =
     bindE (pgd_page_vaddr mem pgd) (\<lambda>t. Inr (t + pud_index address * sizeof_ulong))"

definition pud_page_vaddr :: "ram \<Rightarrow> u64 \<Rightarrow> u64 res" where
  "pud_page_vaddr mem pud = bindE (rd64 mem pud) (\<lambda>e. Inr (va (e AND PTE_PFN_MASK)))"

definition pmd_index :: "u64 \<Rightarrow> u64" where
  "pmd_index address = drop_bit PMD_SHIFT address AND (PTRS_PER_PMD - 1)"

definition pmd_offset :: "ram \<Rightarrow> u64 \<Rightarrow> u64 \<Rightarrow> u64 res" where
  "pmd_offset mem pud address =
     bindE (pud_page_vaddr mem pud) (\<lambda>t. Inr (t + pmd_index address * sizeof_ulong))"

definition pmd_page_vaddr :: "ram \<Rightarrow> u64 \<Rightarrow> u64 res" where
  "pmd_page_vaddr mem pmd = bindE (rd64 mem pmd) (\<lambda>e. Inr (va (e AND PTE_PFN_MASK)))"

definition pte_index :: "u64 \<Rightarrow> u64" where
  "pte_index address = drop_bit PAGE_SHIFT address AND (PTRS_PER_PTE - 1)"

definition pte_offset_kernel :: "ram \<Rightarrow> u64 \<Rightarrow> u64 \<Rightarrow> u64 res" where
  "pte_offset_kernel mem pmd address =
     bindE (pmd_page_vaddr mem pmd) (\<lambda>t. Inr (t + pte_index address * sizeof_ulong))"

definition pte_pfn :: "ram \<Rightarrow> u64 \<Rightarrow> u64 res" where
  "pte_pfn mem pte = bindE (rd64 mem pte) (\<lambda>e. Inr (drop_bit PAGE_SHIFT (e AND PTE_PFN_MASK)))"

text \<open>
  \<open>ilog2\<close> converts its argument to \<open>double\<close>, takes \<open>log2\<close> and truncates. At 0 the
  logarithm is minus infinity, whose conversion on x86-64 is \<open>0x8000000000000000\<close>.
\<close>

definition ilog2 :: "u64 \<Rightarrow> u64" where
  "ilog2 v =
     (if v = 0 then 0x8000000000000000
      else of_int \<lfloor>fl64 (log 2 (fl64 (real (unat v))))\<rfloor>)"

datatype pg_level = PG_LEVEL_NONE | PG_LEVEL_4K | PG_LEVEL_2M | PG_LEVEL_1G | PG_LEVEL_NUM

fun pg_level_val :: "pg_level \<Rightarrow> u64" where
  "pg_level_val PG_LEVEL_NONE = 0"
| "pg_level_val PG_LEVEL_4K = 1"
| "pg_level_val PG_LEVEL_2M = 2"
| "pg_level_val PG_LEVEL_1G = 3"
| "pg_level_val PG_LEVEL_NUM = 4"

definition page_level_shift :: "pg_level \<Rightarrow> u64" where
  "page_level_shift level =
     (of_nat PAGE_SHIFT - ilog2 PTRS_PER_PTE) + pg_level_val level * ilog2 PTRS_PER_PTE"

definition page_level_size :: "pg_level \<Rightarrow> u64" where
  "page_level_size level = push_bit (unat (page_level_shift level)) 1"

definition page_level_mask :: "pg_level \<Rightarrow> u64" where
  "page_level_mask level = NOT (page_level_size level - 1)"

section \<open>The walk\<close>

text \<open>
  \<open>read_gpa_ul\<close> tests the host pointer \<open>mem + gpa\<close> for null, so it needs the host address
  of guest memory, \<open>base\<close>.
\<close>

definition read_gpa_ul :: "u64 \<Rightarrow> ram \<Rightarrow> u64 \<Rightarrow> u64 res" where
  "read_gpa_ul base mem gpa = (if base + gpa \<noteq> 0 then rd64 mem gpa else Inr 0)"

definition trans_addr :: "ram \<Rightarrow> u64 \<Rightarrow> u64 \<Rightarrow> u64 res" where
  "trans_addr mem addr cr3 =
     bindE (pud_offset mem (virt_to_phys (pgd_offset cr3 addr)) addr) (\<lambda>pud_gva.
     bindE (pmd_offset mem (virt_to_phys pud_gva) addr) (\<lambda>pmd_gva.
     bindE (pte_offset_kernel mem (virt_to_phys pmd_gva) addr) (\<lambda>pte_gva.
     bindE (pte_pfn mem (virt_to_phys pte_gva)) (\<lambda>pfn.
       let page_mask = page_level_mask PG_LEVEL_4K;
           phys_addr = push_bit PAGE_SHIFT pfn;
           offset = addr AND NOT page_mask
       in Inr (phys_addr OR offset)))))"

section \<open>The walk as the architecture describes it\<close>

text \<open>
  The reference walk stays in guest physical addresses: each level takes nine bits of the
  address as the index of an 8-byte entry, and bits 12 to 45 of the entry are the physical
  base of the next table, or of the page at the last level.
\<close>

fun pt_walk :: "ram \<Rightarrow> u64 \<Rightarrow> u64 list \<Rightarrow> u64 res" where
  "pt_walk mem t [] = Inr t"
| "pt_walk mem t (i # is) = bindE (rd64 mem (t + 8 * i)) (\<lambda>e. pt_walk mem (e AND PTE_PFN_MASK) is)"

definition pt_indices :: "u64 \<Rightarrow> u64 list" where
  "pt_indices addr = map (\<lambda>s. take_bit 9 (drop_bit s addr)) [39, 30, 21, 12]"

definition guest_translate :: "ram \<Rightarrow> u64 \<Rightarrow> u64 \<Rightarrow> u64 res" where
  "guest_translate mem tbl addr =
     bindE (pt_walk mem tbl (pt_indices addr)) (\<lambda>f. Inr (f OR take_bit 12 addr))"

section \<open>Facts about the arithmetic\<close>

lemma and_511: "(x :: u64) AND 511 = take_bit 9 x"
  by (simp add: take_bit_eq_mask mask_numeral)

lemma index_simps:
  "pgd_index a = take_bit 9 (drop_bit 39 a)"
  "pud_index a = take_bit 9 (drop_bit 30 a)"
  "pmd_index a = take_bit 9 (drop_bit 21 a)"
  "pte_index a = take_bit 9 (drop_bit 12 a)"
  by (simp_all add: pgd_index_def pud_index_def pmd_index_def pte_index_def layout_simps and_511)

lemma ilog2_512 [simp]: "ilog2 512 = 9"
proof -
  have "fl64 512 = 512" and nine: "fl64 9 = 9"
    using rnd_of_nat [of 512 53] rnd_of_nat [of 9 53] by (simp_all add: fl64_def)
  moreover have "log 2 (512::real) = 9"
    using log_pow_cancel [of 2 9] by simp
  ultimately show ?thesis by (simp add: ilog2_def)
qed

lemma page_level_mask_4K: "NOT (page_level_mask PG_LEVEL_4K) = mask 12"
  by (simp add: page_level_mask_def page_level_size_def page_level_shift_def layout_simps
      mask_numeral)

lemma pfn_mask_le: "e AND PTE_PFN_MASK \<le> 0x00003ffffffff000"
  by (simp add: layout_simps word_and_le1)

lemma pfn_mask_bits: "bit PTE_PFN_MASK n \<longleftrightarrow> 12 \<le> n \<and> n < 46"
proof -
  have "PTE_PFN_MASK = push_bit 12 (mask 34)"
    by (simp add: layout_simps mask_numeral)
  show ?thesis unfolding \<open>PTE_PFN_MASK = push_bit 12 (mask 34)\<close>
    by (auto simp: bit_push_bit_iff bit_mask_iff)
qed

lemma pfn_mask_shift: "push_bit 12 (drop_bit 12 (e AND PTE_PFN_MASK)) = e AND PTE_PFN_MASK"
  by (rule bit_word_eqI)
     (auto simp: bit_push_bit_iff bit_drop_bit_eq bit_and_iff pfn_mask_bits
       simp del: drop_bit_and push_bit_and)

lemma take_bit_9_le: "take_bit 9 (x :: u64) \<le> 511"
  by (simp add: word_and_le1 flip: and_511)

lemma virt_to_phys_entry:
  assumes "t \<le> 0x00003ffffffff000" and "i \<le> 511"
  shows "virt_to_phys (va t + i * 8) = t + 8 * i"
proof -
  have "va t + i * 8 = va (t + 8 * i)"
    by (simp add: va_def)
  moreover have "t + 8 * i < START_KERNEL_map - PAGE_OFFSET"
    using assms
    by (simp add: layout_simps word_less_nat_alt word_le_nat_alt unat_word_ariths)
  ultimately show ?thesis by simp
qed

lemmas walk_defs = pgd_page_vaddr_def pud_page_vaddr_def pmd_page_vaddr_def
  pud_offset_def pmd_offset_def pte_offset_kernel_def pte_pfn_def

lemma trans_addr_guest_translate:
  assumes "tbl \<le> 0x00003ffffffff000"
  shows "trans_addr mem addr (va tbl) = guest_translate mem tbl addr"
proof -
  have "virt_to_phys (pgd_offset (va tbl) addr) = tbl + 8 * pgd_index addr"
    using virt_to_phys_entry [OF assms, of "pgd_index addr"] take_bit_9_le
    by (simp add: pgd_offset_def layout_simps(9) sizeof_ulong_def index_simps mult.commute)
  moreover have "virt_to_phys (va (e AND PTE_PFN_MASK) + take_bit 9 x * 8) =
      (e AND PTE_PFN_MASK) + 8 * take_bit 9 x" for e x :: u64
    by (rule virt_to_phys_entry [OF pfn_mask_le take_bit_9_le])
  ultimately show ?thesis
    by (simp add: trans_addr_def guest_translate_def pt_indices_def walk_defs bindE_assoc
        index_simps sizeof_ulong_def page_level_mask_4K PAGE_SHIFT_def pfn_mask_shift
        del: drop_bit_and push_bit_and flip: take_bit_eq_mask)
qed

lemma trans_addr_form:
  assumes "trans_addr mem addr cr3 = Inr gpa"
  obtains e where "gpa = (e AND PTE_PFN_MASK) OR take_bit 12 addr"
  using assms
  by (auto simp: trans_addr_def walk_defs res_simps page_level_mask_4K PAGE_SHIFT_def
      pfn_mask_shift Let_def simp del: drop_bit_and push_bit_and simp flip: take_bit_eq_mask)

lemma pfn_or_offset_bits:
  fixes e addr :: u64
  shows "take_bit 12 ((e AND PTE_PFN_MASK) OR take_bit 12 addr) = take_bit 12 addr"
    and "(e AND PTE_PFN_MASK) OR take_bit 12 addr < 2 ^ 46"
proof -
  show "take_bit 12 ((e AND PTE_PFN_MASK) OR take_bit 12 addr) = take_bit 12 addr"
    by (rule bit_word_eqI) (auto simp: bit_take_bit_iff bit_or_iff bit_and_iff pfn_mask_bits)
  have "take_bit 46 ((e AND PTE_PFN_MASK) OR take_bit 12 addr) =
      (e AND PTE_PFN_MASK) OR take_bit 12 addr"
    by (rule bit_word_eqI) (auto simp: bit_take_bit_iff bit_or_iff bit_and_iff pfn_mask_bits)
  then show "(e AND PTE_PFN_MASK) OR take_bit 12 addr < 2 ^ 46"
    by (rule take_bit_self_less) simp
qed

section \<open>Properties\<close>


definition walk_ram :: ram where
  "walk_ram =
     put64 0x1ff8 0x2067 (put64 0x2ff0 0x3067 (put64 0x3800 0x4067 (put64 0x4008 0x5163
       (zram 0x10000))))"


text \<open>
  A translation keeps the page offset and lands in the 46-bit physical address space,
  whatever the page tables hold.
\<close>

theorem trans_addr_offset_bound:
  assumes "trans_addr mem addr cr3 = Inr gpa"
  shows "take_bit 12 gpa = take_bit 12 addr \<and> gpa < 2 ^ 46"
proof -
  from assms obtain e where "gpa = (e AND PTE_PFN_MASK) OR take_bit 12 addr"
    by (rule trans_addr_form)
  then show ?thesis by (simp only: pfn_or_offset_bits simp_thms)
qed

theorem trans_addr_offset_bound_witness:
  "trans_addr walk_ram 0xffffffffa0001234 (va 0x1000) = Inr 0x5234 \<and>
   take_bit 12 (0x5234 :: u64) = take_bit 12 0xffffffffa0001234 \<and> (0x5234 :: u64) < 2 ^ 46"
proof -
  have "guest_translate walk_ram 0x1000 0xffffffffa0001234 = Inr 0x5234"
    by (simp add: guest_translate_def pt_indices_def walk_ram_def PTE_PFN_MASK_def
        take_bit_eq_mask mask_numeral)
  then have t: "trans_addr walk_ram 0xffffffffa0001234 (va 0x1000) = Inr 0x5234"
    by (simp add: trans_addr_guest_translate)
  then show ?thesis using trans_addr_offset_bound [OF t] by simp
qed

text \<open>
  The walk reads neither the present bit nor the page-size bit: over tables full of absent
  entries it returns the page offset instead of reporting that nothing is mapped.
\<close>

lemma trans_addr_absent_entries:
  "(\<And>a. rd64 mem a = Inr 0) \<Longrightarrow> trans_addr mem addr cr3 = Inr (take_bit 12 addr)"
  by (simp add: trans_addr_def walk_defs res_simps page_level_mask_4K flip: take_bit_eq_mask)

end
