(* ===== verification/GuestModules.thy ===== *)
theory GuestModules
  imports GuestTasks PageWalk
begin

text \<open>
  The guest's loaded modules, \<open>plugin/module.c\<close>. Modules live in the vmalloc area, so the
  list is followed through the guest's page tables: the page directory of the first task
  with an address space is looked up first, with the task list of \<open>GuestTasks\<close>. The objects of
  the result list live in a heap of \<open>struct module\<close>, apart from the heap of
  \<open>struct task\<close>.
\<close>

section \<open>Data\<close>

record vmodule =
  m_name :: string
  m_core :: u64

definition MOD_NAME_LEN :: nat where
  "MOD_NAME_LEN = 32"

definition sizeof_module :: nat where
  "sizeof_module = 56"

definition module_list_off :: nat where
  "module_list_off = 40"

record host =
  tasks_heap :: "task heap"
  mods_heap :: "vmodule heap"

section \<open>Finding a page directory\<close>

fun first_cr3 :: "task list \<Rightarrow> u64" where
  "first_cr3 [] = 0"
| "first_cr3 (t # ts) = (if t_cr3 t \<noteq> 0 then t_cr3 t else first_cr3 ts)"

text \<open>
  The tasks are listed, the first non-zero page directory is picked, and the list is freed.
\<close>

definition obtain_cr3 :: "nat \<Rightarrow> ram \<Rightarrow> task heap \<Rightarrow> (u64 \<times> task heap) res" where
  "obtain_cr3 fuel mem h =
     bindE (traverse_tasks fuel mem h) (\<lambda>(tasks, h1).
     bindE (list_for_each_entry fuel task_list_off tasks h1) (\<lambda>ts.
     bindE (free_entries fuel task_list_off tasks h1) (\<lambda>h2.
       Inr (first_cr3 ts, h2))))"

section \<open>Traversal\<close>

definition add_module :: "nat \<Rightarrow> vmodule \<Rightarrow> vmodule heap \<Rightarrow> vmodule heap" where
  "add_module = push_obj sizeof_module module_list_off"

text \<open>What is read of the module whose \<open>list\<close> member is at guest physical \<open>gpa\<close>.\<close>

definition read_module :: "ram \<Rightarrow> u64 \<Rightarrow> vmodule res" where
  "read_module mem gpa =
     (let mod_base = gpa - MODULE_LIST_OFFSET
      in bindE (rd64 mem (mod_base + MODULE_MODULE_CORE_OFFSET)) (\<lambda>core.
         bindE (sprintf_s mem (mod_base + MODULE_NAME_OFFSET) MOD_NAME_LEN) (\<lambda>name.
           Inr \<lparr>m_name = name, m_core = core\<rparr>)))"

definition traverse_modules_loop ::
    "nat \<Rightarrow> ram \<Rightarrow> u64 \<Rightarrow> u64 \<Rightarrow> nat \<Rightarrow> vmodule heap \<Rightarrow> vmodule heap res" where
  "traverse_modules_loop fuel mem cr3 gva mods h =
     walk_list fuel MODULES_HEAD_GVA
       (\<lambda>gva h. bindE (bindE (trans_addr mem gva cr3) (read_module mem)) (\<lambda>m. Inr (add_module mods m h)))
       (\<lambda>gva. bindE (trans_addr mem gva cr3) (rd64 mem)) gva h"

text \<open>A null result (no task with an address space) is \<open>None\<close>.\<close>

definition traverse_modules :: "nat \<Rightarrow> ram \<Rightarrow> host \<Rightarrow> (nat option \<times> host) res" where
  "traverse_modules fuel mem s =
     (let (mods, mh) = new_list (mods_heap s)
      in bindE (obtain_cr3 fuel mem (tasks_heap s)) (\<lambda>(cr3, th).
         if cr3 = 0 then Inr (None, \<lparr>tasks_heap = th, mods_heap = mh\<rparr>)
         else bindE (rd64 mem (virt_to_phys MODULES_HEAD_GVA)) (\<lambda>gva.
              bindE (traverse_modules_loop fuel mem cr3 gva mods mh) (\<lambda>mh'.
                Inr (Some mods, \<lparr>tasks_heap = th, mods_heap = mh'\<rparr>)))))"

section \<open>The monitor command\<close>

definition module_line :: "nat \<Rightarrow> vmodule \<Rightarrow> string" where
  "module_line k m = show_nat k @ '', '' @ m_name m @ '', '' @ fmt_016lx (m_core m) @ nl"

definition total_modules :: "nat \<Rightarrow> string" where
  "total_modules n = ''Total Modules: '' @ show_nat n @ nl"

definition list_modules :: "nat \<Rightarrow> ram \<Rightarrow> host \<Rightarrow> (string \<times> host) res" where
  "list_modules fuel mem s =
     bindE (traverse_modules fuel mem s) (\<lambda>(head, s1).
       case head of
         None \<Rightarrow> Inr (total_modules 0, s1)
       | Some mods \<Rightarrow>
           bindE (list_for_each_entry fuel module_list_off mods (mods_heap s1)) (\<lambda>ms.
           bindE (free_entries fuel module_list_off mods (mods_heap s1)) (\<lambda>mh.
             let (tot_mod, out) = numbered module_line 0 ms
             in Inr (out @ total_modules tot_mod, s1\<lparr>mods_heap := mh\<rparr>))))"

section \<open>Specification\<close>

text \<open>
  The addresses \<open>gs\<close> linked after the head of the module list, every link read through the
  page directory \<open>cr3\<close>, and what the modules there contain.
\<close>

definition module_chain :: "ram \<Rightarrow> u64 \<Rightarrow> u64 \<Rightarrow> u64 list \<Rightarrow> bool" where
  "module_chain mem cr3 = chain (\<lambda>gva. bindE (trans_addr mem gva cr3) (rd64 mem)) MODULES_HEAD_GVA"

definition module_at :: "ram \<Rightarrow> u64 \<Rightarrow> u64 \<Rightarrow> vmodule \<Rightarrow> bool" where
  "module_at mem cr3 g m \<longleftrightarrow> bindE (trans_addr mem g cr3) (read_module mem) = Inr m"

definition guest_modules :: "ram \<Rightarrow> u64 \<Rightarrow> u64 list \<Rightarrow> vmodule list \<Rightarrow> bool" where
  "guest_modules mem cr3 gs ms \<longleftrightarrow>
     (\<exists>g. rd64 mem (virt_to_phys MODULES_HEAD_GVA) = Inr g \<and> module_chain mem cr3 g gs) \<and>
     list_all2 (module_at mem cr3) gs ms"

section \<open>The host list is a result list\<close>

interpretation module_list: result_list new_list add_module
  "\<lambda>fuel head h. list_for_each_entry fuel module_list_off head h"
  "\<lambda>fuel head h. free_entries fuel module_list_off head h"
  "holds module_list_off"
proof unfold_locales
  show "holds module_list_off (add_module head e h) head (es @ [e])"
    if "holds module_list_off h head es" for h head es and e :: vmodule
    using that push_obj_holds [of module_list_off h head es sizeof_module e]
    by (simp add: add_module_def sizeof_module_def module_list_off_def)
qed (auto intro: new_list_holds iterate_holds dest: free_entries_holds)

section \<open>Facts about the traversal\<close>

lemma obtain_cr3_guest:
  assumes "guest_tasks mem gs ts" and "length ts < fuel"
  shows "\<exists>h'. obtain_cr3 fuel mem h = Inr (first_cr3 ts, h')"
proof -
  have "length gs < fuel"
    using assms guest_tasks_length by fastforce
  with assms(1) obtain head h1 where t: "traverse_tasks fuel mem h = Inr (head, h1)"
    and hold: "holds task_list_off h1 head ts"
    using traverse_tasks_complete by blast
  with task_list.iterate_contents [OF hold assms(2)] task_list.release_contents [OF hold assms(2)]
  show ?thesis by (auto simp: obtain_cr3_def)
qed

lemma first_cr3_zero_iff: "first_cr3 ts = 0 \<longleftrightarrow> (\<forall>t \<in> set ts. t_cr3 t = 0)"
  by (induction ts) auto

lemma modules_loop_complete:
  "module_chain mem cr3 g gs \<Longrightarrow> list_all2 (module_at mem cr3) gs ms \<Longrightarrow> length gs < fuel \<Longrightarrow>
     traverse_modules_loop fuel mem cr3 g head h = Inr (fold (add_module head) ms h)"
  unfolding traverse_modules_loop_def module_chain_def module_at_def
  by (rule walk_list_complete) (auto intro: foldE_reads)

lemma traverse_modules_complete:
  assumes "guest_tasks mem gs ts" and "length ts < fuel" and "first_cr3 ts \<noteq> 0"
    and "guest_modules mem (first_cr3 ts) ps ms" and "length ms < fuel"
  shows "\<exists>mods s'. traverse_modules fuel mem s = Inr (Some mods, s') \<and>
    holds module_list_off (mods_heap s') mods ms"
proof -
  obtain mods mh where n: "new_list (mods_heap s) = (mods, mh)" by fastforce
  have "length ps < fuel"
    using assms(4,5) by (auto simp: guest_modules_def dest: list_all2_lengthD)
  moreover obtain th where "obtain_cr3 fuel mem (tasks_heap s) = Inr (first_cr3 ts, th)"
    using obtain_cr3_guest [OF assms(1,2)] by blast
  moreover have "holds module_list_off (fold (add_module mods) ms mh) mods ([] @ ms)"
    by (rule module_list.push_all_contents) (rule new_list_holds [OF n])
  ultimately show ?thesis
    using assms(3,4) n
    by (auto simp: traverse_modules_def guest_modules_def modules_loop_complete)
qed

section \<open>A guest with one module\<close>

definition mods_ram :: ram where
  "mods_ram =
     put64 0x8018 0x34747865 (put64 0x1c4e130 0xffffffffa0001008
     (put64 0x4ff8 0x5067 (put64 0x5ff0 0x6067 (put64 0x6800 0x7067 (put64 0x7008 0x8163
     (put64 0x8008 0xffffffff81c4e130 (put64 0x8160 0xffffffffa0000000 tasks_ram)))))))"

definition ext4_module :: vmodule where
  "ext4_module = \<lparr>m_name = ''ext4'', m_core = 0xffffffffa0000000\<rparr>"

definition host0 :: host where
  "host0 = \<lparr>tasks_heap = heap0, mods_heap = heap0\<rparr>"

lemma mods_ram_tasks: "guest_tasks mods_ram [0xffff880000002000] two_tasks"
proof -
  have "read_task mods_ram (virt_to_phys INIT_TASK_GVA) = Inr (hd two_tasks)"
    "read_task mods_ram (virt_to_phys 0xffff880000002000) = Inr (hd (tl two_tasks))"
    "next_task_gva mods_ram (virt_to_phys INIT_TASK_GVA) = Inr 0xffff880000002000"
    "next_task_gva mods_ram (virt_to_phys 0xffff880000002000) = Inr INIT_TASK_GVA"
    by (simp_all add: task_eval mods_ram_def tasks_ram_def two_tasks_def cong: bindE_weak_cong)
  then show ?thesis by (simp add: guest_tasks_def task_chain_def two_tasks_def) (simp add: layout_simps)
qed

lemma mods_ram_modules: "guest_modules mods_ram (first_cr3 two_tasks) [0xffffffffa0001008] [ext4_module]"
proof -
  have "first_cr3 two_tasks = va 0x4000"
    by (simp add: two_tasks_def va_def layout_simps)
  moreover have "guest_translate mods_ram 0x4000 0xffffffffa0001008 = Inr 0x8008"
    by (simp add: guest_translate_def pt_indices_def mods_ram_def PTE_PFN_MASK_def
        take_bit_eq_mask mask_numeral)
  moreover have "read_module mods_ram 0x8008 = Inr ext4_module"
    by (simp add: task_eval read_module_def MOD_NAME_LEN_def mods_ram_def ext4_module_def
        cong: bindE_weak_cong)
  moreover have "rd64 mods_ram 0x8008 = Inr MODULES_HEAD_GVA"
    "rd64 mods_ram (virt_to_phys MODULES_HEAD_GVA) = Inr 0xffffffffa0001008"
    by (simp_all add: mods_ram_def layout_simps virt_to_phys_def)
  ultimately show ?thesis
    by (simp add: guest_modules_def module_chain_def module_at_def trans_addr_guest_translate)
       (simp add: layout_simps)
qed

section \<open>Properties\<close>

text \<open>
  C9. \<open>list_modules\<close> prints the guest's modules: with the page directory of the first task
  that has one, every entry of the guest's module list is translated and printed once, in
  order, and the command terminates.
\<close>

theorem list_modules_output:
  assumes "guest_tasks mem gs ts" and "length ts < fuel" and "first_cr3 ts \<noteq> 0"
    and "guest_modules mem (first_cr3 ts) ps ms" and "length ms < fuel"
  shows "\<exists>s'. list_modules fuel mem s =
    Inr (concat (map2 module_line [1..<Suc (length ms)] ms) @ total_modules (length ms), s')"
proof -
  from traverse_modules_complete [OF assms] obtain mods s1
    where t: "traverse_modules fuel mem s = Inr (Some mods, s1)"
      and hold: "holds module_list_off (mods_heap s1) mods ms" by blast
  show ?thesis
    using t module_list.iterate_contents [OF hold assms(5)]
      module_list.release_contents [OF hold assms(5)]
    by (auto simp: list_modules_def numbered_eq simp del: upt_Suc)
qed

theorem list_modules_output_witness:
  "guest_modules mods_ram (first_cr3 two_tasks) [0xffffffffa0001008] [ext4_module] \<and>
   (\<exists>s'. list_modules 5 mods_ram host0 = Inr (module_line 1 ext4_module @ total_modules 1, s'))"
proof -
  have c: "length two_tasks < 5" "first_cr3 two_tasks \<noteq> 0" "length [ext4_module] < 5"
    and u: "[1..<Suc (length [ext4_module])] = [1]"
    by code_simp+
  show ?thesis
    using mods_ram_modules
      list_modules_output [OF mods_ram_tasks c(1,2) mods_ram_modules c(3), of host0, unfolded u]
    by simp
qed

text \<open>
  Without any task that has an address space there is no page directory to translate
  with: no module is looked at and the command reports none.
\<close>

theorem list_modules_no_cr3:
  assumes "guest_tasks mem gs ts" and "length ts < fuel" and "\<forall>t \<in> set ts. t_cr3 t = 0"
  shows "\<exists>s'. list_modules fuel mem s = Inr (total_modules 0, s')"
proof -
  obtain th where "obtain_cr3 fuel mem (tasks_heap s) = Inr (0, th)"
    using obtain_cr3_guest [OF assms(1,2)] assms(3) first_cr3_zero_iff [of ts] by auto
  then show ?thesis
    by (auto simp: list_modules_def traverse_modules_def split: prod.splits)
qed

definition kthreads_ram :: ram where
  "kthreads_ram = put64 0x22a0 0 tasks_ram"

theorem list_modules_no_cr3_witness:
  "\<exists>s'. list_modules 5 kthreads_ram host0 = Inr (total_modules 0, s')"
proof -
  have r: "read_task kthreads_ram (virt_to_phys INIT_TASK_GVA) = Inr (hd two_tasks)"
    "read_task kthreads_ram (virt_to_phys 0xffff880000002000) = Inr (hd (tl two_tasks)\<lparr>t_cr3 := 0\<rparr>)"
    "next_task_gva kthreads_ram (virt_to_phys INIT_TASK_GVA) = Inr 0xffff880000002000"
    "next_task_gva kthreads_ram (virt_to_phys 0xffff880000002000) = Inr INIT_TASK_GVA"
    by (simp_all add: task_eval kthreads_ram_def tasks_ram_def two_tasks_def cong: bindE_weak_cong)
  then have "guest_tasks kthreads_ram [0xffff880000002000]
      [hd two_tasks, hd (tl two_tasks)\<lparr>t_cr3 := 0\<rparr>]"
    by (simp add: guest_tasks_def task_chain_def) (simp add: layout_simps)
  then show ?thesis
    by (rule list_modules_no_cr3) (simp_all add: two_tasks_def)
qed

end
