(* ===== verification/GuestHost.thy ===== *)
theory GuestHost
  imports GuestModules
begin

text \<open>
  The guest's identification, \<open>plugin/configuration.c\<close>: the six strings of the
  \<open>uts_namespace\<close> of \<open>init_task\<close>. The result structure is the caller's stack memory;
  \<open>get_hostname\<close> leaves it as it is when no task has an address space.
\<close>

section \<open>Data\<close>

definition HOSTNAME_LEN :: nat where
  "HOSTNAME_LEN = 65"

record hostname_stat =
  sysname :: string
  nodename :: string
  release :: string
  version :: string
  machine :: string
  domainname :: string

section \<open>Operations\<close>

text \<open>The guest address of \<open>new_utsname\<close> and the copy of its six strings.\<close>

definition uts_name_hva :: "ram \<Rightarrow> u64 res" where
  "uts_name_hva mem =
     bindE (rd64 mem (virt_to_phys INIT_TASK_GVA + TASK_NSPROXY_OFFSET)) (\<lambda>nsproxy_gva.
     bindE (rd64 mem (virt_to_phys nsproxy_gva + NSPROXY_UTS_NS_OFFSET)) (\<lambda>uts_namespace_gva.
       Inr (virt_to_phys (uts_namespace_gva + UTS_NAMESPACE_NAME))))"

definition copy_uts :: "ram \<Rightarrow> u64 \<Rightarrow> hostname_stat res" where
  "copy_uts mem p =
     bindE (sprintf_s mem p HOSTNAME_LEN) (\<lambda>a.
     bindE (sprintf_s mem (p + NEW_UTS_LEN_JUMP) HOSTNAME_LEN) (\<lambda>b.
     bindE (sprintf_s mem (p + 2 * NEW_UTS_LEN_JUMP) HOSTNAME_LEN) (\<lambda>c.
     bindE (sprintf_s mem (p + 3 * NEW_UTS_LEN_JUMP) HOSTNAME_LEN) (\<lambda>d.
     bindE (sprintf_s mem (p + 4 * NEW_UTS_LEN_JUMP) HOSTNAME_LEN) (\<lambda>e.
     bindE (sprintf_s mem (p + 5 * NEW_UTS_LEN_JUMP) HOSTNAME_LEN) (\<lambda>f.
       Inr \<lparr>sysname = a, nodename = b, release = c, version = d, machine = e, domainname = f\<rparr>))))))"

definition get_hostname ::
    "nat \<Rightarrow> ram \<Rightarrow> hostname_stat \<Rightarrow> task heap \<Rightarrow> (hostname_stat \<times> task heap) res" where
  "get_hostname fuel mem stat h =
     bindE (obtain_cr3 fuel mem h) (\<lambda>(cr3, h').
       if cr3 = 0 then Inr (stat, h')
       else bindE (uts_name_hva mem) (\<lambda>p.
            bindE (copy_uts mem p) (\<lambda>stat'. Inr (stat', h'))))"

definition show_hostname :: "hostname_stat \<Rightarrow> string" where
  "show_hostname stat =
     ''sysname    : '' @ sysname stat @ nl @
     ''nodename   : '' @ nodename stat @ nl @
     ''release    : '' @ release stat @ nl @
     ''version    : '' @ version stat @ nl @
     ''machine    : '' @ machine stat @ nl @
     ''domainname : '' @ domainname stat @ nl"

text \<open>\<open>stat\<close> here is what the stack happens to hold: it is not initialised.\<close>

definition print_hostname :: "nat \<Rightarrow> ram \<Rightarrow> hostname_stat \<Rightarrow> task heap \<Rightarrow> (string \<times> task heap) res" where
  "print_hostname fuel mem stat h =
     bindE (get_hostname fuel mem stat h) (\<lambda>(stat', h'). Inr (show_hostname stat', h'))"

section \<open>Facts\<close>

definition stat_fits :: "hostname_stat \<Rightarrow> bool" where
  "stat_fits s \<longleftrightarrow>
     length (sysname s) < HOSTNAME_LEN \<and> length (nodename s) < HOSTNAME_LEN \<and>
     length (release s) < HOSTNAME_LEN \<and> length (version s) < HOSTNAME_LEN \<and>
     length (machine s) < HOSTNAME_LEN \<and> length (domainname s) < HOSTNAME_LEN"

lemma copy_uts_fits: "copy_uts mem p = Inr s \<Longrightarrow> stat_fits s"
  by (auto simp: copy_uts_def res_simps stat_fits_def dest: sprintf_s_length)

section \<open>A guest with a name\<close>

definition uts_ram :: ram where
  "uts_ram =
     put64 0xa004 0x78756e694c (put64 0xa045 0x6d76
     (put64 0x1c149d0 0xffff880000009000 (put64 0x9008 0xffff88000000a000 tasks_ram)))"

definition uts_stat :: hostname_stat where
  "uts_stat = \<lparr>sysname = ''Linux'', nodename = ''vm'', release = [], version = [], machine = [],
     domainname = []\<rparr>"

lemma uts_ram_tasks: "guest_tasks uts_ram [0xffff880000002000] two_tasks"
proof -
  have "read_task uts_ram (virt_to_phys INIT_TASK_GVA) = Inr (hd two_tasks)"
    "read_task uts_ram (virt_to_phys 0xffff880000002000) = Inr (hd (tl two_tasks))"
    "next_task_gva uts_ram (virt_to_phys INIT_TASK_GVA) = Inr 0xffff880000002000"
    "next_task_gva uts_ram (virt_to_phys 0xffff880000002000) = Inr INIT_TASK_GVA"
    by (simp_all add: task_eval uts_ram_def tasks_ram_def two_tasks_def cong: bindE_weak_cong)
  then show ?thesis by (simp add: guest_tasks_def task_chain_def two_tasks_def) (simp add: layout_simps)
qed

section \<open>Properties\<close>



text \<open>
  Without a task that has an address space the structure is not written, and
  \<open>print_hostname\<close> prints what the stack held.
\<close>

lemma print_hostname_uninitialised:
  assumes "guest_tasks mem gs ts" and "length ts < fuel" and "\<forall>t \<in> set ts. t_cr3 t = 0"
  shows "\<exists>h'. print_hostname fuel mem stat h = Inr (show_hostname stat, h')"
proof -
  obtain h' where "obtain_cr3 fuel mem h = Inr (0, h')"
    using obtain_cr3_guest [OF assms(1,2)] assms(3) first_cr3_zero_iff [of ts] by auto
  then show ?thesis by (simp add: print_hostname_def get_hostname_def)
qed

end
