(* ===== verification/GuestNet.thy ===== *)
theory GuestNet
  imports KernelLayout GuestList CFormat
begin

text \<open>
  The guest's network devices, \<open>plugin/net.c\<close>: \<open>print_net_device\<close> follows \<open>dev_base_head\<close>
  and prints name, hardware address and, where the device has one, the IPv4 address.
\<close>

section \<open>Helpers of the C library\<close>

definition IP_LEN :: nat where
  "IP_LEN = 16"

text \<open>\<open>inet_ntoa\<close>: the four bytes of the address in memory order.\<close>

definition inet_ntoa :: "u32 \<Rightarrow> string" where
  "inet_ntoa a =
     (let b = le_bytes 4 a
      in show_nat (unat (b ! 0)) @ ''.'' @ show_nat (unat (b ! 1)) @ ''.'' @
         show_nat (unat (b ! 2)) @ ''.'' @ show_nat (unat (b ! 3)))"

text \<open>\<open>sprintf(dst, "%s", s)\<close> into an array of \<open>cap\<close> bytes.\<close>

definition sprintf_str :: "nat \<Rightarrow> string \<Rightarrow> string res" where
  "sprintf_str cap s = (if length s < cap then Inr s else Inl Overflow)"

text \<open>A \<open>%s\<close> of guest memory straight into the monitor: no buffer of fixed size is involved.\<close>

fun guest_cstr :: "nat \<Rightarrow> ram \<Rightarrow> u64 \<Rightarrow> string res" where
  "guest_cstr 0 mem a = Inl NoFuel"
| "guest_cstr (Suc n) mem a =
     bindE (rd8 mem a) (\<lambda>b.
       if b = 0 then Inr []
       else bindE (guest_cstr n mem (a + 1)) (\<lambda>s. Inr (char_of (unat b) # s)))"

section \<open>One device\<close>

text \<open>The hardware address line.\<close>

definition hwaddr_line :: "u8 list \<Rightarrow> string" where
  "hwaddr_line m =
     ''   HWaddr     : '' @ fmt_22X (m ! 0) @ '':'' @ fmt_22X (m ! 1) @ '':'' @ fmt_22X (m ! 2) @
     '':'' @ fmt_22X (m ! 3) @ '':'' @ fmt_22X (m ! 4) @ '':'' @ fmt_22X (m ! 5) @ nl"

text \<open>The three lines for the address at \<open>ina_hva\<close>.\<close>

definition inet_lines :: "ram \<Rightarrow> u64 \<Rightarrow> string res" where
  "inet_lines mem ina_hva =
     bindE (rd32 mem (ina_hva + INA_IFA_ADDRESS_OFFSET)) (\<lambda>ip_net.
     bindE (rd32 mem (ina_hva + INA_IFA_BROADCAST_OFFSET)) (\<lambda>broadcast_net.
     bindE (rd32 mem (ina_hva + INA_IFA_MASK_OFFSET)) (\<lambda>mask_net.
     bindE (sprintf_str IP_LEN (inet_ntoa ip_net)) (\<lambda>ip.
     bindE (sprintf_str IP_LEN (inet_ntoa broadcast_net)) (\<lambda>broadcast.
     bindE (sprintf_str IP_LEN (inet_ntoa mask_net)) (\<lambda>mask.
       Inr (''   IP Address : '' @ ip @ nl @ ''   Broadcast  : '' @ broadcast @ nl @
            ''   IP Mask    : '' @ mask @ nl)))))))"

definition net_device_lines :: "nat \<Rightarrow> ram \<Rightarrow> u64 \<Rightarrow> string res" where
  "net_device_lines fuel mem net_list_gpa =
     (let net_base = net_list_gpa - ND_DEVICE_LIST_OFFSET
      in bindE (guest_cstr fuel mem (net_base + ND_NAME_OFFSET)) (\<lambda>name.
         bindE (rd64 mem (net_base + ND_DEV_ADDR_OFFSET)) (\<lambda>dev_addr_gva.
         bindE (rd_bytes mem (virt_to_phys dev_addr_gva) 6) (\<lambda>mac.
         bindE (rd64 mem (net_base + ND_IP_PTR_OFFSET)) (\<lambda>ind_gva.
         bindE (if ind_gva \<noteq> 0
                then bindE (rd64 mem (virt_to_phys ind_gva + IND_IFA_LIST_OFFSET)) (\<lambda>ina_gva.
                       if ina_gva \<noteq> 0 then inet_lines mem (virt_to_phys ina_gva) else Inr [])
                else Inr []) (\<lambda>inet.
           Inr (''Device: '' @ name @ nl @ hwaddr_line mac @ inet)))))))"

section \<open>The command\<close>

definition print_net_device :: "nat \<Rightarrow> ram \<Rightarrow> string res" where
  "print_net_device fuel mem =
     bindE (rd64 mem (virt_to_phys DEV_BASE_HEAD_GVA)) (\<lambda>gva.
       walk_list fuel DEV_BASE_HEAD_GVA
         (\<lambda>gva out. bindE (net_device_lines fuel mem (virt_to_phys gva)) (\<lambda>s. Inr (out @ s)))
         (\<lambda>gva. rd64 mem (virt_to_phys gva)) gva [])"

section \<open>Facts\<close>

lemma length_show_nat_less: "n < 1000 \<Longrightarrow> length (show_nat n) \<le> 3"
  by (subst show_nat.simps, auto, subst show_nat.simps, auto, subst show_nat.simps, auto)

lemma show_byte_length: "length (show_nat (unat (b :: u8))) \<le> 3"
proof -
  have "unat b < 256" using unsigned_less [of b] by simp
  then show ?thesis by (intro length_show_nat_less) simp
qed

lemma inet_ntoa_length: "length (inet_ntoa a) \<le> 15"
  using show_byte_length [of "le_bytes 4 a ! 0"] show_byte_length [of "le_bytes 4 a ! 1"]
    show_byte_length [of "le_bytes 4 a ! 2"] show_byte_length [of "le_bytes 4 a ! 3"]
  by (simp add: inet_ntoa_def Let_def)

lemma sprintf_ip: "sprintf_str IP_LEN (inet_ntoa a) = Inr (inet_ntoa a)"
  using inet_ntoa_length [of a] by (simp add: sprintf_str_def IP_LEN_def)

lemma fold_append: "fold (\<lambda>s out. out @ s) ss out = out @ concat ss"
  by (induction ss arbitrary: out) auto

lemma print_net_device_reads:
  assumes "rd64 mem (virt_to_phys DEV_BASE_HEAD_GVA) = Inr g"
    and "chain (\<lambda>gva. rd64 mem (virt_to_phys gva)) DEV_BASE_HEAD_GVA g gs" and "length gs < fuel"
    and "list_all2 (\<lambda>g s. net_device_lines fuel mem (virt_to_phys g) = Inr s) gs ss"
  shows "print_net_device fuel mem = Inr (concat ss)"
proof -
  have "foldE (\<lambda>gva out. bindE (net_device_lines fuel mem (virt_to_phys gva)) (\<lambda>s. Inr (out @ s))) gs []
      = Inr (fold (\<lambda>s out. out @ s) ss [])"
    using foldE_reads [OF assms(4), of "\<lambda>s out. out @ s" "[]"] by simp
  then show ?thesis
    using walk_list_complete [OF assms(2,3)] assms(1)
    by (simp add: print_net_device_def fold_append)
qed

text \<open>What never stores into a host buffer cannot overflow one.\<close>

lemma bindE_no_overflow:
  "m \<noteq> Inl Overflow \<Longrightarrow> (\<And>x. f x \<noteq> Inl Overflow) \<Longrightarrow> bindE m f \<noteq> Inl Overflow"
  by (cases m) auto

lemma rd8_no_overflow: "rd8 r a \<noteq> Inl Overflow"
  by (simp add: rd8_def split: option.splits)

lemma rd_bytes_no_overflow: "rd_bytes r a n \<noteq> Inl Overflow"
  by (induction n arbitrary: a) (auto simp: bindE_Inl_iff rd8_no_overflow)

lemma rd_no_overflow: "rd64 r a \<noteq> Inl Overflow" "rd32 r a \<noteq> Inl Overflow"
  by (simp_all add: rd64_def rd32_def bindE_Inl_iff rd_bytes_no_overflow)

lemma guest_cstr_no_overflow: "guest_cstr n mem a \<noteq> Inl Overflow"
  by (induction n mem a rule: guest_cstr.induct) (auto simp: bindE_Inl_iff rd8_no_overflow)

lemma walk_list_no_overflow:
  "(\<And>g s. body g s \<noteq> Inl Overflow) \<Longrightarrow> (\<And>g. next g \<noteq> Inl Overflow) \<Longrightarrow>
     walk_list fuel stop body next g s \<noteq> Inl Overflow"
  by (induction fuel arbitrary: g s) (auto simp: bindE_Inl_iff)

lemmas no_overflow = bindE_no_overflow rd8_no_overflow rd_bytes_no_overflow rd_no_overflow
  guest_cstr_no_overflow walk_list_no_overflow

lemma net_device_lines_no_overflow: "net_device_lines fuel mem p \<noteq> Inl Overflow"
  unfolding net_device_lines_def Let_def inet_lines_def
  by (auto simp: bindE_Inl_iff no_overflow sprintf_ip)

section \<open>A guest with one device\<close>

definition net_ram :: ram where
  "net_ram =
     put64 0x1000 0x30687465 (put64 0x1cd2008 0xffff880000001050 (put64 0x1050 0xffffffff81cd2008
     (put64 0x12a0 0xffff880000002000 (put64 0x2000 0x563412005452 (put64 0x1270 0xffff880000003000
     (put64 0x3010 0xffff880000004000 (put64 0x403c 0xff02000a (put64 0x4038 0x00ffffff
     (put64 0x4034 0x0f02000a (zram 0x2000000))))))))))"

lemma guest_cstr_numeral:
  "guest_cstr (numeral n) mem a =
     bindE (rd8 mem a) (\<lambda>b.
       if b = 0 then Inr []
       else bindE (guest_cstr (pred_numeral n) mem (a + 1)) (\<lambda>s. Inr (char_of (unat b) # s)))"
  by (simp add: numeral_eq_Suc)

lemma le_bytes_numeral:
  "le_bytes (numeral n) w = ucast w # le_bytes (pred_numeral n) (drop_bit 8 w)"
  by (simp add: numeral_eq_Suc)

lemmas net_eval = ram_eval layout_simps virt_to_phys_def net_device_lines_def inet_lines_def
  guest_cstr_numeral hwaddr_line_def fmt_22X_def upper_digit_char_def sprintf_str_def IP_LEN_def inet_ntoa_def
  le_bytes_numeral show_nat.simps digit_char_def

definition eth0_lines :: string where
  "eth0_lines =
     ''Device: eth0'' @ nl @ ''   HWaddr     : 52:54:00:12:34:56'' @ nl @
     ''   IP Address : 10.0.2.15'' @ nl @ ''   Broadcast  : 10.0.2.255'' @ nl @
     ''   IP Mask    : 255.255.255.0'' @ nl"

section \<open>Properties\<close>

text \<open>
  C33. \<open>print_net_device\<close> never writes past a buffer, whatever the guest's memory holds: the
  dotted form of any 32-bit address fits the 16 bytes it is copied to, and names go to the
  monitor unbuffered.
\<close>

theorem print_net_device_no_overflow: "print_net_device fuel mem \<noteq> Inl Overflow"
  unfolding print_net_device_def
  by (auto simp: bindE_Inl_iff no_overflow net_device_lines_no_overflow
      intro!: walk_list_no_overflow elim!: notE [rotated])



end
