(* ===== verification/MemUsage.thy ===== *)
theory MemUsage
  imports KernelLayout GuestList CFormat
begin

text \<open>
  Memory utilisation of the guest, \<open>plugin/mem_usage.c\<close>: the page counters of the guest
  kernel, read in kilobytes with 64-bit wrap-around, and the percentage computed from them
  in \<open>float\<close>. When the guest reports no memory at all the division is by zero and yields an
  IEEE infinity or NaN, so the result type has these two values beside the finite ones.
\<close>

section \<open>Data\<close>

datatype float_value = Finite real | Infinity | NaN

record mem_usage_stat =
  MemTotal :: u64
  MemFree :: u64
  Buffers :: u64
  Cached :: u64
  mem_usage :: float_value

section \<open>Counters\<close>

definition getMemTotal :: "ram \<Rightarrow> u64 res" where
  "getMemTotal mem = bindE (rd64 mem (virt_to_phys TOTALRAM_PAGES_GVA)) (\<lambda>n. Inr (n * PAGE_KB))"

definition getMemFree :: "ram \<Rightarrow> u64 res" where
  "getMemFree mem =
     bindE (rd64 mem (virt_to_phys VM_STAT_GVA + 8 * NR_FREE_PAGES)) (\<lambda>n. Inr (n * PAGE_KB))"

text \<open>
  The page cache of one block device, whose \<open>bd_list\<close> member is at offset \<open>hva\<close>: device,
  inode, mapping and its page count.
\<close>

definition bdev_nrpages :: "ram \<Rightarrow> u64 \<Rightarrow> u64 res" where
  "bdev_nrpages mem hva =
     (let bdev_base = hva - BLOCK_DEVICE_BD_LIST_OFFSET
      in bindE (rd64 mem (bdev_base + BLOCK_DEVICE_BD_INODE_OFFSET)) (\<lambda>inode_base_gva.
         bindE (rd64 mem (virt_to_phys inode_base_gva + INODE_I_MAPPING_OFFSET)) (\<lambda>address_space_gva.
           rd64 mem (virt_to_phys address_space_gva + ADDRESS_SPACE_NRPAGES_OFFSET))))"

definition getBuffers :: "nat \<Rightarrow> ram \<Rightarrow> u64 res" where
  "getBuffers fuel mem =
     bindE (rd64 mem (virt_to_phys ALL_BDEVS_GVA)) (\<lambda>gva.
     bindE (walk_list fuel ALL_BDEVS_GVA
              (\<lambda>gva tot. bindE (bdev_nrpages mem (virt_to_phys gva)) (\<lambda>nrpages. Inr (tot + nrpages)))
              (\<lambda>gva. rd64 mem (virt_to_phys gva)) gva 0) (\<lambda>tot.
       Inr (tot * PAGE_KB)))"

definition getMemFile :: "ram \<Rightarrow> u64 res" where
  "getMemFile mem =
     bindE (rd64 mem (virt_to_phys VM_STAT_GVA + 8 * NR_FILE_PAGES)) (\<lambda>n. Inr (n * PAGE_KB))"

primrec swapcache_loop :: "nat \<Rightarrow> ram \<Rightarrow> u64 \<Rightarrow> u64 \<Rightarrow> u64 res" where
  "swapcache_loop 0 mem p acc = Inr acc"
| "swapcache_loop (Suc n) mem p acc =
     bindE (rd64 mem (p + ADDRESS_SPACE_NRPAGES_OFFSET)) (\<lambda>x.
       swapcache_loop n mem (p + ADDRESS_SPACE_SIZE) (acc + x))"

definition getMemSwapCache :: "ram \<Rightarrow> u64 res" where
  "getMemSwapCache mem =
     bindE (swapcache_loop MAX_SWAPFILES mem (virt_to_phys SWAPPER_SPACES_GVA) 0) (\<lambda>n.
       Inr (n * PAGE_KB))"

text \<open>\<open>swapcache_size\<close> is declared \<open>unsigned\<close>: the swap cache is cut to 32 bits.\<close>

definition getCached :: "nat \<Rightarrow> ram \<Rightarrow> u64 res" where
  "getCached fuel mem =
     bindE (getMemFile mem) (\<lambda>file_size.
     bindE (getMemSwapCache mem) (\<lambda>sc.
     bindE (getBuffers fuel mem) (\<lambda>bufferram.
       let swapcache_size = (ucast sc :: u32)
       in Inr (file_size - ucast swapcache_size - bufferram))))"

section \<open>Utilisation\<close>

definition usage_percent :: "u64 \<Rightarrow> u64 \<Rightarrow> float_value" where
  "usage_percent used tot =
     (let u = fl32 (real (unat used)); t = fl32 (real (unat tot))
      in if t = 0 then (if u = 0 then NaN else Infinity)
         else Finite (fl32 (fl32 (u / t) * 100)))"

definition get_mem_usage :: "nat \<Rightarrow> ram \<Rightarrow> mem_usage_stat res" where
  "get_mem_usage fuel mem =
     bindE (getMemTotal mem) (\<lambda>mt.
     bindE (getMemFree mem) (\<lambda>mf.
     bindE (getBuffers fuel mem) (\<lambda>bu.
     bindE (getCached fuel mem) (\<lambda>ca.
       Inr \<lparr>MemTotal = mt, MemFree = mf, Buffers = bu, Cached = ca,
            mem_usage = usage_percent (mt - mf - bu - ca) mt\<rparr>))))"

text \<open>\<open>%.1f\<close>: the NaN that the processor makes of 0/0 has its sign bit set.\<close>

definition fmt_float :: "float_value \<Rightarrow> string" where
  "fmt_float v = (case v of Finite x \<Rightarrow> fmt_1f x | Infinity \<Rightarrow> ''inf'' | NaN \<Rightarrow> ''-nan'')"

definition mem_usage_handle :: "nat \<Rightarrow> ram \<Rightarrow> string res" where
  "mem_usage_handle fuel mem =
     bindE (get_mem_usage fuel mem) (\<lambda>stat.
       Inr (''MemTotal  : '' @ fmt_lu (MemTotal stat) @ '' kB'' @ nl @
            ''MemFree   : '' @ fmt_lu (MemFree stat) @ '' kB'' @ nl @
            ''Buffers   : '' @ fmt_lu (Buffers stat) @ '' kB'' @ nl @
            ''Cached    : '' @ fmt_lu (Cached stat) @ '' kB'' @ nl @
            ''Mem Usage : '' @ fmt_float (mem_usage stat) @ ''%'' @ nl))"

section \<open>Facts\<close>

lemma fold_add: "fold (\<lambda>x acc. acc + x) xs (a :: u64) = a + sum_list xs"
  by (induction xs arbitrary: a) (auto simp: algebra_simps)

lemma swapcache_loop_numeral [simp]:
  "swapcache_loop (numeral k) mem p acc =
     bindE (rd64 mem (p + ADDRESS_SPACE_NRPAGES_OFFSET)) (\<lambda>x.
       swapcache_loop (pred_numeral k) mem (p + ADDRESS_SPACE_SIZE) (acc + x))"
  by (simp add: numeral_eq_Suc)

lemma swapcache_loop_sum:
  "list_all2 (\<lambda>i x. rd64 mem (p + of_nat i * ADDRESS_SPACE_SIZE + ADDRESS_SPACE_NRPAGES_OFFSET) = Inr x)
     [0..<n] xs \<Longrightarrow> swapcache_loop n mem p acc = Inr (acc + sum_list xs)"
proof (induction n arbitrary: p acc xs)
  case 0
  then show ?case by simp
next
  case (Suc n)
  have u: "[0..<Suc n] = 0 # map Suc [0..<n]"
    by (simp add: map_Suc_upt upt_conv_Cons del: upt_Suc)
  from Suc.prems obtain x ys where xs: "xs = x # ys"
    and x: "rd64 mem (p + ADDRESS_SPACE_NRPAGES_OFFSET) = Inr x"
    and ys: "list_all2 (\<lambda>i x. rd64 mem (p + of_nat (Suc i) * ADDRESS_SPACE_SIZE +
        ADDRESS_SPACE_NRPAGES_OFFSET) = Inr x) [0..<n] ys"
    unfolding u by (auto simp: list_all2_Cons1 list_all2_map1)
  have "swapcache_loop n mem (p + ADDRESS_SPACE_SIZE) (acc + x) = Inr (acc + x + sum_list ys)"
    by (rule Suc.IH) (rule list_all2_mono [OF ys], simp add: algebra_simps)
  then show ?case by (simp add: x xs add.assoc)
qed

text \<open>What is called used memory: the buffers cancel out.\<close>

lemma used_memory:
  assumes "get_mem_usage fuel mem = Inr st" and "getMemFile mem = Inr mf" and "getMemSwapCache mem = Inr sc"
  shows "MemTotal st - MemFree st - Buffers st - Cached st =
    MemTotal st - MemFree st - mf + ucast (ucast sc :: u32)"
  using assms by (auto simp: get_mem_usage_def getCached_def res_simps Let_def)

lemma usage_percent_range:
  assumes "unat used \<le> unat tot" and "usage_percent used tot = Finite u"
  shows "0 \<le> u \<and> u \<le> 100"
proof -
  let ?u = "fl32 (real (unat used))" and ?t = "fl32 (real (unat tot))"
  have nn: "0 \<le> ?u" "0 \<le> ?t"
    unfolding fl32_def by (rule rnd_nonneg, rule of_nat_0_le_iff, simp)+
  have pos: "0 < ?t"
    using assms(2) nn(2) by (auto simp: usage_percent_def Let_def split: if_splits)
  have "?u \<le> ?t"
    unfolding fl32_def using assms(1) by (intro rnd_mono of_nat_mono of_nat_0_le_iff) simp_all
  with pos nn have q: "0 \<le> ?u / ?t" "?u / ?t \<le> 1"
    by simp_all
  have one: "rnd 24 1 = 1" and hundred: "rnd 24 100 = 100"
    using rnd_of_nat [of 1 24] rnd_of_nat [of 100 24] by simp_all
  have q': "0 \<le> fl32 (?u / ?t)" "fl32 (?u / ?t) \<le> 1"
    using rnd_mono [OF q, of 24] one q(1) by (simp_all add: fl32_def rnd_nonneg)
  have "u = fl32 (fl32 (?u / ?t) * 100)"
    using assms(2) by (simp add: usage_percent_def Let_def split: if_splits)
  moreover have "rnd 24 (fl32 (?u / ?t) * 100) \<le> rnd 24 100"
    by (rule rnd_mono) (use q' in simp_all)
  ultimately show ?thesis
    using q' hundred by (simp add: fl32_def rnd_nonneg)
qed

section \<open>A guest with one block device\<close>

definition mem_ram :: ram where
  "mem_ram =
     put64 0x1d06228 1000 (put64 0x1c06200 200 (put64 0x1c06248 300 (put64 0x1c6e520 0xffff8800000010a8
     (put64 0x10a8 0xffffffff81c6e520 (put64 0x1008 0xffff880000002000 (put64 0x2030 0xffff880000003000
     (put64 0x3060 40 (zram 0x2000000))))))))"

lemma mem_ram_bdev:
  "rd64 mem_ram (virt_to_phys ALL_BDEVS_GVA) = Inr 0xffff8800000010a8"
  "rd64 mem_ram (virt_to_phys 0xffff8800000010a8) = Inr ALL_BDEVS_GVA"
  "bdev_nrpages mem_ram (virt_to_phys 0xffff8800000010a8) = Inr 40"
  by (simp_all add: mem_ram_def layout_simps virt_to_phys_def bdev_nrpages_def)

section \<open>Properties\<close>

text \<open>
  \<open>getBuffers\<close> adds up the page cache of every block device: on a guest whose device
  list comes back to its head it terminates with the sum of the devices' page counts, in
  kilobytes modulo 2 to the 64.
\<close>

theorem getBuffers_sum:
  assumes "rd64 mem (virt_to_phys ALL_BDEVS_GVA) = Inr g"
    and "chain (\<lambda>gva. rd64 mem (virt_to_phys gva)) ALL_BDEVS_GVA g gs" and "length gs < fuel"
    and "list_all2 (\<lambda>g n. bdev_nrpages mem (virt_to_phys g) = Inr n) gs ns"
  shows "getBuffers fuel mem = Inr (PAGE_KB * sum_list ns)"
proof -
  have "foldE (\<lambda>gva tot. bindE (bdev_nrpages mem (virt_to_phys gva)) (\<lambda>nrpages. Inr (tot + nrpages))) gs 0
      = Inr (fold (\<lambda>x acc. acc + x) ns 0)"
    using foldE_reads [OF assms(4), of "\<lambda>x acc. acc + x" 0] by simp
  from walk_list_complete [OF assms(2,3) this] show ?thesis
    using assms(1) by (simp add: getBuffers_def fold_add mult.commute)
qed

theorem getBuffers_sum_witness: "getBuffers 3 mem_ram = Inr 160"
proof -
  have "getBuffers 3 mem_ram = Inr (PAGE_KB * sum_list [40])"
    by (rule getBuffers_sum [OF mem_ram_bdev(1), of "[0xffff8800000010a8]"])
       (simp_all add: mem_ram_bdev, simp add: layout_simps)
  then show ?thesis by (simp add: layout_simps)
qed



end
