(* ===== verification/CpuUsage.thy ===== *)
theory CpuUsage
  imports KernelLayout GuestList CFormat
begin

text \<open>
  CPU utilisation of the guest, \<open>plugin/cpu_usage.c\<close>. The guest runs while it is sampled:
  each of the two passes of \<open>get_cpustat\<close> reads one state of the guest's memory, \<open>mem1\<close>
  before and \<open>mem2\<close> after the sleep. The arrays on the C stack are uninitialised, so the
  functions that fill them take their old contents as an argument.
\<close>

section \<open>Number of processors\<close>

function cpu_bits :: "u64 \<Rightarrow> nat \<Rightarrow> nat" where
  "cpu_bits cpu_bit num = (if cpu_bit = 0 then num else cpu_bits (drop_bit 1 cpu_bit) (num + 1))"
  by pat_completeness auto

termination
proof (relation "measure (unat \<circ> fst)")
  fix w :: u64 and n :: nat
  assume "w \<noteq> 0"
  then have "0 < unat w" by (simp add: unat_gt_0)
  then show "((drop_bit 1 w, n + 1), w, n) \<in> measure (unat \<circ> fst)"
    by (simp add: drop_bit_eq_div unat_div)
qed simp

declare cpu_bits.simps [simp del]

definition get_cpu_num :: "ram \<Rightarrow> nat res" where
  "get_cpu_num mem = bindE (rd64 mem (virt_to_phys CPU_POSSIBLE_MASK_GVA)) (\<lambda>m. Inr (cpu_bits m 0))"

section \<open>One pass over the counters\<close>

type_synonym cpu_row = "cpu_stat \<Rightarrow> u64"

definition cpustat_at :: "ram \<Rightarrow> u64 \<Rightarrow> cpu_stat \<Rightarrow> u64 res" where
  "cpustat_at mem cpustat_hva i = rd64 mem (cpustat_hva + 8 * cpu_stat_val i)"

definition cpu_user_time :: "nat \<Rightarrow> ram \<Rightarrow> u64 \<Rightarrow> u64 res" where
  "cpu_user_time c mem cpustat_hva = cpustat_at mem cpustat_hva CPUTIME_USER"

definition cpu_nice_time :: "nat \<Rightarrow> ram \<Rightarrow> u64 \<Rightarrow> u64 res" where
  "cpu_nice_time c mem cpustat_hva = cpustat_at mem cpustat_hva CPUTIME_NICE"

definition cpu_sys_time :: "nat \<Rightarrow> ram \<Rightarrow> u64 \<Rightarrow> u64 res" where
  "cpu_sys_time c mem cpustat_hva = cpustat_at mem cpustat_hva CPUTIME_SYSTEM"

definition cpu_idle_time :: "nat \<Rightarrow> ram \<Rightarrow> u64 \<Rightarrow> u64 res" where
  "cpu_idle_time c mem cpustat_hva = cpustat_at mem cpustat_hva CPUTIME_IDLE"

definition cpu_iowait_time :: "nat \<Rightarrow> ram \<Rightarrow> u64 \<Rightarrow> u64 res" where
  "cpu_iowait_time c mem cpustat_hva = cpustat_at mem cpustat_hva CPUTIME_IOWAIT"

definition cpu_hirq_time :: "nat \<Rightarrow> ram \<Rightarrow> u64 \<Rightarrow> u64 res" where
  "cpu_hirq_time c mem cpustat_hva = cpustat_at mem cpustat_hva CPUTIME_IRQ"

definition cpu_sirq_time :: "nat \<Rightarrow> ram \<Rightarrow> u64 \<Rightarrow> u64 res" where
  "cpu_sirq_time c mem cpustat_hva = cpustat_at mem cpustat_hva CPUTIME_SOFTIRQ"

definition cpu_steal_time :: "nat \<Rightarrow> ram \<Rightarrow> u64 \<Rightarrow> u64 res" where
  "cpu_steal_time c mem cpustat_hva = cpustat_at mem cpustat_hva CPUTIME_STEAL"

lemmas cpu_time_defs = cpu_user_time_def cpu_nice_time_def cpu_sys_time_def cpu_idle_time_def
  cpu_iowait_time_def cpu_hirq_time_def cpu_sirq_time_def cpu_steal_time_def

text \<open>The counters of processor \<open>c\<close>: eight reads, in program order, and their wrapping sum.\<close>

definition cpu_row_of :: "ram \<Rightarrow> nat \<Rightarrow> cpu_row \<Rightarrow> cpu_row res" where
  "cpu_row_of mem c old =
     bindE (rd64 mem (virt_to_phys PER_CPU_OFFSET_GVA + 8 * of_nat c)) (\<lambda>off.
     let base_cpustat_hva = virt_to_phys (off + KERNEL_CPUSTAT) in
     bindE (cpu_user_time c mem base_cpustat_hva) (\<lambda>us.
     bindE (cpu_nice_time c mem base_cpustat_hva) (\<lambda>ni.
     bindE (cpu_sys_time c mem base_cpustat_hva) (\<lambda>sy.
     bindE (cpu_idle_time c mem base_cpustat_hva) (\<lambda>idl.
     bindE (cpu_iowait_time c mem base_cpustat_hva) (\<lambda>wa.
     bindE (cpu_hirq_time c mem base_cpustat_hva) (\<lambda>hi.
     bindE (cpu_sirq_time c mem base_cpustat_hva) (\<lambda>si.
     bindE (cpu_steal_time c mem base_cpustat_hva) (\<lambda>st.
       Inr (old(CPUTIME_USER := us, CPUTIME_NICE := ni, CPUTIME_SYSTEM := sy, CPUTIME_IDLE := idl,
                CPUTIME_IOWAIT := wa, CPUTIME_IRQ := hi, CPUTIME_SOFTIRQ := si, CPUTIME_STEAL := st,
                CPUTIME_TOTAL := 0 + us + ni + sy + idl + wa + hi + si + st)))))))))))"

definition add_row :: "cpu_row \<Rightarrow> cpu_row \<Rightarrow> cpu_row" where
  "add_row a b = (\<lambda>i. a i + b i)"

definition get_cpustat :: "ram \<Rightarrow> cpu_row list \<Rightarrow> nat \<Rightarrow> cpu_row list res" where
  "get_cpustat mem cpustat num_cpu =
     foldE (\<lambda>c t. bindE (cpu_row_of mem c (t ! c)) (\<lambda>row.
              let t' = t[c := row] in Inr (t'[num_cpu := add_row (t' ! num_cpu) row])))
       [0..<num_cpu] (cpustat[num_cpu := (\<lambda>i. 0)])"

section \<open>Utilisation\<close>

type_synonym usage_row = "cpu_stat \<Rightarrow> real"

text \<open>\<open>100.0f * (float)x / tot_time\<close>, each operation rounded to \<open>float\<close>.\<close>

definition percent :: "u64 \<Rightarrow> real \<Rightarrow> real" where
  "percent x tot_time = fl32 (fl32 (100 * fl32 (real (unat x))) / tot_time)"

definition usage_of :: "cpu_row \<Rightarrow> usage_row \<Rightarrow> usage_row" where
  "usage_of d old =
     (if d CPUTIME_TOTAL = 0
      then old(CPUTIME_USER := 0, CPUTIME_SYSTEM := 0, CPUTIME_IDLE := 100, CPUTIME_NICE := 0,
               CPUTIME_IOWAIT := 0, CPUTIME_IRQ := 0, CPUTIME_SOFTIRQ := 0, CPUTIME_STEAL := 0)
      else let tot_time = fl32 (real (unat (d CPUTIME_TOTAL)))
           in old(CPUTIME_USER := percent (d CPUTIME_USER + d CPUTIME_NICE) tot_time,
                  CPUTIME_SYSTEM := percent (d CPUTIME_SYSTEM + d CPUTIME_IRQ + d CPUTIME_SOFTIRQ) tot_time,
                  CPUTIME_IDLE := percent (d CPUTIME_IDLE) tot_time,
                  CPUTIME_NICE := percent (d CPUTIME_NICE) tot_time,
                  CPUTIME_IOWAIT := percent (d CPUTIME_IOWAIT) tot_time,
                  CPUTIME_IRQ := percent (d CPUTIME_IRQ) tot_time,
                  CPUTIME_SOFTIRQ := percent (d CPUTIME_SOFTIRQ) tot_time,
                  CPUTIME_STEAL := percent (d CPUTIME_STEAL) tot_time))"

definition diff_row :: "cpu_row \<Rightarrow> cpu_row \<Rightarrow> cpu_row" where
  "diff_row a b = (\<lambda>i. b i - a i)"

text \<open>\<open>junk\<close> is what the three arrays hold before they are written.\<close>

definition comp_cpu_usage :: "cpu_row \<Rightarrow> ram \<Rightarrow> ram \<Rightarrow> usage_row list \<Rightarrow> usage_row list res" where
  "comp_cpu_usage junk mem1 mem2 stat =
     bindE (get_cpu_num mem1) (\<lambda>num_cpu.
     bindE (get_cpustat mem1 (replicate (num_cpu + 1) junk) num_cpu) (\<lambda>cpustat1.
     bindE (get_cpustat mem2 (replicate (num_cpu + 1) junk) num_cpu) (\<lambda>cpustat2.
       let cpustat_diff = map2 diff_row cpustat1 cpustat2
       in Inr (map2 usage_of cpustat_diff stat))))"

definition usage_fields :: "usage_row \<Rightarrow> string" where
  "usage_fields u =
     fmt_51f (u CPUTIME_USER) @ ''%us, '' @ fmt_51f (u CPUTIME_SYSTEM) @ ''%sy, '' @
     fmt_51f (u CPUTIME_IDLE) @ ''%id, '' @ fmt_51f (u CPUTIME_NICE) @ ''%ni, '' @
     fmt_51f (u CPUTIME_IOWAIT) @ ''%wa, '' @ fmt_51f (u CPUTIME_IRQ) @ ''%hi, '' @
     fmt_51f (u CPUTIME_SOFTIRQ) @ ''%si, '' @ fmt_51f (u CPUTIME_STEAL) @ ''%st'' @ nl"

definition cpu_usage_thread :: "cpu_row \<Rightarrow> usage_row \<Rightarrow> ram \<Rightarrow> ram \<Rightarrow> string res" where
  "cpu_usage_thread junk junk' mem1 mem2 =
     bindE (get_cpu_num mem1) (\<lambda>num_cpu.
     bindE (comp_cpu_usage junk mem1 mem2 (replicate (num_cpu + 1) junk')) (\<lambda>stat.
       Inr (nl @ ''CPU AVG : '' @ usage_fields (stat ! num_cpu) @
            concat (map (\<lambda>c. ''CPU '' @ fmt_3d c @ '' : '' @ usage_fields (stat ! c)) [0..<num_cpu]) @
            ''(qemu) '')))"

text \<open>\<open>created\<close>: whether \<open>pthread_create\<close> returns 0. The result is the output on the monitor and on \<open>stdout\<close>.\<close>

definition cpu_usage_handle ::
  "bool \<Rightarrow> cpu_row \<Rightarrow> usage_row \<Rightarrow> ram \<Rightarrow> ram \<Rightarrow> (string \<times> string) res" where
  "cpu_usage_handle created junk junk' mem1 mem2 =
     (if created then bindE (cpu_usage_thread junk junk' mem1 mem2) (\<lambda>out. Inr (out, []))
      else Inr ([], ''Failed to create thread'' @ nl))"

section \<open>The counting loop\<close>

lemma cpu_bits_spec: "\<exists>n. cpu_bits w k = k + n \<and> (\<forall>i\<ge>n. \<not> bit w i) \<and> (0 < n \<longrightarrow> bit w (n - 1))"
proof (induction w k rule: cpu_bits.induct)
  case (1 w k)
  show ?case
  proof (cases "w = 0")
    case True
    then show ?thesis by (subst cpu_bits.simps) (auto intro: exI [of _ 0])
  next
    case False
    with 1 obtain n where n: "cpu_bits (drop_bit 1 w) (k + 1) = k + 1 + n"
      "\<forall>i\<ge>n. \<not> bit (drop_bit 1 w) i" "0 < n \<longrightarrow> bit (drop_bit 1 w) (n - 1)" by auto
    have hi: "\<not> bit w i" if "Suc n \<le> i" for i
      using n(2) [rule_format, of "i - 1"] that by (simp add: bit_drop_bit_eq)
    have lo: "bit w n"
    proof (cases n)
      case 0
      obtain i where "bit w i" using False by (auto simp: bit_eq_iff)
      with hi 0 show ?thesis by (cases i) auto
    next
      case (Suc m)
      with n(3) show ?thesis by (simp add: bit_drop_bit_eq)
    qed
    show ?thesis
      by (rule exI [of _ "Suc n"], subst cpu_bits.simps) (use False n hi lo in auto)
  qed
qed

lemma cpu_bits_le: "cpu_bits w 0 \<le> 64"
proof -
  obtain n where n: "cpu_bits w 0 = n" "0 < n \<longrightarrow> bit w (n - 1)"
    using cpu_bits_spec [of w 0] by auto
  with bit_imp_le_length [of w "n - 1"] show ?thesis by (cases n) auto
qed

section \<open>The counters\<close>

lemma cpu_row_of_total:
  assumes "cpu_row_of mem c old = Inr r"
  shows "r CPUTIME_TOTAL = r CPUTIME_USER + r CPUTIME_NICE + r CPUTIME_SYSTEM + r CPUTIME_IDLE +
    r CPUTIME_IOWAIT + r CPUTIME_IRQ + r CPUTIME_SOFTIRQ + r CPUTIME_STEAL"
  using assms by (auto simp: cpu_row_of_def Let_def res_simps)

lemma foldE_append: "foldE f (xs @ ys) s = bindE (foldE f xs s) (foldE f ys)"
  by (induction xs arbitrary: s) (auto simp: bindE_assoc intro: bindE_cong)

lemma get_cpustat_prefix:
  assumes "foldE (\<lambda>c t. bindE (cpu_row_of mem c (t ! c)) (\<lambda>row.
              let t' = t[c := row] in Inr (t'[n := add_row (t' ! n) row]))) [0..<k]
            (t[n := (\<lambda>i. 0)]) = Inr t'"
    and "length t = Suc n" and "k \<le> n"
  shows "length t' = Suc n \<and> (\<forall>c<k. cpu_row_of mem c (t ! c) = Inr (t' ! c)) \<and>
    (\<forall>c. k \<le> c \<longrightarrow> c < n \<longrightarrow> t' ! c = t ! c) \<and> t' ! n = (\<lambda>i. \<Sum>c<k. (t' ! c) i)"
  using assms
proof (induction k arbitrary: t')
  case 0
  then show ?case by auto
next
  case (Suc k)
  let ?f = "\<lambda>c t. bindE (cpu_row_of mem c (t ! c)) (\<lambda>row.
              let t' = t[c := row] in Inr (t'[n := add_row (t' ! n) row]))"
  from Suc.prems(1) obtain u where u: "foldE ?f [0..<k] (t[n := (\<lambda>i. 0)]) = Inr u" and "?f k u = Inr t'"
    by (auto simp: foldE_append res_simps)
  then obtain row where row: "cpu_row_of mem k (u ! k) = Inr row"
    and t': "t' = u[k := row, n := add_row (u[k := row] ! n) row]"
    by (auto simp: res_simps Let_def)
  have ih: "length u = Suc n" "\<forall>c<k. cpu_row_of mem c (t ! c) = Inr (u ! c)"
    "\<forall>c. k \<le> c \<longrightarrow> c < n \<longrightarrow> u ! c = t ! c" "u ! n = (\<lambda>i. \<Sum>c<k. (u ! c) i)"
    using Suc.IH [OF u] Suc.prems(2,3) by auto
  have "(\<Sum>c<k. (t' ! c) i) = (\<Sum>c<k. (u ! c) i)" for i
    by (rule sum.cong) (use Suc.prems(3) in \<open>auto simp: t'\<close>)
  with ih row Suc.prems(2,3) show ?case
    by (auto simp: t' less_Suc_eq add_row_def)
qed

lemma get_cpustat_rows:
  assumes "get_cpustat mem t n = Inr t'" and "length t = Suc n"
  shows "length t' = Suc n" and "\<And>c. c < n \<Longrightarrow> cpu_row_of mem c (t ! c) = Inr (t' ! c)"
    and "t' ! n = (\<lambda>i. \<Sum>c<n. (t' ! c) i)"
  using get_cpustat_prefix [OF assms(1) [unfolded get_cpustat_def] assms(2) order_refl] by auto

text \<open>In every row the total is the wrapping sum of the eight counters, the added-up row included.\<close>

definition parts_sum :: "cpu_row \<Rightarrow> u64" where
  "parts_sum r = r CPUTIME_USER + r CPUTIME_NICE + r CPUTIME_SYSTEM + r CPUTIME_IDLE +
    r CPUTIME_IOWAIT + r CPUTIME_IRQ + r CPUTIME_SOFTIRQ + r CPUTIME_STEAL"

lemma get_cpustat_total:
  assumes "get_cpustat mem t n = Inr t'" and "length t = Suc n" and "c \<le> n"
  shows "(t' ! c) CPUTIME_TOTAL = parts_sum (t' ! c)"
proof -
  note rows = get_cpustat_rows [OF assms(1,2)]
  have each: "(t' ! i) CPUTIME_TOTAL = parts_sum (t' ! i)" if "i < n" for i
    using cpu_row_of_total [OF rows(2) [OF that]] by (simp add: parts_sum_def)
  show ?thesis
  proof (cases "c = n")
    case True
    then show ?thesis
      by (simp add: rows(3) parts_sum_def sum.distrib [symmetric])
         (rule sum.cong, use each in \<open>auto simp: parts_sum_def\<close>)
  next
    case False
    with assms(3) each show ?thesis by simp
  qed
qed

section \<open>Percentages\<close>

lemma percent_range:
  assumes "unat x \<le> unat tot" and "tot \<noteq> 0"
  shows "0 \<le> percent x (fl32 (real (unat tot)))"
    and "percent x (fl32 (real (unat tot))) \<le> 100 * (1 + 1 / 2 ^ 24) ^ 2"
proof -
  let ?x = "fl32 (real (unat x))" and ?t = "fl32 (real (unat tot))"
  have le: "?x \<le> ?t"
    unfolding fl32_def using assms(1) by (intro rnd_mono of_nat_mono of_nat_0_le_iff) simp_all
  have x0: "0 \<le> ?x"
    unfolding fl32_def by (rule rnd_nonneg, rule of_nat_0_le_iff, simp)
  have t0: "0 < ?t"
    unfolding fl32_def by (rule rnd_pos) (use assms(2) in \<open>simp_all add: unat_gt_0 del: of_nat_unat\<close>)
  have up: "fl32 y \<le> y * (1 + 1 / 2 ^ 24)" if "0 \<le> y" for y
  proof (cases "y = 0")
    case False
    with that have "rnd 24 y - y \<le> y * 2 powi (- int 24)"
      using rnd_rel_error [of y 24] by linarith
    then show ?thesis by (simp add: fl32_def power_int_minus field_simps)
  qed (simp add: fl32_def rnd_def)
  have p0: "0 \<le> fl32 (100 * ?x)"
    using x0 by (simp add: fl32_def rnd_nonneg)
  then have q0: "0 \<le> fl32 (100 * ?x) / ?t" using t0 by simp
  then show "0 \<le> percent x ?t"
    by (simp add: percent_def fl32_def rnd_nonneg)
  have "fl32 (100 * ?x) \<le> 100 * ?x * (1 + 1 / 2 ^ 24)"
    by (rule up) (use x0 in simp)
  also have "\<dots> \<le> 100 * ?t * (1 + 1 / 2 ^ 24)"
    using le by simp
  finally have "fl32 (100 * ?x) / ?t \<le> 100 * (1 + 1 / 2 ^ 24)"
    using t0 by (simp add: field_simps)
  then have "fl32 (100 * ?x) / ?t * (1 + 1 / 2 ^ 24) \<le> 100 * (1 + 1 / 2 ^ 24) * (1 + 1 / 2 ^ 24)"
    by (rule mult_right_mono) simp
  with up [OF q0] show "percent x ?t \<le> 100 * (1 + 1 / 2 ^ 24) ^ 2"
    by (simp add: percent_def power2_eq_square)
qed

definition parts_nat :: "cpu_row \<Rightarrow> nat" where
  "parts_nat r = unat (r CPUTIME_USER) + unat (r CPUTIME_NICE) + unat (r CPUTIME_SYSTEM) +
    unat (r CPUTIME_IDLE) + unat (r CPUTIME_IOWAIT) + unat (r CPUTIME_IRQ) +
    unat (r CPUTIME_SOFTIRQ) + unat (r CPUTIME_STEAL)"

lemma parts_no_wrap:
  assumes "parts_nat r < 2 ^ 64"
  shows "unat (parts_sum r) = parts_nat r"
    and "unat (r CPUTIME_USER + r CPUTIME_NICE) = unat (r CPUTIME_USER) + unat (r CPUTIME_NICE)"
    and "unat (r CPUTIME_SYSTEM + r CPUTIME_IRQ + r CPUTIME_SOFTIRQ) =
      unat (r CPUTIME_SYSTEM) + unat (r CPUTIME_IRQ) + unat (r CPUTIME_SOFTIRQ)"
  using assms by (simp_all add: parts_sum_def parts_nat_def unat_add_small_u64)

text \<open>The ticks behind each displayed figure: user time includes nice, system time both kinds of interrupts.\<close>

fun ticks :: "cpu_row \<Rightarrow> cpu_stat \<Rightarrow> u64" where
  "ticks d CPUTIME_USER = d CPUTIME_USER + d CPUTIME_NICE"
| "ticks d CPUTIME_SYSTEM = d CPUTIME_SYSTEM + d CPUTIME_IRQ + d CPUTIME_SOFTIRQ"
| "ticks d i = d i"

lemma usage_of_ticks:
  "d CPUTIME_TOTAL \<noteq> 0 \<Longrightarrow> i \<noteq> CPUTIME_TOTAL \<Longrightarrow>
     usage_of d old i = percent (ticks d i) (fl32 (real (unat (d CPUTIME_TOTAL))))"
  by (cases i) (simp_all add: usage_of_def Let_def)

lemma ticks_le: "parts_nat d < 2 ^ 64 \<Longrightarrow> i \<noteq> CPUTIME_TOTAL \<Longrightarrow> unat (ticks d i) \<le> parts_nat d"
  by (cases i) (simp_all add: parts_no_wrap(2,3), simp_all add: parts_nat_def)

lemma usage_of_range:
  assumes "r CPUTIME_TOTAL = parts_sum r" and "parts_nat r < 2 ^ 64" and "i \<noteq> CPUTIME_TOTAL"
  shows "0 \<le> usage_of r old i \<and> usage_of r old i \<le> 100 * (1 + 1 / 2 ^ 24) ^ 2"
proof (cases "r CPUTIME_TOTAL = 0")
  case True
  then show ?thesis using assms(3) by (cases i) (simp_all add: usage_of_def power2_eq_square)
next
  case False
  note w = parts_no_wrap [OF assms(2)]
  have "unat (ticks r i) \<le> unat (r CPUTIME_TOTAL)"
    using ticks_le [OF assms(2,3)] by (simp add: assms(1) w(1))
  with percent_range [of "ticks r i"] False usage_of_ticks [of r i old] assms(3) show ?thesis by metis
qed

lemma diff_row_total:
  "a CPUTIME_TOTAL = parts_sum a \<Longrightarrow> b CPUTIME_TOTAL = parts_sum b \<Longrightarrow>
     diff_row a b CPUTIME_TOTAL = parts_sum (diff_row a b)"
  by (simp add: diff_row_def parts_sum_def)

lemma comp_cpu_usage_eq:
  assumes "get_cpu_num mem1 = Inr n" and "length stat = Suc n"
    and "get_cpustat mem1 (replicate (n + 1) junk) n = Inr s1"
    and "get_cpustat mem2 (replicate (n + 1) junk) n = Inr s2"
  obtains us where "comp_cpu_usage junk mem1 mem2 stat = Inr us" and "length us = Suc n"
    and "\<And>c. c \<le> n \<Longrightarrow> us ! c = usage_of (diff_row (s1 ! c) (s2 ! c)) (stat ! c)"
proof
  have "length s1 = Suc n" "length s2 = Suc n"
    using get_cpustat_rows(1) [OF assms(3)] get_cpustat_rows(1) [OF assms(4)] by simp_all
  with assms(2) show "length (map2 usage_of (map2 diff_row s1 s2) stat) = Suc n"
    and "c \<le> n \<Longrightarrow> map2 usage_of (map2 diff_row s1 s2) stat ! c =
      usage_of (diff_row (s1 ! c) (s2 ! c)) (stat ! c)" for c
    by simp_all
  show "comp_cpu_usage junk mem1 mem2 stat = Inr (map2 usage_of (map2 diff_row s1 s2) stat)"
    using assms by (simp add: comp_cpu_usage_def)
qed

section \<open>A guest with two processors\<close>

definition cpu_ram :: "u64 \<Rightarrow> ram" where
  "cpu_ram t =
     put64 0x1d03dc0 3 (put64 0x1d030a0 0xffff880000000000 (put64 0x1d030a8 0xffff880000010000
     (put64 0xe340 t (put64 0xe368 100 (put64 0x1e368 t (zram 0x2000000))))))"

lemma cpu_ram_rows:
  "cpu_row_of (cpu_ram t) 0 (\<lambda>i. 0) =
     Inr ((\<lambda>i. 0)(CPUTIME_USER := t, CPUTIME_IDLE := 100, CPUTIME_TOTAL := t + 100))"
  "cpu_row_of (cpu_ram t) (Suc 0) (\<lambda>i. 0) = Inr ((\<lambda>i. 0)(CPUTIME_IDLE := t, CPUTIME_TOTAL := t))"
  by (simp_all add: cpu_row_of_def cpu_time_defs cpustat_at_def cpu_ram_def layout_simps
      virt_to_phys_def ram_eval fun_eq_iff cong: bindE_weak_cong)

lemma cpu_ram_stat:
  "get_cpustat (cpu_ram t) (replicate 3 (\<lambda>i. 0)) 2 =
     Inr [(\<lambda>i. 0)(CPUTIME_USER := t, CPUTIME_IDLE := 100, CPUTIME_TOTAL := t + 100),
          (\<lambda>i. 0)(CPUTIME_IDLE := t, CPUTIME_TOTAL := t),
          (\<lambda>i. 0)(CPUTIME_USER := t, CPUTIME_IDLE := 100 + t, CPUTIME_TOTAL := t + 100 + t)]"
  by (simp add: get_cpustat_def numeral_2_eq_2 numeral_3_eq_3 cpu_ram_rows Let_def add_row_def fun_eq_iff)

lemma cpu_ram_num: "get_cpu_num (cpu_ram t) = Inr 2"
  by (simp add: get_cpu_num_def cpu_ram_def layout_simps virt_to_phys_def cpu_bits.simps
      drop_bit_eq_div)

section \<open>Properties\<close>

text \<open>
  \<open>get_cpu_num\<close> is the bit length of the guest's \<open>cpu_possible_mask\<close>: its last set bit
  is the one below the result, no later bit is set, and the loop ends within 64 steps.
\<close>

theorem get_cpu_num_bit_length:
  assumes "rd64 mem (virt_to_phys CPU_POSSIBLE_MASK_GVA) = Inr m"
  shows "\<exists>n. get_cpu_num mem = Inr n \<and> n \<le> 64 \<and> (\<forall>i\<ge>n. \<not> bit m i) \<and> (0 < n \<longrightarrow> bit m (n - 1))"
  using assms cpu_bits_spec [of m 0] cpu_bits_le [of m] by (auto simp: get_cpu_num_def)

theorem get_cpu_num_bit_length_witness: "\<exists>n. get_cpu_num (cpu_ram 0) = Inr n \<and> n \<le> 64"
proof -
  have "rd64 (cpu_ram 0) (virt_to_phys CPU_POSSIBLE_MASK_GVA) = Inr 3"
    by (simp add: cpu_ram_def layout_simps virt_to_phys_def)
  from get_cpu_num_bit_length [OF this] show ?thesis by blast
qed

text \<open>
  One pass of \<open>get_cpustat\<close> fills every row of the table: a row per processor with that
  processor's counters, a last row that adds them up over all processors, and in each of
  them, the last included, a total that is the sum of the eight counters.
\<close>

theorem get_cpustat_table:
  assumes "get_cpustat mem t n = Inr t'" and "length t = Suc n"
  shows "length t' = Suc n \<and> (\<forall>c<n. cpu_row_of mem c (t ! c) = Inr (t' ! c)) \<and>
    t' ! n = (\<lambda>i. \<Sum>c<n. (t' ! c) i) \<and> (\<forall>c\<le>n. (t' ! c) CPUTIME_TOTAL = parts_sum (t' ! c))"
  using get_cpustat_rows [OF assms] get_cpustat_total [OF assms] by blast

theorem get_cpustat_table_witness:
  "\<exists>t'. get_cpustat (cpu_ram 50) (replicate 3 (\<lambda>i. 0)) 2 = Inr t' \<and> length t' = 3 \<and>
     (t' ! 2) CPUTIME_TOTAL = 200 \<and> parts_sum (t' ! 2) = 200"
proof -
  obtain t' where t': "get_cpustat (cpu_ram 50) (replicate 3 (\<lambda>i. 0)) 2 = Inr t'"
    and v: "(t' ! 2) CPUTIME_TOTAL = 200"
    by (simp add: cpu_ram_stat)
  from get_cpustat_table [OF t'] have "length t' = 3" "\<forall>c\<le>2. (t' ! c) CPUTIME_TOTAL = parts_sum (t' ! c)"
    by simp_all
  with v have "parts_sum (t' ! 2) = 200" by simp
  with t' v \<open>length t' = 3\<close> show ?thesis by blast
qed

text \<open>
  C40. \<open>comp_cpu_usage\<close> reports percentages: whenever the counters of both passes can be read
  it returns one row per processor and one for their sum, and each figure of a row whose
  elapsed ticks do not overflow 64 bits is at least 0 and at most 100 up to the two rounding
  errors of the \<open>float\<close> product and quotient.
\<close>

theorem comp_cpu_usage_range:
  assumes "get_cpu_num mem1 = Inr n" and "length stat = Suc n"
    and "get_cpustat mem1 (replicate (n + 1) junk) n = Inr s1"
    and "get_cpustat mem2 (replicate (n + 1) junk) n = Inr s2"
  shows "\<exists>us. comp_cpu_usage junk mem1 mem2 stat = Inr us \<and> length us = Suc n \<and>
    (\<forall>c\<le>n. \<forall>i. parts_nat (diff_row (s1 ! c) (s2 ! c)) < 2 ^ 64 \<longrightarrow> i \<noteq> CPUTIME_TOTAL \<longrightarrow>
       0 \<le> (us ! c) i \<and> (us ! c) i \<le> 100 * (1 + 1 / 2 ^ 24) ^ 2)"
proof -
  obtain us where us: "comp_cpu_usage junk mem1 mem2 stat = Inr us" "length us = Suc n"
    "\<And>c. c \<le> n \<Longrightarrow> us ! c = usage_of (diff_row (s1 ! c) (s2 ! c)) (stat ! c)"
    using comp_cpu_usage_eq [OF assms] by blast
  have "diff_row (s1 ! c) (s2 ! c) CPUTIME_TOTAL = parts_sum (diff_row (s1 ! c) (s2 ! c))" if "c \<le> n" for c
    using diff_row_total get_cpustat_total [OF assms(3) _ that] get_cpustat_total [OF assms(4) _ that] by simp
  with us usage_of_range show ?thesis by auto
qed

theorem comp_cpu_usage_range_witness:
  "\<exists>us. comp_cpu_usage (\<lambda>i. 0) (cpu_ram 0) (cpu_ram 50) (replicate 3 (\<lambda>i. 0)) = Inr us \<and>
     length us = 3 \<and> 0 \<le> (us ! 0) CPUTIME_USER \<and> (us ! 0) CPUTIME_USER \<le> 100 * (1 + 1 / 2 ^ 24) ^ 2"
proof -
  have stat: "get_cpustat (cpu_ram t) (replicate (2 + 1) (\<lambda>i. 0)) 2 =
      get_cpustat (cpu_ram t) (replicate 3 (\<lambda>i. 0)) 2" for t by simp
  have len: "length (replicate 3 (\<lambda>i. 0 :: real)) = Suc 2" by simp
  note * = comp_cpu_usage_range [OF cpu_ram_num len stat [THEN trans, OF cpu_ram_stat]
      stat [THEN trans, OF cpu_ram_stat], of 0 50]
  then obtain us where us: "comp_cpu_usage (\<lambda>i. 0) (cpu_ram 0) (cpu_ram 50) (replicate 3 (\<lambda>i. 0)) = Inr us"
    "length us = 3"
    and r: "\<And>i. i \<noteq> CPUTIME_TOTAL \<Longrightarrow> 0 \<le> (us ! 0) i \<and> (us ! 0) i \<le> 100 * (1 + 1 / 2 ^ 24) ^ 2"
    by (auto simp: parts_nat_def diff_row_def)
  show ?thesis using us r [of CPUTIME_USER] by auto
qed

end
