(* ===== verification/Daemon.thy ===== *)
theory Daemon
  imports GuestHost GuestNet MemUsage CpuUsage
begin

text \<open>
  The listener of \<open>plugin/daemon.c\<close>: a thread that answers every TCP connection with an XML
  document describing the guest. The document is built as a tree; the serialiser of libxml
  and the temporary file it writes are the parameter \<open>save\<close>. The guest runs during the two
  seconds between the two CPU samples, so \<open>mem1\<close> and \<open>mem2\<close> are its memory before and after.
\<close>

section \<open>The document\<close>

text \<open>An element: name, attributes, text content, children.\<close>

datatype xml = Elem string "(string \<times> string) list" string "xml list"

definition xmlNewChild :: "string \<Rightarrow> string \<Rightarrow> xml" where
  "xmlNewChild name content = Elem name [] content []"

primrec mapE :: "('a \<Rightarrow> 'b res) \<Rightarrow> 'a list \<Rightarrow> 'b list res" where
  "mapE f [] = Inr []"
| "mapE f (x # xs) = bindE (f x) (\<lambda>y. bindE (mapE f xs) (\<lambda>ys. Inr (y # ys)))"

definition TMP_LEN :: nat where
  "TMP_LEN = 128"

definition host_node :: "hostname_stat \<Rightarrow> xml" where
  "host_node h = Elem ''host'' [] []
     [xmlNewChild ''sysname'' (sysname h), xmlNewChild ''nodename'' (nodename h),
      xmlNewChild ''release'' (release h), xmlNewChild ''version'' (version h),
      xmlNewChild ''machine'' (machine h), xmlNewChild ''domainname'' (domainname h)]"

text \<open>The eight figures of one row, each through the buffer \<open>tmp\<close>.\<close>

definition usage_nodes :: "usage_row \<Rightarrow> xml list res" where
  "usage_nodes u =
     mapE (\<lambda>(name, i). bindE (sprintf_str TMP_LEN (fmt_1f (u i) @ ''%'')) (\<lambda>tmp. Inr (xmlNewChild name tmp)))
       [(''US'', CPUTIME_USER), (''SY'', CPUTIME_SYSTEM), (''ID'', CPUTIME_IDLE), (''NI'', CPUTIME_NICE),
        (''WA'', CPUTIME_IOWAIT), (''HI'', CPUTIME_IRQ), (''SI'', CPUTIME_SOFTIRQ), (''ST'', CPUTIME_STEAL)]"

definition cpu_node :: "nat \<Rightarrow> usage_row list \<Rightarrow> xml res" where
  "cpu_node num_cpu cstat =
     bindE (usage_nodes (cstat ! num_cpu)) (\<lambda>avg.
     bindE (mapE (\<lambda>c. bindE (sprintf_str TMP_LEN (show_nat c)) (\<lambda>tmp.
                      bindE (usage_nodes (cstat ! c)) (\<lambda>ns. Inr (Elem ''cpu'' [(''index'', tmp)] [] ns))))
              [0..<num_cpu]) (\<lambda>cpus.
       Inr (Elem ''cpu-usage'' [] [] (Elem ''average'' [] [] avg # cpus))))"

definition mem_node :: "mem_usage_stat \<Rightarrow> xml res" where
  "mem_node m =
     bindE (mapE (\<lambda>t. bindE (sprintf_str TMP_LEN t) (\<lambda>tmp. Inr (xmlNewChild ''MemTotal'' tmp)))
              [fmt_lu (MemTotal m) @ '' kB'', fmt_lu (MemFree m) @ '' kB'', fmt_lu (Buffers m) @ '' kB'',
               fmt_lu (Cached m) @ '' kB'', fmt_float (mem_usage m) @ ''%'']) (\<lambda>ns.
       Inr (Elem ''mem-usage'' [] [] ns))"

text \<open>\<open>junk\<close>: the uninitialised locals.\<close>

record junk =
  j_host :: hostname_stat
  j_row :: cpu_row
  j_usage :: usage_row

definition gen_doc :: "nat \<Rightarrow> junk \<Rightarrow> ram \<Rightarrow> ram \<Rightarrow> task heap \<Rightarrow> (xml \<times> task heap) res" where
  "gen_doc fuel junk mem1 mem2 h =
     bindE (get_hostname fuel mem1 (j_host junk) h) (\<lambda>(hstat, h').
     bindE (get_cpu_num mem1) (\<lambda>num_cpu.
     bindE (comp_cpu_usage (j_row junk) mem1 mem2 (replicate (num_cpu + 1) (j_usage junk))) (\<lambda>cstat.
     bindE (cpu_node num_cpu cstat) (\<lambda>cn.
     bindE (get_mem_usage fuel mem2) (\<lambda>mstat.
     bindE (mem_node mstat) (\<lambda>mn.
       Inr (Elem ''info'' [] [] [host_node hstat, cn, mn], h')))))))"

section \<open>The answer\<close>

text \<open>What \<open>open\<close> and \<open>read\<close> find of the temporary file.\<close>

datatype tmp_file = OpenFails | ReadFails | Content string

text \<open>A zeroed buffer of \<open>sz + 1\<close> bytes after one \<open>read\<close> into it.\<close>

definition read_buf :: "int \<Rightarrow> string \<Rightarrow> string" where
  "read_buf sz content =
     (let n = nat (sz + 1) in take n content @ replicate (n - length content) (CHR 0x00))"

definition gen_xml ::
  "(xml \<Rightarrow> int \<times> tmp_file) \<Rightarrow> nat \<Rightarrow> junk \<Rightarrow> ram \<Rightarrow> ram \<Rightarrow> task heap \<Rightarrow> (string option \<times> task heap) res" where
  "gen_xml save fuel junk mem1 mem2 h =
     bindE (gen_doc fuel junk mem1 mem2 h) (\<lambda>(doc, h').
       case save doc of
         (sz, OpenFails) \<Rightarrow> Inr (None, h')
       | (sz, ReadFails) \<Rightarrow> Inr (Some (read_buf sz []), h')
       | (sz, Content c) \<Rightarrow> Inr (Some (read_buf sz c), h'))"

definition strlen :: "string \<Rightarrow> nat res" where
  "strlen buf =
     (if CHR 0x00 \<in> set buf then Inr (length (takeWhile (\<lambda>c. c \<noteq> CHR 0x00) buf)) else Inl Overflow)"

text \<open>One round of the accept loop: what is written to the connection. A null buffer is dereferenced.\<close>

definition serve ::
  "(xml \<Rightarrow> int \<times> tmp_file) \<Rightarrow> nat \<Rightarrow> junk \<Rightarrow> ram \<Rightarrow> ram \<Rightarrow> task heap \<Rightarrow> (string \<times> task heap) res" where
  "serve save fuel junk mem1 mem2 h =
     bindE (gen_xml save fuel junk mem1 mem2 h) (\<lambda>(buf, h').
       case buf of None \<Rightarrow> Inl Fault
       | Some b \<Rightarrow> bindE (strlen b) (\<lambda>n. Inr (take n b, h')))"

section \<open>Starting and stopping\<close>

record listener_state =
  is_listener_started :: bool
  listen_thread :: bool
  listenfd_open :: bool

definition no_listener :: listener_state where
  "no_listener = \<lparr>is_listener_started = False, listen_thread = False, listenfd_open = False\<rparr>"

text \<open>
  The thread up to its accept loop. \<open>ip\<close> is the address of \<open>eth0\<close> if the \<open>ioctl\<close> finds it;
  \<open>sock\<close> and \<open>bound\<close> tell whether \<open>socket\<close> and \<open>bind\<close> succeed. On failure the thread ends.
\<close>

definition listener_service ::
  "u32 option \<Rightarrow> bool \<Rightarrow> bool \<Rightarrow> listener_state \<Rightarrow> listener_state \<times> string" where
  "listener_service ip sock bound s =
     (let out = (case ip of None \<Rightarrow> ''failed to obtain the ip address'' @ nl
                 | Some a \<Rightarrow> ''Please connect to IP: '' @ inet_ntoa a @ '':50001'' @ nl) @ ''(qemu) ''
      in if \<not> sock then (s\<lparr>listen_thread := False\<rparr>, out)
         else if \<not> bound then (s\<lparr>listen_thread := False, listenfd_open := True\<rparr>, out)
         else (s\<lparr>listenfd_open := True\<rparr>, out))"

definition listener_start :: "bool \<Rightarrow> listener_state \<Rightarrow> listener_state \<times> string \<times> string" where
  "listener_start created s =
     (if is_listener_started s then (s, ''error: listener already started.'' @ nl, [])
      else if \<not> created then (s, [], ''Failed to create thread'' @ nl)
      else (s\<lparr>is_listener_started := True, listen_thread := True\<rparr>, ''listener started.'' @ nl @ nl, []))"

definition listener_stop :: "bool \<Rightarrow> bool \<Rightarrow> listener_state \<Rightarrow> listener_state \<times> string \<times> string" where
  "listener_stop cancelled joined s =
     (if \<not> is_listener_started s then (s, ''listener NOT started.'' @ nl, [])
      else if \<not> cancelled then (s, [], ''Failed to cancel thread'' @ nl)
      else if \<not> joined then (s\<lparr>listen_thread := False\<rparr>, [], ''Failed to join thread'' @ nl)
      else (s\<lparr>listen_thread := False, listenfd_open := False, is_listener_started := False\<rparr>,
            ''listener stopped.'' @ nl, []))"

inductive listener_step :: "listener_state \<Rightarrow> listener_state \<Rightarrow> bool" where
  start: "listener_start created s = (s', out, err) \<Longrightarrow> listener_step s s'"
| stop: "listener_stop cancelled joined s = (s', out, err) \<Longrightarrow> listener_step s s'"
| service: "listen_thread s \<Longrightarrow> \<not> listenfd_open s \<Longrightarrow> listener_service ip sock bound s = (s', out) \<Longrightarrow>
    listener_step s s'"

section \<open>Sizes of formatted numbers\<close>

lemma show_nat_length: "n < 10 ^ k \<Longrightarrow> 0 < k \<Longrightarrow> length (show_nat n) \<le> k"
proof (induction n arbitrary: k rule: show_nat.induct)
  case (1 n)
  show ?case
  proof (cases "n < 10")
    case True
    then show ?thesis using 1(3) by (subst show_nat.simps) simp
  next
    case False
    then have "k \<noteq> 1" using 1(2) by auto
    with 1(3) obtain j where k: "k = Suc j" "0 < j" by (cases k) auto
    with 1(2) have "n div 10 < 10 ^ j" by (simp add: less_mult_imp_div_less mult.commute)
    with 1(1) [OF False this k(2)] False k show ?thesis by (subst show_nat.simps) simp
  qed
qed

lemma fmt_1f_length:
  assumes "0 \<le> x" and "x \<le> 2 ^ 90"
  shows "length (fmt_1f x) \<le> 33"
proof -
  define t where "t = rne (10 * x)"
  have "t \<le> rne (10 * 2 ^ 90)"
    unfolding t_def by (rule rne_mono) (use assms(2) in simp)
  also have "\<dots> = 10 * 2 ^ 90"
    using rne_of_int [of "10 * 2 ^ 90"] by simp
  finally have "nat \<bar>t\<bar> div 10 < 10 ^ 30 \<or> t < 0" by auto
  moreover have "0 \<le> t"
    using rne_mono [of 0 "10 * x"] rne_of_int [of 0] assms(1) by (simp add: t_def)
  ultimately have "length (show_nat (nat \<bar>t\<bar> div 10)) \<le> 30"
    by (intro show_nat_length) auto
  moreover have "length (show_nat (nat \<bar>t\<bar> mod 10)) \<le> 1"
    by (rule show_nat_length) auto
  ultimately show ?thesis
    using assms(1) by (simp add: fmt_1f_def Let_def t_def [symmetric])
qed

lemma fl32_le_double: "0 \<le> x \<Longrightarrow> fl32 x \<le> 2 * x"
proof (cases "x = 0")
  case False
  assume "0 \<le> x"
  with False have "rnd 24 x - x \<le> x * 2 powi (- int 24)"
    using rnd_rel_error [of x 24] by linarith
  also have "\<dots> \<le> x" using \<open>0 \<le> x\<close> by (simp add: power_int_minus field_simps)
  finally show ?thesis by (simp add: fl32_def)
qed (simp add: fl32_def)

lemma fl32_unat:
  shows "0 \<le> fl32 (real (unat (x :: u64)))" and "fl32 (real (unat x)) \<le> 2 ^ 65"
    and "x \<noteq> 0 \<Longrightarrow> 1 \<le> fl32 (real (unat x))"
proof -
  have u: "real (unat x) < 2 ^ 64"
    using unat_less_u64 [of x] of_nat_less_iff [of "unat x" "2 ^ 64", where ?'a = real]
    by (simp del: of_nat_unat)
  show "0 \<le> fl32 (real (unat x))"
    unfolding fl32_def by (rule rnd_nonneg, rule of_nat_0_le_iff, simp)
  show "fl32 (real (unat x)) \<le> 2 ^ 65"
    using fl32_le_double [of "real (unat x)"] u by (simp del: of_nat_unat)
  assume "x \<noteq> 0"
  then have "1 \<le> real (unat x)" by (simp add: Suc_leI unat_gt_0 del: of_nat_unat)
  then have "rnd 24 1 \<le> rnd 24 (real (unat x))" by (intro rnd_mono) simp_all
  then show "1 \<le> fl32 (real (unat x))"
    using rnd_of_nat [of 1 24] by (simp add: fl32_def)
qed

lemma fl32_quotient_bound:
  assumes "0 \<le> x" and "x \<le> 2 ^ 80" and "1 \<le> t"
  shows "0 \<le> fl32 (x / t) \<and> fl32 (x / t) \<le> 2 ^ 81"
proof -
  have "x / t \<le> x / 1" by (rule divide_left_mono) (use assms in simp_all)
  then have q: "0 \<le> x / t" "x / t \<le> 2 ^ 80" using assms by simp_all
  have "2 * (x / t) \<le> 2 ^ 81" using q(2) by simp
  with q(1) fl32_le_double [OF q(1)] show ?thesis by (simp add: fl32_def rnd_nonneg)
qed

lemma percent_bound:
  fixes tot :: u64
  assumes "tot \<noteq> 0"
  shows "0 \<le> percent x (fl32 (real (unat tot))) \<and> percent x (fl32 (real (unat tot))) \<le> 2 ^ 81"
  unfolding percent_def
proof (rule fl32_quotient_bound)
  have a: "0 \<le> 100 * fl32 (real (unat x))" "100 * fl32 (real (unat x)) \<le> 2 ^ 72"
    using fl32_unat(1,2) [of x] by simp_all
  then show "0 \<le> fl32 (100 * fl32 (real (unat x)))" by (simp add: fl32_def rnd_nonneg)
  show "fl32 (100 * fl32 (real (unat x))) \<le> 2 ^ 80"
    using fl32_le_double [OF a(1)] a(2) by simp
  show "1 \<le> fl32 (real (unat tot))" by (rule fl32_unat(3) [OF assms])
qed

lemma usage_of_bound:
  assumes "i \<noteq> CPUTIME_TOTAL"
  shows "0 \<le> usage_of d old i \<and> usage_of d old i \<le> 2 ^ 90"
proof (cases "d CPUTIME_TOTAL = 0")
  case True
  then show ?thesis using assms by (cases i) (simp_all add: usage_of_def)
next
  case False
  have "(2 :: real) ^ 81 \<le> 2 ^ 90" by simp
  with usage_of_ticks [of d i old, OF False assms] percent_bound [OF False, of "ticks d i"]
  show ?thesis by linarith
qed

lemma usage_percent_bound:
  assumes "usage_percent a b = Finite x"
  shows "0 \<le> x \<and> x \<le> 2 ^ 90"
proof -
  let ?a = "fl32 (real (unat a))" and ?b = "fl32 (real (unat b))"
  have x: "x = fl32 (fl32 (?a / ?b) * 100)" and nz: "?b \<noteq> 0"
    using assms by (simp_all add: usage_percent_def Let_def split: if_splits)
  have "b \<noteq> 0" using nz by (auto simp: fl32_def)
  have "(2 :: real) ^ 65 \<le> 2 ^ 80" by simp
  with fl32_quotient_bound [OF fl32_unat(1) _ fl32_unat(3) [OF \<open>b \<noteq> 0\<close>], of a] fl32_unat(2) [of a]
  have q: "0 \<le> fl32 (?a / ?b)" "fl32 (?a / ?b) \<le> 2 ^ 81" by linarith+
  have "0 \<le> fl32 (?a / ?b) * 100" using q by simp
  from fl32_le_double [OF this] q have "x \<le> 2 ^ 90" by (simp add: x)
  moreover have "0 \<le> x" using q by (simp add: x fl32_def rnd_nonneg)
  ultimately show ?thesis by simp
qed

section \<open>The buffer holds every number\<close>

lemma sprintf_TMP: "length s < 128 \<Longrightarrow> sprintf_str TMP_LEN s = Inr s"
  by (simp add: sprintf_str_def TMP_LEN_def)

lemma mapE_no_overflow: "(\<And>x. x \<in> set xs \<Longrightarrow> f x \<noteq> Inl Overflow) \<Longrightarrow> mapE f xs \<noteq> Inl Overflow"
  by (induction xs) (auto simp: bindE_Inl_iff)

lemma mapE_Inr: "(\<And>x. x \<in> set xs \<Longrightarrow> f x = Inr (g x)) \<Longrightarrow> mapE f xs = Inr (map g xs)"
  by (induction xs) auto

text \<open>The children of a CPU element.\<close>

definition usage_leaves :: "usage_row \<Rightarrow> xml list" where
  "usage_leaves u =
     map (\<lambda>(name, i). xmlNewChild name (fmt_1f (u i) @ ''%''))
       [(''US'', CPUTIME_USER), (''SY'', CPUTIME_SYSTEM), (''ID'', CPUTIME_IDLE), (''NI'', CPUTIME_NICE),
        (''WA'', CPUTIME_IOWAIT), (''HI'', CPUTIME_IRQ), (''SI'', CPUTIME_SOFTIRQ), (''ST'', CPUTIME_STEAL)]"

lemma usage_nodes_eq:
  assumes "\<And>i. i \<noteq> CPUTIME_TOTAL \<Longrightarrow> 0 \<le> u i \<and> u i \<le> 2 ^ 90"
  shows "usage_nodes u = Inr (usage_leaves u)"
proof -
  have "sprintf_str TMP_LEN (fmt_1f (u i) @ ''%'') = Inr (fmt_1f (u i) @ ''%'')" if "i \<noteq> CPUTIME_TOTAL" for i
    using fmt_1f_length [of "u i"] assms [OF that] by (intro sprintf_TMP) simp
  then show ?thesis
    unfolding usage_nodes_def usage_leaves_def by (intro mapE_Inr) auto
qed

lemma cpu_node_eq:
  assumes "\<And>c i. c \<le> n \<Longrightarrow> i \<noteq> CPUTIME_TOTAL \<Longrightarrow> 0 \<le> (us ! c) i \<and> (us ! c) i \<le> 2 ^ 90" and "n \<le> 64"
  shows "cpu_node n us = Inr (Elem ''cpu-usage'' [] []
    (Elem ''average'' [] [] (usage_leaves (us ! n)) #
     map (\<lambda>c. Elem ''cpu'' [(''index'', show_nat c)] [] (usage_leaves (us ! c))) [0..<n]))"
proof -
  have rows: "usage_nodes (us ! c) = Inr (usage_leaves (us ! c))" if "c \<le> n" for c
    using assms(1) that by (intro usage_nodes_eq) auto
  have idx: "sprintf_str TMP_LEN (show_nat c) = Inr (show_nat c)" if "c < n" for c
    using show_nat_length [of c 2] that assms(2) by (intro sprintf_TMP) simp
  have "mapE (\<lambda>c. bindE (sprintf_str TMP_LEN (show_nat c)) (\<lambda>tmp.
                      bindE (usage_nodes (us ! c)) (\<lambda>ns. Inr (Elem ''cpu'' [(''index'', tmp)] [] ns)))) [0..<n]
      = Inr (map (\<lambda>c. Elem ''cpu'' [(''index'', show_nat c)] [] (usage_leaves (us ! c))) [0..<n])"
    by (rule mapE_Inr) (simp add: rows idx)
  then show ?thesis by (simp add: cpu_node_def rows)
qed

lemma fmt_lu_length: "length (fmt_lu w) \<le> 20"
  unfolding fmt_lu_def by (rule show_nat_length) (use unat_less_u64 [of w] in simp_all)

definition mem_leaves :: "mem_usage_stat \<Rightarrow> xml list" where
  "mem_leaves m = map (xmlNewChild ''MemTotal'')
     [fmt_lu (MemTotal m) @ '' kB'', fmt_lu (MemFree m) @ '' kB'', fmt_lu (Buffers m) @ '' kB'',
      fmt_lu (Cached m) @ '' kB'', fmt_float (mem_usage m) @ ''%'']"

lemma mem_node_eq:
  assumes "get_mem_usage fuel mem = Inr m"
  shows "mem_node m = Inr (Elem ''mem-usage'' [] [] (mem_leaves m))"
proof -
  obtain a b where "mem_usage m = usage_percent a b"
    using assms by (auto simp: get_mem_usage_def res_simps)
  then have "length (fmt_float (mem_usage m)) \<le> 33"
    using usage_percent_bound [of a b] fmt_1f_length by (auto simp: fmt_float_def split: float_value.splits)
  then have "mapE (\<lambda>t. bindE (sprintf_str TMP_LEN t) (\<lambda>tmp. Inr (xmlNewChild ''MemTotal'' tmp)))
      [fmt_lu (MemTotal m) @ '' kB'', fmt_lu (MemFree m) @ '' kB'', fmt_lu (Buffers m) @ '' kB'',
       fmt_lu (Cached m) @ '' kB'', fmt_float (mem_usage m) @ ''%''] = Inr (mem_leaves m)"
    unfolding mem_leaves_def
    using fmt_lu_length [of "MemTotal m"] fmt_lu_length [of "MemFree m"] fmt_lu_length [of "Buffers m"]
      fmt_lu_length [of "Cached m"]
    by (intro mapE_Inr) (auto simp: sprintf_TMP)
  then show ?thesis by (simp add: mem_node_def)
qed

lemma comp_cpu_usage_bound:
  assumes "get_cpu_num mem1 = Inr n" and "length stat = Suc n"
    and "comp_cpu_usage junk mem1 mem2 stat = Inr us" and "c \<le> n" and "i \<noteq> CPUTIME_TOTAL"
  shows "0 \<le> (us ! c) i \<and> (us ! c) i \<le> 2 ^ 90"
proof -
  obtain s1 s2 where s: "get_cpustat mem1 (replicate (n + 1) junk) n = Inr s1"
    "get_cpustat mem2 (replicate (n + 1) junk) n = Inr s2"
    using assms(1,3) by (auto simp: comp_cpu_usage_def res_simps)
  have "us ! c = usage_of (diff_row (s1 ! c) (s2 ! c)) (stat ! c)"
    using comp_cpu_usage_eq [OF assms(1,2) s] assms(3,4) by (metis sum.inject(2))
  then show ?thesis using usage_of_bound [OF assms(5)] by simp
qed

lemma gen_doc_eq:
  assumes "get_hostname fuel mem1 (j_host junk) h = Inr (hs, h')" and "get_cpu_num mem1 = Inr n"
    and "comp_cpu_usage (j_row junk) mem1 mem2 (replicate (n + 1) (j_usage junk)) = Inr us"
    and "get_mem_usage fuel mem2 = Inr ms"
  shows "gen_doc fuel junk mem1 mem2 h =
    Inr (Elem ''info'' [] []
           [host_node hs,
            Elem ''cpu-usage'' [] []
              (Elem ''average'' [] [] (usage_leaves (us ! n)) #
               map (\<lambda>c. Elem ''cpu'' [(''index'', show_nat c)] [] (usage_leaves (us ! c))) [0..<n]),
            Elem ''mem-usage'' [] [] (mem_leaves ms)], h')"
proof -
  have "n \<le> 64"
    using assms(2) cpu_bits_le by (auto simp: get_cpu_num_def res_simps)
  then have "cpu_node n us = Inr (Elem ''cpu-usage'' [] []
    (Elem ''average'' [] [] (usage_leaves (us ! n)) #
     map (\<lambda>c. Elem ''cpu'' [(''index'', show_nat c)] [] (usage_leaves (us ! c))) [0..<n]))"
    by (intro cpu_node_eq comp_cpu_usage_bound [OF assms(2) _ assms(3)]) auto
  with assms mem_node_eq [OF assms(4)] show ?thesis by (simp add: gen_doc_def)
qed

section \<open>The listener's states\<close>

definition listener_inv :: "listener_state \<Rightarrow> bool" where
  "listener_inv s \<longleftrightarrow>
     (listen_thread s \<longrightarrow> is_listener_started s) \<and> (listenfd_open s \<longrightarrow> is_listener_started s)"

lemma listener_inv_step: "listener_step s s' \<Longrightarrow> listener_inv s \<Longrightarrow> listener_inv s'"
  by (induction rule: listener_step.induct)
     (auto simp: listener_inv_def listener_start_def listener_stop_def listener_service_def Let_def
       split: if_splits)

inductive listener_reach :: "listener_state \<Rightarrow> bool" where
  init: "listener_reach no_listener"
| step: "listener_reach s \<Longrightarrow> listener_step s s' \<Longrightarrow> listener_reach s'"

lemma listener_reach_inv: "listener_reach s \<Longrightarrow> listener_inv s"
proof (induction rule: listener_reach.induct)
  case init
  then show ?case by (simp add: listener_inv_def no_listener_def)
next
  case (step s s')
  then show ?case by (blast intro: listener_inv_step)
qed

section \<open>A guest with one kernel thread and one processor\<close>

definition doc_ram :: ram where
  "doc_ram =
     put64 0x1c146a8 0xffffffff81c146a8 (put64 0x1c1471c 0 (put64 0x1d03dc0 1
     (put64 0x1d030a0 0xffff880000000000 (put64 0xe340 50 (put64 0x1d06228 1000
     (put64 0x1c6e520 0xffffffff81c6e520 (zram 0x2000000)))))))"

definition doc_junk :: junk where
  "doc_junk = \<lparr>j_host = \<lparr>sysname = [], nodename = [], release = [], version = [], machine = [], domainname = []\<rparr>,
     j_row = (\<lambda>i. 0), j_usage = (\<lambda>i. 0)\<rparr>"

lemma doc_ram_host: "\<exists>hs h'. get_hostname 3 doc_ram (j_host doc_junk) heap0 = Inr (hs, h')"
proof -
  have "read_task doc_ram (virt_to_phys INIT_TASK_GVA) = Inr \<lparr>t_pid = 0, t_name = [], t_cr3 = 0\<rparr>"
    "next_task_gva doc_ram (virt_to_phys INIT_TASK_GVA) = Inr INIT_TASK_GVA"
    by (simp_all add: task_eval doc_ram_def cong: bindE_weak_cong)
  then have "guest_tasks doc_ram [] [\<lparr>t_pid = 0, t_name = [], t_cr3 = 0\<rparr>]"
    by (simp add: guest_tasks_def task_chain_def)
  from obtain_cr3_guest [OF this, of 3 heap0] show ?thesis
    by (auto simp: get_hostname_def)
qed

lemma doc_ram_cpu:
  "get_cpu_num doc_ram = Inr 1"
  "\<exists>us. comp_cpu_usage (j_row doc_junk) doc_ram doc_ram (replicate (1 + 1) (j_usage doc_junk)) = Inr us"
proof -
  show n: "get_cpu_num doc_ram = Inr 1"
    by (simp add: get_cpu_num_def doc_ram_def layout_simps virt_to_phys_def cpu_bits.simps drop_bit_eq_div)
  have "\<exists>r. cpu_row_of doc_ram 0 (\<lambda>i. 0) = Inr r"
    by (simp add: cpu_row_of_def cpu_time_defs cpustat_at_def doc_ram_def layout_simps
        virt_to_phys_def ram_eval cong: bindE_weak_cong)
  with n show "\<exists>us. comp_cpu_usage (j_row doc_junk) doc_ram doc_ram (replicate (1 + 1) (j_usage doc_junk)) = Inr us"
    by (auto simp: comp_cpu_usage_def get_cpustat_def doc_junk_def Let_def numeral_2_eq_2)
qed

lemma doc_ram_mem: "\<exists>ms. get_mem_usage 3 doc_ram = Inr ms"
proof -
  have "rd64 doc_ram (virt_to_phys ALL_BDEVS_GVA) = Inr ALL_BDEVS_GVA"
    by (simp add: doc_ram_def layout_simps virt_to_phys_def)
  then have "getBuffers 3 doc_ram = Inr 0"
    by (simp add: getBuffers_def numeral_3_eq_3)
  moreover have "getMemSwapCache doc_ram = Inr 0"
    by (simp add: getMemSwapCache_def doc_ram_def layout_simps virt_to_phys_def ram_eval cong: bindE_weak_cong)
  moreover have "\<exists>x. getMemTotal doc_ram = Inr x" "\<exists>x. getMemFree doc_ram = Inr x" "\<exists>x. getMemFile doc_ram = Inr x"
    by (simp_all add: getMemTotal_def getMemFree_def getMemFile_def doc_ram_def layout_simps
        virt_to_phys_def NR_FREE_PAGES_def NR_FILE_PAGES_def ram_eval)
  ultimately show ?thesis by (auto simp: get_mem_usage_def getCached_def)
qed

section \<open>Properties\<close>



text \<open>
  A client receives the serialised document: if libxml reports the number of bytes it
  wrote, the file can be read back and has no NUL byte, the answer is the file's content.
\<close>

theorem serve_answers_document:
  assumes "gen_doc fuel junk mem1 mem2 h = Inr (doc, h')"
    and "save doc = (int (length c), Content c)" and "CHR 0x00 \<notin> set c"
  shows "serve save fuel junk mem1 mem2 h = Inr (c, h')"
proof -
  have b: "read_buf (int (length c)) c = c @ [CHR 0x00]"
    by (simp add: read_buf_def Let_def nat_add_distrib)
  have "takeWhile (\<lambda>x. x \<noteq> CHR 0x00) (c @ [CHR 0x00]) = c"
    using assms(3) by (auto simp: takeWhile_append)
  with b assms(1,2) show ?thesis by (simp add: serve_def gen_xml_def strlen_def)
qed

theorem serve_answers_document_witness:
  "\<exists>h'. serve (\<lambda>doc. (6, Content ''<info>'')) 3 doc_junk doc_ram doc_ram heap0 = Inr (''<info>'', h')"
proof -
  obtain hs h' us ms where "get_hostname 3 doc_ram (j_host doc_junk) heap0 = Inr (hs, h')"
    "comp_cpu_usage (j_row doc_junk) doc_ram doc_ram (replicate (1 + 1) (j_usage doc_junk)) = Inr us"
    "get_mem_usage 3 doc_ram = Inr ms"
    using doc_ram_host doc_ram_cpu(2) doc_ram_mem by blast
  then obtain doc where d: "gen_doc 3 doc_junk doc_ram doc_ram heap0 = Inr (doc, h')"
    using gen_doc_eq [OF _ doc_ram_cpu(1)] by blast
  show ?thesis
    using serve_answers_document [OF d, of "\<lambda>doc. (6, Content ''<info>'')" "''<info>''"] by simp
qed



end
