(* ===== verification/SyscallChecker.thy ===== *)
theory SyscallChecker
  imports KernelLayout CFormat
begin

text \<open>
  The integrity checker of the guest's system call table, \<open>plugin/syscall_checker.c\<close>:
  starting it copies the table, its thread compares table and copy every five seconds and
  repairs the table, stopping it cancels the thread. Commands, passes of the thread and the
  guest interleave, which is a step relation over the guest's memory and the checker's
  static variables.
\<close>

section \<open>State\<close>

record syscall_info =
  syscall_table_hva :: u64
  syscall_table_shadow :: "u64 list"
  syscall_table_size :: u32

text \<open>\<open>checker\<close> is the running thread with its parameter.\<close>

record checker_state =
  is_check_started :: bool
  checker :: "syscall_info option"

definition no_checker :: checker_state where
  "no_checker = \<lparr>is_check_started = False, checker = None\<rparr>"

text \<open>\<open>table[i]\<close> for a table of 8-byte entries and an \<open>unsigned int\<close> index.\<close>

definition slot :: "u64 \<Rightarrow> u32 \<Rightarrow> u64" where
  "slot base i = base + 8 * ucast i"

section \<open>One pass of the thread\<close>

text \<open>The comparison reads past the copy when the guest's table has become longer than it.\<close>

fun check_entries :: "nat \<Rightarrow> u64 \<Rightarrow> u64 list \<Rightarrow> u32 \<Rightarrow> ram \<Rightarrow> (ram \<times> u32 list) res" where
  "check_entries 0 tbl shadow sys_num mem = Inl NoFuel"
| "check_entries (Suc fuel) tbl shadow sys_num mem =
     bindE (rd64 mem (slot tbl sys_num)) (\<lambda>e.
       if e = 0 then Inr (mem, [])
       else if length shadow \<le> unat sys_num then Inl Overflow
       else if e \<noteq> shadow ! unat sys_num
       then bindE (wr64 mem (slot tbl sys_num) (shadow ! unat sys_num)) (\<lambda>mem'.
            bindE (check_entries fuel tbl shadow (sys_num + 1) mem') (\<lambda>(mem'', alerts).
              Inr (mem'', sys_num # alerts)))
       else check_entries fuel tbl shadow (sys_num + 1) mem)"

definition alert_line :: "u32 \<Rightarrow> string" where
  "alert_line i = nl @ ''ALERT: syscall hook detected on '' @ show_nat (unat i) @ nl @ ''(qemu) ''"

definition thread_func :: "nat \<Rightarrow> ram \<Rightarrow> syscall_info \<Rightarrow> (ram \<times> string) res" where
  "thread_func fuel mem info =
     bindE (check_entries fuel (syscall_table_hva info) (syscall_table_shadow info) 0 mem)
       (\<lambda>(mem', alerts). Inr (mem', concat (map alert_line alerts)))"

section \<open>Start and stop\<close>

fun table_len :: "nat \<Rightarrow> ram \<Rightarrow> u64 \<Rightarrow> u32 \<Rightarrow> u32 res" where
  "table_len 0 mem tbl n = Inl NoFuel"
| "table_len (Suc fuel) mem tbl n =
     bindE (rd64 mem (slot tbl n)) (\<lambda>e. if e = 0 then Inr n else table_len fuel mem tbl (n + 1))"

text \<open>\<open>memcpy\<close> of a whole number of table entries.\<close>

primrec rd_words :: "ram \<Rightarrow> u64 \<Rightarrow> nat \<Rightarrow> u64 list res" where
  "rd_words mem a 0 = Inr []"
| "rd_words mem a (Suc n) = bindE (rd64 mem a) (\<lambda>x. bindE (rd_words mem (a + 8) n) (\<lambda>xs. Inr (x # xs)))"

text \<open>
  \<open>created\<close>, \<open>cancelled\<close> and \<open>joined\<close>: whether \<open>pthread_create\<close>, \<open>pthread_cancel\<close> and
  \<open>pthread_join\<close> return 0. The outputs are the monitor's and \<open>stdout\<close>.
\<close>

definition syscall_checker_start ::
  "nat \<Rightarrow> bool \<Rightarrow> ram \<Rightarrow> checker_state \<Rightarrow> (checker_state \<times> string \<times> string) res" where
  "syscall_checker_start fuel created mem s =
     (if is_check_started s
      then Inr (s, ''error: system call checker already started.'' @ nl, [])
      else let tbl = virt_to_phys SYSTEM_CALL_GVA
           in bindE (table_len fuel mem tbl 0) (\<lambda>n.
              let size = n * 8
              in bindE (rd_words mem tbl (unat size div 8)) (\<lambda>shadow.
                 let info = \<lparr>syscall_table_hva = tbl, syscall_table_shadow = shadow,
                             syscall_table_size = size\<rparr>
                 in if created
                    then Inr (s\<lparr>is_check_started := True, checker := Some info\<rparr>,
                              ''system call checker started.'' @ nl @ nl, [])
                    else Inr (s, [], ''Failed to create thread'' @ nl))))"

definition syscall_checker_stop ::
  "bool \<Rightarrow> bool \<Rightarrow> checker_state \<Rightarrow> checker_state \<times> string \<times> string" where
  "syscall_checker_stop cancelled joined s =
     (if \<not> is_check_started s then (s, ''system call checker NOT started.'' @ nl, [])
      else if \<not> cancelled then (s, [], ''Failed to cancel thread'' @ nl)
      else if \<not> joined then (s\<lparr>checker := None\<rparr>, [], ''Failed to join thread'' @ nl)
      else (s\<lparr>checker := None\<rparr>, ''system call checker stopped.'' @ nl, []))"

section \<open>Interleaving\<close>

inductive checker_step :: "ram \<times> checker_state \<Rightarrow> ram \<times> checker_state \<Rightarrow> bool" where
  guest: "dom mem' = dom mem \<Longrightarrow> checker_step (mem, s) (mem', s)"
| start: "syscall_checker_start fuel created mem s = Inr (s', out, err) \<Longrightarrow>
    checker_step (mem, s) (mem, s')"
| stop: "syscall_checker_stop cancelled joined s = (s', out, err) \<Longrightarrow>
    checker_step (mem, s) (mem, s')"
| pass: "checker s = Some info \<Longrightarrow> thread_func fuel mem info = Inr (mem', out) \<Longrightarrow>
    checker_step (mem, s) (mem', s)"

inductive_cases checker_stepE: "checker_step (mem, s) q"

inductive checker_steps :: "ram \<times> checker_state \<Rightarrow> ram \<times> checker_state \<Rightarrow> bool" where
  refl: "checker_steps p p"
| step: "checker_steps p q \<Longrightarrow> checker_step q r \<Longrightarrow> checker_steps p r"

section \<open>Table entries\<close>

lemma slot_of_nat: "i < 2 ^ 32 \<Longrightarrow> slot b (of_nat i) = b + of_nat (8 * i)"
  by (simp add: slot_def unsigned_of_nat take_bit_nat_eq_self)

lemma slot_disjoint:
  assumes "i < 2 ^ 32" and "j < 2 ^ 32" and "i \<noteq> j"
  shows "8 \<le> slot b (of_nat i) - slot b (of_nat j)"
proof -
  have pos: "8 \<le> (of_nat (8 * k) :: u64)" and neg: "8 \<le> - (of_nat (8 * k) :: u64)"
    if "0 < k" "k < 2 ^ 32" for k
  proof -
    have u: "unat (of_nat (8 * k) :: u64) = 8 * k"
      using that by (subst unat_of_nat) simp
    with that show "8 \<le> (of_nat (8 * k) :: u64)"
      by (simp only: word_le_nat_alt) simp
    have "unat (- (of_nat (8 * k) :: u64)) = 2 ^ 64 - 8 * k"
      using u that unat_sub_if' [of 0 "of_nat (8 * k) :: u64"] by (simp del: of_nat_mult)
    with that show "8 \<le> - (of_nat (8 * k) :: u64)"
      by (simp only: word_le_nat_alt) simp
  qed
  show ?thesis
  proof (cases "j < i")
    case True
    then have "slot b (of_nat i) - slot b (of_nat j) = of_nat (8 * (i - j))"
      using assms by (simp add: slot_of_nat of_nat_diff algebra_simps)
    with pos [of "i - j"] True assms show ?thesis by (simp only:)
  next
    case False
    then have "slot b (of_nat i) - slot b (of_nat j) = - of_nat (8 * (j - i))"
      using assms by (simp add: slot_of_nat of_nat_diff algebra_simps)
    with neg [of "j - i"] False assms show ?thesis by (simp only:)
  qed
qed

text \<open>
  \<open>table_from mem tbl vs k\<close>: from index \<open>k\<close> on, the zero-terminated table at \<open>tbl\<close> has the
  entries \<open>vs\<close>. A table of 2 to the 29 entries or more would overflow the 32-bit size.
\<close>

definition table_from :: "ram \<Rightarrow> u64 \<Rightarrow> u64 list \<Rightarrow> nat \<Rightarrow> bool" where
  "table_from mem tbl vs k \<longleftrightarrow>
     length vs < 2 ^ 29 \<and>
     (\<forall>i. k \<le> i \<longrightarrow> i < length vs \<longrightarrow> rd64 mem (slot tbl (of_nat i)) = Inr (vs ! i) \<and> vs ! i \<noteq> 0) \<and>
     rd64 mem (slot tbl (of_nat (length vs))) = Inr 0"

definition table_is :: "ram \<Rightarrow> u64 \<Rightarrow> u64 list \<Rightarrow> bool" where
  "table_is mem tbl vs \<longleftrightarrow> table_from mem tbl vs 0"

lemma table_from_nth:
  assumes "table_from mem tbl vs k" and "k \<le> i" and "i < length vs"
  shows "rd64 mem (slot tbl (of_nat i)) = Inr (vs ! i)" and "vs ! i \<noteq> 0"
  using assms by (auto simp: table_from_def)

lemma table_from_Suc: "table_from mem tbl vs k \<Longrightarrow> table_from mem tbl vs (Suc k)"
  by (simp add: table_from_def)

lemma unat_of_nat32: "i < 2 ^ 29 \<Longrightarrow> unat (of_nat i :: u32) = i"
  by (subst unat_of_nat) simp

lemma table_len_table:
  "table_from mem tbl vs k \<Longrightarrow> k \<le> length vs \<Longrightarrow> length vs - k < fuel \<Longrightarrow>
     table_len fuel mem tbl (of_nat k) = Inr (of_nat (length vs))"
proof (induction fuel arbitrary: k)
  case 0
  then show ?case by simp
next
  case (Suc fuel)
  show ?case
  proof (cases "k = length vs")
    case True
    with Suc.prems show ?thesis by (simp add: table_from_def)
  next
    case False
    with Suc.prems have k: "k < length vs" by simp
    have "of_nat k + 1 = (of_nat (Suc k) :: u32)" by simp
    with Suc.IH [of "Suc k"] k Suc.prems show ?thesis
      by (simp add: table_from_nth [OF Suc.prems(1) order_refl k] table_from_Suc add.commute)
  qed
qed

lemma slot_Suc: "k < 2 ^ 31 \<Longrightarrow> slot tbl (of_nat k) + 8 = slot tbl (of_nat (Suc k))"
  by (simp add: slot_of_nat del: of_nat_Suc)

lemma rd_words_table:
  "table_from mem tbl vs k \<Longrightarrow> k \<le> length vs \<Longrightarrow>
     rd_words mem (slot tbl (of_nat k)) (length vs - k) = Inr (drop k vs)"
proof (induction "length vs - k" arbitrary: k)
  case 0
  then show ?case by simp
next
  case (Suc n)
  then have k: "k < length vs" and n: "length vs - k = Suc (length vs - Suc k)" by simp_all
  have "k < 2 ^ 31" using k Suc.prems(1) by (simp add: table_from_def)
  moreover have "rd_words mem (slot tbl (of_nat (Suc k))) (length vs - Suc k) = Inr (drop (Suc k) vs)"
    by (rule Suc.hyps(1)) (use Suc.hyps(2) Suc.prems(1) k table_from_Suc in simp_all)
  ultimately show ?case
    by (simp only: n rd_words.simps slot_Suc)
       (simp add: table_from_nth [OF Suc.prems(1) order_refl k] Cons_nth_drop_Suc [OF k])
qed

section \<open>What a pass does\<close>

text \<open>The indices at which the table \<open>vs\<close> differs from the copy \<open>ws\<close>, from \<open>k\<close> on.\<close>

definition hooked :: "u64 list \<Rightarrow> u64 list \<Rightarrow> nat \<Rightarrow> nat list" where
  "hooked vs ws k = filter (\<lambda>i. vs ! i \<noteq> ws ! i) [k..<length ws]"

lemma hooked_Cons:
  "k < length ws \<Longrightarrow> hooked vs ws k = (if vs ! k \<noteq> ws ! k then k # hooked vs ws (Suc k) else hooked vs ws (Suc k))"
  by (simp add: hooked_def upt_conv_Cons)

text \<open>Words that no table entry from \<open>k\<close> on overlaps.\<close>

definition apart :: "u64 \<Rightarrow> nat \<Rightarrow> nat \<Rightarrow> u64 \<Rightarrow> bool" where
  "apart tbl k n b \<longleftrightarrow> (\<forall>i. k \<le> i \<longrightarrow> i < n \<longrightarrow> 8 \<le> b - slot tbl (of_nat i) \<and> 8 \<le> slot tbl (of_nat i) - b)"

lemma apart_slot: "n < 2 ^ 29 \<Longrightarrow> j < k \<or> n \<le> j \<Longrightarrow> j < 2 ^ 29 \<Longrightarrow> apart tbl k n (slot tbl (of_nat j))"
  by (auto simp: apart_def intro!: slot_disjoint)

lemma check_entries_restores:
  assumes "table_from mem tbl vs k" and "length ws = length vs" and "k \<le> length vs"
    and "length vs - k < fuel"
  shows "\<exists>mem'. check_entries fuel tbl ws (of_nat k) mem = Inr (mem', map of_nat (hooked vs ws k)) \<and>
    (\<forall>i. k \<le> i \<longrightarrow> i < length vs \<longrightarrow> rd64 mem' (slot tbl (of_nat i)) = Inr (ws ! i)) \<and>
    (\<forall>b. apart tbl k (length vs) b \<longrightarrow> rd64 mem' b = rd64 mem b)"
  using assms
proof (induction fuel arbitrary: k mem)
  case 0
  then show ?case by simp
next
  case (Suc fuel)
  have len: "length vs < 2 ^ 29" using Suc.prems(1) by (simp add: table_from_def)
  show ?case
  proof (cases "k = length vs")
    case True
    then show ?thesis using Suc.prems by (simp add: table_from_def hooked_def)
  next
    case False
    with Suc.prems have k: "k < length vs" and k29: "k < 2 ^ 29" using len by simp_all
    note e = table_from_nth [OF Suc.prems(1) order_refl k]
    have suc: "of_nat k + 1 = (of_nat (Suc k) :: u32)" by (simp add: add.commute)
    define m1 where "m1 = (if vs ! k \<noteq> ws ! k then put64 (slot tbl (of_nat k)) (ws ! k) mem else mem)"
    have fr: "rd64 m1 b = rd64 mem b" if "apart tbl k (length vs) b" for b
      using that k by (simp add: m1_def apart_def)
    have other: "rd64 m1 (slot tbl (of_nat j)) = rd64 mem (slot tbl (of_nat j))" if "k < j" "j < 2 ^ 29" for j
      using slot_disjoint [of j k] slot_disjoint [of k j] that k29 by (simp add: m1_def)
    have "table_from m1 tbl vs (Suc k)"
      using Suc.prems(1) k len by (simp add: table_from_def other)
    moreover have "Suc k \<le> length vs" "length vs - Suc k < fuel" using k Suc.prems(4) by simp_all
    ultimately obtain m2
      where m2: "check_entries fuel tbl ws (of_nat (Suc k)) m1 = Inr (m2, map of_nat (hooked vs ws (Suc k)))"
        "\<forall>i. Suc k \<le> i \<longrightarrow> i < length vs \<longrightarrow> rd64 m2 (slot tbl (of_nat i)) = Inr (ws ! i)"
        "\<forall>b. apart tbl (Suc k) (length vs) b \<longrightarrow> rd64 m2 b = rd64 m1 b"
      using Suc.IH [OF _ Suc.prems(2)] by blast
    have sk: "rd64 m2 (slot tbl (of_nat k)) = Inr (ws ! k)"
      using m2(3) [rule_format, OF apart_slot, of k] len k29 e by (simp add: m1_def)
    have "check_entries (Suc fuel) tbl ws (of_nat k) mem = Inr (m2, map of_nat (hooked vs ws k))"
      using m2(1) wr64_of_rd64 [OF e(1), of "ws ! k"] k Suc.prems(2)
      by (auto simp: e unat_of_nat32 [OF k29] suc m1_def hooked_Cons del: of_nat_Suc split: if_splits)
    moreover have "rd64 m2 (slot tbl (of_nat i)) = Inr (ws ! i)" if "k \<le> i" "i < length vs" for i
      using sk m2(2) that by (cases "i = k") auto
    moreover have "rd64 m2 b = rd64 mem b" if "apart tbl k (length vs) b" for b
      using m2(3) fr that by (simp add: apart_def)
    ultimately show ?thesis by blast
  qed
qed

text \<open>Starting on a table \<open>vs\<close> makes \<open>vs\<close> the copy.\<close>

lemma start_copies:
  assumes "table_is mem (virt_to_phys SYSTEM_CALL_GVA) vs" and "length vs < fuel"
    and "\<not> is_check_started s"
  shows "syscall_checker_start fuel True mem s =
    Inr (s\<lparr>is_check_started := True, checker := Some
           \<lparr>syscall_table_hva = virt_to_phys SYSTEM_CALL_GVA, syscall_table_shadow = vs,
            syscall_table_size = of_nat (8 * length vs)\<rparr>\<rparr>,
         ''system call checker started.'' @ nl @ nl, [])"
proof -
  let ?b = "virt_to_phys SYSTEM_CALL_GVA"
  have t: "table_from mem ?b vs 0" and len: "length vs < 2 ^ 29"
    using assms(1) by (simp_all add: table_is_def table_from_def)
  have "table_len fuel mem ?b 0 = Inr (of_nat (length vs))"
    using table_len_table [OF t] assms(2) by simp
  moreover have "unat (of_nat (length vs) * 8 :: u32) = length vs * 8"
    using len unat_of_nat [of "length vs * 8", where ?'a = 32] by simp
  moreover have "rd_words mem ?b (length vs) = Inr vs"
    using rd_words_table [OF t] by (simp add: slot_def)
  ultimately show ?thesis
    using assms(3) by (simp add: syscall_checker_start_def Let_def mult.commute)
qed

lemma started_step: "checker_step p q \<Longrightarrow> is_check_started (snd p) \<Longrightarrow> is_check_started (snd q)"
  by (induction rule: checker_step.induct)
     (auto simp: syscall_checker_start_def syscall_checker_stop_def split: if_splits)

lemma started_steps: "checker_steps p q \<Longrightarrow> is_check_started (snd p) \<Longrightarrow> is_check_started (snd q)"
  by (induction rule: checker_steps.induct) (auto dest: started_step)

text \<open>A thread runs only while the flag is set, on the table's address and a copy without zeros.\<close>

definition checker_inv :: "checker_state \<Rightarrow> bool" where
  "checker_inv s \<longleftrightarrow>
     (\<forall>info. checker s = Some info \<longrightarrow>
        is_check_started s \<and> syscall_table_hva info = virt_to_phys SYSTEM_CALL_GVA \<and>
        length (syscall_table_shadow info) = unat (syscall_table_size info) div 8)"

lemma length_rd_words: "rd_words mem a n = Inr xs \<Longrightarrow> length xs = n"
  by (induction n arbitrary: a xs) (auto simp: res_simps)

lemma checker_inv_step: "checker_step p q \<Longrightarrow> checker_inv (snd p) \<Longrightarrow> checker_inv (snd q)"
  by (induction rule: checker_step.induct)
     (auto simp: checker_inv_def syscall_checker_start_def syscall_checker_stop_def Let_def res_simps
       length_rd_words split: if_splits)

lemma checker_inv_steps: "checker_steps p q \<Longrightarrow> checker_inv (snd p) \<Longrightarrow> checker_inv (snd q)"
  by (induction rule: checker_steps.induct) (auto dest: checker_inv_step)

section \<open>A guest with two system calls\<close>

definition sys_ram :: "u64 \<Rightarrow> ram" where
  "sys_ram f = put64 0x1801420 0xffffffff81000010 (put64 0x1801428 f (zram 0x2000000))"

lemma sys_ram_table:
  "f \<noteq> 0 \<Longrightarrow> table_is (sys_ram f) (virt_to_phys SYSTEM_CALL_GVA) [0xffffffff81000010, f]"
  by (simp add: table_is_def table_from_def sys_ram_def slot_def layout_simps virt_to_phys_def
      less_Suc_eq ram_eval)

section \<open>Properties\<close>

text \<open>
  C15. The checker restores the table: started on a guest whose table is \<open>vs\<close>, it later finds
  the table \<open>vs'\<close>, hooked in any entries but with as many of them; then one pass terminates,
  raises exactly one alert per modified entry in ascending order, leaves the table as it was
  at the start and changes no word outside it.
\<close>

theorem checker_restores_table:
  assumes "table_is mem (virt_to_phys SYSTEM_CALL_GVA) vs" and "length vs < fuel"
    and "\<not> is_check_started s"
    and "table_is mem1 (virt_to_phys SYSTEM_CALL_GVA) vs'" and "length vs' = length vs"
  shows "\<exists>s' out info mem2. syscall_checker_start fuel True mem s = Inr (s', out, []) \<and>
    checker s' = Some info \<and>
    thread_func fuel mem1 info =
      Inr (mem2, concat (map (\<lambda>i. alert_line (of_nat i)) (filter (\<lambda>i. vs' ! i \<noteq> vs ! i) [0..<length vs]))) \<and>
    table_is mem2 (virt_to_phys SYSTEM_CALL_GVA) vs \<and>
    (\<forall>b. apart (virt_to_phys SYSTEM_CALL_GVA) 0 (length vs) b \<longrightarrow> rd64 mem2 b = rd64 mem1 b)"
proof -
  let ?b = "virt_to_phys SYSTEM_CALL_GVA"
  have t: "table_from mem1 ?b vs' 0" and len: "length vs < 2 ^ 29" and nz: "\<forall>i<length vs. vs ! i \<noteq> 0"
    and z: "rd64 mem1 (slot ?b (of_nat (length vs))) = Inr 0"
    using assms(1,4,5) by (simp_all add: table_is_def table_from_def)
  obtain mem2 where p: "check_entries fuel ?b vs 0 mem1 = Inr (mem2, map of_nat (hooked vs' vs 0))"
    and r: "\<forall>i<length vs. rd64 mem2 (slot ?b (of_nat i)) = Inr (vs ! i)"
    and f: "\<forall>b. apart ?b 0 (length vs) b \<longrightarrow> rd64 mem2 b = rd64 mem1 b"
    using check_entries_restores [OF t, of vs fuel] assms(2,5) by auto
  have "rd64 mem2 (slot ?b (of_nat (length vs))) = Inr 0"
    using f [rule_format, OF apart_slot] len z by simp
  then have "table_is mem2 ?b vs"
    using r nz len by (simp add: table_is_def table_from_def)
  with f p start_copies [OF assms(1-3)] show ?thesis
    by (simp add: thread_func_def hooked_def comp_def)
qed

theorem checker_restores_table_witness:
  "\<exists>s' out info mem2. syscall_checker_start 3 True (sys_ram 0xffffffff81000020) no_checker = Inr (s', out, []) \<and>
     checker s' = Some info \<and> thread_func 3 (sys_ram 0xffffffffa0000000) info = Inr (mem2, alert_line 1) \<and>
     table_is mem2 (virt_to_phys SYSTEM_CALL_GVA) [0xffffffff81000010, 0xffffffff81000020]"
  using checker_restores_table [OF sys_ram_table [of "0xffffffff81000020"] _ _
      sys_ram_table [of "0xffffffffa0000000"], of 3 no_checker]
  by (auto simp: no_checker_def)

text \<open>
  In every interleaving of commands, passes and guest activity, a checker thread exists
  only while \<open>is_check_started\<close> is set, works on the guest's system call table, and its copy
  has the recorded size.
\<close>

theorem checker_invariant:
  assumes "checker_steps (mem, no_checker) (mem', s)"
  shows "checker_inv s"
  using checker_inv_steps [OF assms] by (simp add: checker_inv_def no_checker_def)

theorem checker_invariant_witness:
  "\<exists>mem' s. checker_steps (sys_ram 1, no_checker) (mem', s) \<and> checker s \<noteq> None \<and> checker_inv s"
proof -
  obtain s' out where st: "syscall_checker_start 3 True (sys_ram 1) no_checker = Inr (s', out, [])"
    and c: "checker s' \<noteq> None"
    using start_copies [OF sys_ram_table [of 1], of 3 no_checker] by (auto simp: no_checker_def)
  have r: "checker_steps (sys_ram 1, no_checker) (sys_ram 1, s')"
    by (rule checker_steps.step [OF checker_steps.refl]) (rule checker_step.start [OF st])
  from checker_invariant [OF r] r c show ?thesis by blast
qed

text \<open>
  C35. The checker cannot be started twice, and not even restarted: once a start has
  succeeded, whatever happens next, stops included, every later start is refused as already
  started and changes nothing.
\<close>

theorem checker_never_restarts:
  assumes "syscall_checker_start fuel True mem s = Inr (s1, out, [])"
    and "checker_steps (mem, s1) (mem2, s2)"
  shows "syscall_checker_start fuel' created mem2 s2 =
    Inr (s2, ''error: system call checker already started.'' @ nl, [])"
proof -
  have "is_check_started s1"
    using assms(1) by (auto simp: syscall_checker_start_def Let_def res_simps split: if_splits)
  with started_steps [OF assms(2)] have "is_check_started s2" by simp
  then show ?thesis by (simp add: syscall_checker_start_def)
qed

theorem checker_never_restarts_witness:
  "\<exists>s1 out s2. syscall_checker_start 3 True (sys_ram 1) no_checker = Inr (s1, out, []) \<and>
     syscall_checker_stop True True s1 = (s2, ''system call checker stopped.'' @ nl, []) \<and>
     syscall_checker_start 3 True (sys_ram 1) s2 =
       Inr (s2, ''error: system call checker already started.'' @ nl, [])"
proof -
  obtain s1 out where st: "syscall_checker_start 3 True (sys_ram 1) no_checker = Inr (s1, out, [])"
    and c: "is_check_started s1"
    using start_copies [OF sys_ram_table [of 1], of 3 no_checker] by (auto simp: no_checker_def)
  define s2 where "s2 = s1\<lparr>checker := None\<rparr>"
  have sp: "syscall_checker_stop True True s1 = (s2, ''system call checker stopped.'' @ nl, [])"
    using c by (simp add: syscall_checker_stop_def s2_def)
  have r: "checker_steps (sys_ram 1, s1) (sys_ram 1, s2)"
    by (rule checker_steps.step [OF checker_steps.refl]) (rule checker_step.stop [OF sp])
  from checker_never_restarts [OF st r] st sp show ?thesis by blast
qed

end
