(* ===== verification/Qdict.thy ===== *)
theory Qdict
  imports GuestRam CFormat
begin

text \<open>
  QEMU's dynamically typed objects, dictionaries and lists: \<open>qobject/qdict.c\<close> and
  \<open>qobject/qlist.c\<close>, with the prefix test of \<open>util/cutils.c\<close>. Monitor commands receive their
  arguments in such a dictionary. A dictionary is a hash table with 512 chains; an entry is
  identified by its key. Objects are values, so reference counts are not modelled.
\<close>

section \<open>Objects\<close>

datatype 'v qdict = QDict_of (qdict_sz: u64) (qdict_table: "(string \<times> 'v) list list")

datatype qobject =
    QInt "64 word" | QString string | QDict "qobject qdict" | QList "qobject list"
  | QFloat real | QBool "32 word" | QError

datatype qtype_code = QTYPE_QINT | QTYPE_QSTRING | QTYPE_QDICT | QTYPE_QLIST | QTYPE_QFLOAT | QTYPE_QBOOL | QTYPE_QERROR

fun qobject_type :: "qobject \<Rightarrow> qtype_code" where
  "qobject_type (QInt _) = QTYPE_QINT"
| "qobject_type (QString _) = QTYPE_QSTRING"
| "qobject_type (QDict _) = QTYPE_QDICT"
| "qobject_type (QList _) = QTYPE_QLIST"
| "qobject_type (QFloat _) = QTYPE_QFLOAT"
| "qobject_type (QBool _) = QTYPE_QBOOL"
| "qobject_type QError = QTYPE_QERROR"

section \<open>Hashing and chains\<close>

definition QDICT_BUCKET_MAX :: nat where
  "QDICT_BUCKET_MAX = 512"

fun tdb_loop :: "string \<Rightarrow> u32 \<Rightarrow> u32 \<Rightarrow> u32" where
  "tdb_loop [] i val = val"
| "tdb_loop (c # cs) i val =
     tdb_loop cs (i + 1) (val + push_bit (unat (i * 5 mod 24)) (of_nat (of_char c)))"

text \<open>The initial value is a 64-bit product stored in a 32-bit variable.\<close>

definition tdb_hash :: "string \<Rightarrow> u32" where
  "tdb_hash name =
     1103515243 * tdb_loop name 0 (ucast (0x238F13AF * of_nat (length name) :: u64)) + 12345"

definition bucket_of :: "string \<Rightarrow> nat" where
  "bucket_of key = unat (tdb_hash key) mod QDICT_BUCKET_MAX"

fun chain_find :: "string \<Rightarrow> (string \<times> 'v) list \<Rightarrow> (string \<times> 'v) option" where
  "chain_find key [] = None"
| "chain_find key (e # es) = (if fst e = key then Some e else chain_find key es)"

fun chain_set :: "string \<Rightarrow> 'v \<Rightarrow> (string \<times> 'v) list \<Rightarrow> (string \<times> 'v) list" where
  "chain_set key v [] = []"
| "chain_set key v (e # es) = (if fst e = key then (fst e, v) # es else e # chain_set key v es)"

fun chain_remove :: "string \<Rightarrow> (string \<times> 'v) list \<Rightarrow> (string \<times> 'v) list" where
  "chain_remove key [] = []"
| "chain_remove key (e # es) = (if fst e = key then es else e # chain_remove key es)"

section \<open>Dictionary operations\<close>

definition qdict_new :: "'v qdict" where
  "qdict_new = QDict_of 0 (replicate QDICT_BUCKET_MAX [])"

definition qdict_find :: "'v qdict \<Rightarrow> string \<Rightarrow> nat \<Rightarrow> (string \<times> 'v) option" where
  "qdict_find qdict key bucket = chain_find key (qdict_table qdict ! bucket)"

definition qdict_put_obj :: "'v qdict \<Rightarrow> string \<Rightarrow> 'v \<Rightarrow> 'v qdict" where
  "qdict_put_obj qdict key val =
     (let bucket = bucket_of key; t = qdict_table qdict in
      case qdict_find qdict key bucket of
        Some e \<Rightarrow> QDict_of (qdict_sz qdict) (t[bucket := chain_set key val (t ! bucket)])
      | None \<Rightarrow> QDict_of (qdict_sz qdict + 1) (t[bucket := (key, val) # t ! bucket]))"

definition qdict_get :: "'v qdict \<Rightarrow> string \<Rightarrow> 'v option" where
  "qdict_get qdict key =
     (case qdict_find qdict key (bucket_of key) of None \<Rightarrow> None | Some e \<Rightarrow> Some (snd e))"

definition qdict_haskey :: "'v qdict \<Rightarrow> string \<Rightarrow> int" where
  "qdict_haskey qdict key =
     (case qdict_find qdict key (bucket_of key) of None \<Rightarrow> 0 | Some _ \<Rightarrow> 1)"

definition qdict_size :: "'v qdict \<Rightarrow> u64" where
  "qdict_size qdict = qdict_sz qdict"

definition qdict_del :: "'v qdict \<Rightarrow> string \<Rightarrow> 'v qdict" where
  "qdict_del qdict key =
     (let bucket = bucket_of key; t = qdict_table qdict in
      case qdict_find qdict key bucket of
        Some e \<Rightarrow> QDict_of (qdict_sz qdict - 1) (t[bucket := chain_remove key (t ! bucket)])
      | None \<Rightarrow> qdict)"

text \<open>Typed access; a failed assertion aborts.\<close>

definition qdict_get_obj :: "qobject qdict \<Rightarrow> string \<Rightarrow> qtype_code \<Rightarrow> qobject res" where
  "qdict_get_obj qdict key ty =
     (case qdict_get qdict key of None \<Rightarrow> Inl Abort
      | Some obj \<Rightarrow> if qobject_type obj = ty then Inr obj else Inl Abort)"

definition qdict_get_double :: "qobject qdict \<Rightarrow> string \<Rightarrow> real res" where
  "qdict_get_double qdict key =
     (case qdict_get qdict key of
        None \<Rightarrow> Inl Abort
      | Some (QFloat x) \<Rightarrow> Inr x
      | Some (QInt i) \<Rightarrow> Inr (if 0 \<le> sint i then fl64 (of_int (sint i)) else - fl64 (- of_int (sint i)))
      | Some _ \<Rightarrow> Inl Abort)"

definition qdict_get_int :: "qobject qdict \<Rightarrow> string \<Rightarrow> 64 word res" where
  "qdict_get_int qdict key =
     bindE (qdict_get_obj qdict key QTYPE_QINT) (\<lambda>obj. case obj of QInt i \<Rightarrow> Inr i | _ \<Rightarrow> Inl Abort)"

definition qdict_get_bool :: "qobject qdict \<Rightarrow> string \<Rightarrow> 32 word res" where
  "qdict_get_bool qdict key =
     bindE (qdict_get_obj qdict key QTYPE_QBOOL) (\<lambda>obj. case obj of QBool b \<Rightarrow> Inr b | _ \<Rightarrow> Inl Abort)"

definition qdict_get_qlist :: "qobject qdict \<Rightarrow> string \<Rightarrow> qobject list res" where
  "qdict_get_qlist qdict key =
     bindE (qdict_get_obj qdict key QTYPE_QLIST) (\<lambda>obj. case obj of QList l \<Rightarrow> Inr l | _ \<Rightarrow> Inl Abort)"

definition qdict_get_qdict :: "qobject qdict \<Rightarrow> string \<Rightarrow> qobject qdict res" where
  "qdict_get_qdict qdict key =
     bindE (qdict_get_obj qdict key QTYPE_QDICT) (\<lambda>obj. case obj of QDict d \<Rightarrow> Inr d | _ \<Rightarrow> Inl Abort)"

definition qdict_get_str :: "qobject qdict \<Rightarrow> string \<Rightarrow> string res" where
  "qdict_get_str qdict key =
     bindE (qdict_get_obj qdict key QTYPE_QSTRING) (\<lambda>obj. case obj of QString s \<Rightarrow> Inr s | _ \<Rightarrow> Inl Abort)"

definition qdict_get_try_int :: "qobject qdict \<Rightarrow> string \<Rightarrow> 64 word \<Rightarrow> 64 word" where
  "qdict_get_try_int qdict key def_value =
     (case qdict_get qdict key of Some (QInt i) \<Rightarrow> i | _ \<Rightarrow> def_value)"

definition qdict_get_try_bool :: "qobject qdict \<Rightarrow> string \<Rightarrow> 32 word \<Rightarrow> 32 word" where
  "qdict_get_try_bool qdict key def_value =
     (case qdict_get qdict key of Some (QBool b) \<Rightarrow> b | _ \<Rightarrow> def_value)"

definition qdict_get_try_str :: "qobject qdict \<Rightarrow> string \<Rightarrow> string option" where
  "qdict_get_try_str qdict key =
     (case qdict_get qdict key of Some (QString s) \<Rightarrow> Some s | _ \<Rightarrow> None)"

section \<open>Iteration\<close>

definition qdict_iter :: "'v qdict \<Rightarrow> (string \<Rightarrow> 'v \<Rightarrow> 'o \<Rightarrow> 'o) \<Rightarrow> 'o \<Rightarrow> 'o" where
  "qdict_iter qdict iter opaque =
     fold (\<lambda>es. fold (\<lambda>e. iter (fst e) (snd e)) es) (qdict_table qdict) opaque"

fun first_entry :: "(string \<times> 'v) list list \<Rightarrow> (string \<times> 'v) option" where
  "first_entry [] = None"
| "first_entry (es # t) = (case es of [] \<Rightarrow> first_entry t | e # _ \<Rightarrow> Some e)"

definition qdict_next_entry :: "'v qdict \<Rightarrow> nat \<Rightarrow> (string \<times> 'v) option" where
  "qdict_next_entry qdict first_bucket = first_entry (drop first_bucket (qdict_table qdict))"

definition qdict_first :: "'v qdict \<Rightarrow> (string \<times> 'v) option" where
  "qdict_first qdict = qdict_next_entry qdict 0"

text \<open>\<open>QLIST_NEXT\<close> of the entry with the given key.\<close>

fun chain_next :: "string \<Rightarrow> (string \<times> 'v) list \<Rightarrow> (string \<times> 'v) option" where
  "chain_next key [] = None"
| "chain_next key (e # es) =
     (if fst e = key then (case es of [] \<Rightarrow> None | e' # _ \<Rightarrow> Some e') else chain_next key es)"

definition qdict_next :: "'v qdict \<Rightarrow> string \<times> 'v \<Rightarrow> (string \<times> 'v) option" where
  "qdict_next qdict entry =
     (case chain_next (fst entry) (qdict_table qdict ! bucket_of (fst entry)) of
        Some e \<Rightarrow> Some e
      | None \<Rightarrow> qdict_next_entry qdict (bucket_of (fst entry) + 1))"

text \<open>The loop \<open>for (e = qdict_first(d); e; e = qdict_next(d, e))\<close> over an unchanged dictionary.\<close>

fun qdict_walk :: "nat \<Rightarrow> 'v qdict \<Rightarrow> (string \<times> 'v) option \<Rightarrow> (string \<times> 'v) list res" where
  "qdict_walk 0 qdict entry = Inl NoFuel"
| "qdict_walk (Suc n) qdict entry =
     (case entry of None \<Rightarrow> Inr []
      | Some e \<Rightarrow> bindE (qdict_walk n qdict (qdict_next qdict e)) (\<lambda>es. Inr (e # es)))"

definition qdict_clone_shallow :: "'v qdict \<Rightarrow> 'v qdict" where
  "qdict_clone_shallow src =
     fold (\<lambda>es. fold (\<lambda>e dest. qdict_put_obj dest (fst e) (snd e)) es) (qdict_table src) qdict_new"

text \<open>\<open>strstart\<close>: the rest of \<open>str\<close> after the prefix \<open>pre\<close>.\<close>

fun strstart :: "string \<Rightarrow> string \<Rightarrow> string option" where
  "strstart str [] = Some str"
| "strstart [] (q # qs) = None"
| "strstart (p # ps) (q # qs) = (if p \<noteq> q then None else strstart ps qs)"

fun extract_loop ::
  "nat \<Rightarrow> 'v qdict \<Rightarrow> 'v qdict \<Rightarrow> string \<Rightarrow> (string \<times> 'v) option \<Rightarrow> ('v qdict \<times> 'v qdict) res" where
  "extract_loop 0 src dst start entry = Inl NoFuel"
| "extract_loop (Suc n) src dst start entry =
     (case entry of None \<Rightarrow> Inr (src, dst)
      | Some e \<Rightarrow>
          let next = qdict_next src e in
          case strstart (fst e) start of
            Some p \<Rightarrow> extract_loop n (qdict_del src (fst e)) (qdict_put_obj dst p (snd e)) start next
          | None \<Rightarrow> extract_loop n src dst start next)"

text \<open>The result is the remaining source and the extracted dictionary.\<close>

definition qdict_extract_subqdict :: "nat \<Rightarrow> 'v qdict \<Rightarrow> string \<Rightarrow> ('v qdict \<times> 'v qdict) res" where
  "qdict_extract_subqdict fuel src start = extract_loop fuel src qdict_new start (qdict_first src)"

fun prefixed_loop :: "nat \<Rightarrow> 'v qdict \<Rightarrow> string \<Rightarrow> (string \<times> 'v) option \<Rightarrow> bool res" where
  "prefixed_loop 0 src start entry = Inl NoFuel"
| "prefixed_loop (Suc n) src start entry =
     (case entry of None \<Rightarrow> Inr False
      | Some e \<Rightarrow> if strstart (fst e) start \<noteq> None then Inr True
                 else prefixed_loop n src start (qdict_next src e))"

definition qdict_has_prefixed_entries :: "nat \<Rightarrow> 'v qdict \<Rightarrow> string \<Rightarrow> bool res" where
  "qdict_has_prefixed_entries fuel src start = prefixed_loop fuel src start (qdict_first src)"

section \<open>The contract of a dictionary\<close>

text \<open>What users of a dictionary rely on, whatever its representation.\<close>

locale dictionary =
  fixes inv :: "'d \<Rightarrow> bool" and empty :: 'd and put :: "'d \<Rightarrow> 'k \<Rightarrow> 'v \<Rightarrow> 'd"
    and del :: "'d \<Rightarrow> 'k \<Rightarrow> 'd" and get :: "'d \<Rightarrow> 'k \<Rightarrow> 'v option"
  assumes inv_empty: "inv empty" and get_empty: "get empty k = None"
    and inv_put: "inv d \<Longrightarrow> inv (put d k v)"
    and get_put: "inv d \<Longrightarrow> get (put d k v) k' = (if k' = k then Some v else get d k')"
    and inv_del: "inv d \<Longrightarrow> inv (del d k)"
    and get_del: "inv d \<Longrightarrow> get (del d k) k' = (if k' = k then None else get d k')"
begin

lemma inv_put_all: "inv d \<Longrightarrow> inv (fold (\<lambda>e d. put d (f e) (g e)) es d)"
  by (induction es arbitrary: d) (simp_all add: inv_put)

lemma get_put_all:
  "inv d \<Longrightarrow> get (fold (\<lambda>e d. put d (f e) (g e)) es d) k =
     (case map_of (rev (map (\<lambda>e. (f e, g e)) es)) k of None \<Rightarrow> get d k | Some v \<Rightarrow> Some v)"
  by (induction es arbitrary: d)
     (auto simp: inv_put get_put map_add_def map_of_append split: option.splits)

lemma get_put_distinct:
  assumes "distinct (map f es)"
  shows "get (fold (\<lambda>e d. put d (f e) (g e)) es empty) k = map_of (map (\<lambda>e. (f e, g e)) es) k"
proof -
  have "map_of (rev (map (\<lambda>e. (f e, g e)) es)) = map_of (map (\<lambda>e. (f e, g e)) es)"
    using assms by (intro map_of_inject_set [THEN iffD2]) (auto simp: rev_map [symmetric] comp_def)
  then show ?thesis by (simp add: get_put_all inv_empty get_empty split: option.splits)
qed

end

section \<open>Chains\<close>

lemma chain_find_map_of: "chain_find k es = map_option (Pair k) (map_of es k)"
  by (induction es) auto

lemma map_of_chain_set: "map_of es k \<noteq> None \<Longrightarrow> map_of (chain_set k v es) = (map_of es)(k \<mapsto> v)"
  by (induction es) (auto simp: fun_upd_twist)

lemma keys_chain_set [simp]: "map fst (chain_set k v es) = map fst es"
  by (induction es) auto

lemma length_chain_set [simp]: "length (chain_set k v es) = length es"
  by (induction es) auto

lemma map_of_chain_remove:
  "distinct (map fst es) \<Longrightarrow> map_of (chain_remove k es) = (map_of es)(k := None)"
proof (induction es)
  case Nil
  then show ?case by simp
next
  case (Cons e es)
  then show ?case
    by (cases e) (auto simp: fun_eq_iff map_of_eq_None_iff)
qed

lemma chain_remove_subset: "set (chain_remove k es) \<subseteq> set es"
  by (induction es) auto

lemma distinct_chain_remove: "distinct (map fst es) \<Longrightarrow> distinct (map fst (chain_remove k es))"
  by (induction es) (auto dest: subsetD [OF chain_remove_subset])

lemma length_chain_remove: "map_of es k \<noteq> None \<Longrightarrow> length es = Suc (length (chain_remove k es))"
  by (induction es) auto

section \<open>Well-formed tables\<close>

definition entries :: "'v qdict \<Rightarrow> (string \<times> 'v) list" where
  "entries d = concat (qdict_table d)"

definition qdict_wf :: "'v qdict \<Rightarrow> bool" where
  "qdict_wf d \<longleftrightarrow>
     length (qdict_table d) = QDICT_BUCKET_MAX \<and>
     (\<forall>b<QDICT_BUCKET_MAX. distinct (map fst (qdict_table d ! b)) \<and>
        (\<forall>e \<in> set (qdict_table d ! b). bucket_of (fst e) = b)) \<and>
     qdict_sz d = of_nat (length (entries d))"

lemma bucket_of_less [simp]: "bucket_of k < QDICT_BUCKET_MAX"
  by (simp add: bucket_of_def QDICT_BUCKET_MAX_def)

lemma qdict_get_map_of: "qdict_get d k = map_of (qdict_table d ! bucket_of k) k"
  by (simp add: qdict_get_def qdict_find_def chain_find_map_of split: option.splits)

lemma length_concat_update:
  "b < length t \<Longrightarrow> length (concat (t[b := es])) + length (t ! b) = length (concat t) + length es"
  by (induction t arbitrary: b) (auto simp: nth_Cons split: nat.splits)

lemma wf_bucket:
  assumes "qdict_wf d" and "b < QDICT_BUCKET_MAX"
  shows "b < length (qdict_table d)" and "distinct (map fst (qdict_table d ! b))"
    and "\<And>e. e \<in> set (qdict_table d ! b) \<Longrightarrow> bucket_of (fst e) = b"
  using assms by (auto simp: qdict_wf_def)

lemma wf_new: "qdict_wf qdict_new"
  by (auto simp: qdict_wf_def qdict_new_def entries_def)

lemma get_new: "qdict_get qdict_new k = None"
  by (simp add: qdict_get_map_of qdict_new_def)

lemma put_cases:
  obtains "qdict_get d k \<noteq> None"
      "qdict_put_obj d k v = QDict_of (qdict_sz d)
         ((qdict_table d)[bucket_of k := chain_set k v (qdict_table d ! bucket_of k)])"
  | "qdict_get d k = None"
      "qdict_put_obj d k v = QDict_of (qdict_sz d + 1)
         ((qdict_table d)[bucket_of k := (k, v) # qdict_table d ! bucket_of k])"
  by (cases "qdict_get d k")
     (auto simp: qdict_put_obj_def qdict_get_map_of qdict_find_def chain_find_map_of Let_def)

lemma wf_put:
  assumes "qdict_wf d"
  shows "qdict_wf (qdict_put_obj d k v)"
proof -
  note b = wf_bucket [OF assms bucket_of_less [of k]]
  have len: "length (qdict_table d) = QDICT_BUCKET_MAX" and sz: "qdict_sz d = of_nat (length (entries d))"
    using assms by (simp_all add: qdict_wf_def)
  show ?thesis
  proof (rule put_cases [of d k v])
    assume p: "qdict_put_obj d k v = QDict_of (qdict_sz d)
         ((qdict_table d)[bucket_of k := chain_set k v (qdict_table d ! bucket_of k)])"
    have "fst ` set (chain_set k v (qdict_table d ! bucket_of k)) = fst ` set (qdict_table d ! bucket_of k)"
      by (simp only: set_map [symmetric] keys_chain_set)
    then have "bucket_of (fst e) = bucket_of k" if "e \<in> set (chain_set k v (qdict_table d ! bucket_of k))" for e
      using imageI [OF that, of fst] b(3) by auto
    moreover have "length (concat ((qdict_table d)[bucket_of k := chain_set k v (qdict_table d ! bucket_of k)]))
        = length (entries d)"
      using length_concat_update [OF b(1), of "chain_set k v (qdict_table d ! bucket_of k)"]
      by (simp add: entries_def)
    ultimately show ?thesis
      using assms b(2) len sz
      by (auto simp: p qdict_wf_def entries_def nth_list_update)
  next
    assume n: "qdict_get d k = None" and p: "qdict_put_obj d k v = QDict_of (qdict_sz d + 1)
         ((qdict_table d)[bucket_of k := (k, v) # qdict_table d ! bucket_of k])"
    have "length (concat ((qdict_table d)[bucket_of k := (k, v) # qdict_table d ! bucket_of k]))
        = Suc (length (entries d))"
      using length_concat_update [OF b(1), of "(k, v) # qdict_table d ! bucket_of k"]
      by (simp add: entries_def)
    moreover have "k \<notin> fst ` set (qdict_table d ! bucket_of k)"
      using n by (simp add: qdict_get_map_of map_of_eq_None_iff)
    ultimately show ?thesis
      using assms b(2) len sz
      by (auto simp: p qdict_wf_def entries_def nth_list_update)
  qed
qed

lemma get_put:
  assumes "qdict_wf d"
  shows "qdict_get (qdict_put_obj d k v) k' = (if k' = k then Some v else qdict_get d k')"
proof -
  note b = wf_bucket(1) [OF assms bucket_of_less [of k]]
  show ?thesis
    by (rule put_cases [of d k v]; cases "bucket_of k' = bucket_of k")
       (use b in \<open>auto simp: qdict_get_map_of map_of_chain_set nth_list_update\<close>)
qed

lemma wf_del:
  assumes "qdict_wf d"
  shows "qdict_wf (qdict_del d k)"
proof (cases "qdict_get d k")
  case None
  then show ?thesis
    using assms by (simp add: qdict_del_def qdict_find_def chain_find_map_of qdict_get_map_of Let_def)
next
  case (Some v)
  note b = wf_bucket [OF assms bucket_of_less [of k]]
  let ?es = "qdict_table d ! bucket_of k"
  have len: "length (qdict_table d) = QDICT_BUCKET_MAX" and sz: "qdict_sz d = of_nat (length (entries d))"
    using assms by (simp_all add: qdict_wf_def)
  have p: "qdict_del d k = QDict_of (qdict_sz d - 1) ((qdict_table d)[bucket_of k := chain_remove k ?es])"
    using Some by (simp add: qdict_del_def qdict_find_def chain_find_map_of qdict_get_map_of Let_def)
  have "length (entries d) = Suc (length (concat ((qdict_table d)[bucket_of k := chain_remove k ?es])))"
    using length_concat_update [OF b(1), of "chain_remove k ?es"] length_chain_remove [of ?es k] Some
    by (simp add: entries_def qdict_get_map_of)
  then show ?thesis
    using assms len sz distinct_chain_remove [OF b(2)] b(3) subsetD [OF chain_remove_subset [of k ?es]]
    by (auto simp: p qdict_wf_def entries_def nth_list_update)
qed

lemma get_del:
  assumes "qdict_wf d"
  shows "qdict_get (qdict_del d k) k' = (if k' = k then None else qdict_get d k')"
proof -
  note b = wf_bucket(1,2) [OF assms bucket_of_less [of k]]
  show ?thesis
    by (cases "qdict_get d k"; cases "bucket_of k' = bucket_of k")
       (use b in \<open>auto simp: qdict_get_map_of map_of_chain_remove nth_list_update qdict_del_def
          qdict_find_def chain_find_map_of Let_def\<close>)
qed

interpretation qd: dictionary qdict_wf qdict_new qdict_put_obj qdict_del qdict_get
  by unfold_locales (simp_all add: wf_new get_new wf_put get_put wf_del get_del)

section \<open>Iteration visits every entry once\<close>

lemma wf_distinct_entries:
  assumes "qdict_wf d"
  shows "distinct (map fst (entries d))"
proof -
  have "distinct (map fst (concat t))"
    if "\<forall>b<length t. distinct (map fst (t ! b)) \<and> (\<forall>e \<in> set (t ! b). bucket_of (fst e) = n + b)" for t :: "(string \<times> 'a) list list" and n
    using that
  proof (induction t arbitrary: n)
    case Nil
    then show ?case by simp
  next
    case (Cons es t)
    have that1: "\<forall>b<length t. distinct (map fst (t ! b)) \<and> (\<forall>e \<in> set (t ! b). bucket_of (fst e) = Suc n + b)"
      using Cons.prems by (metis Suc_less_eq add_Suc add_Suc_right length_Cons nth_Cons_Suc)
    moreover have "Suc n \<le> bucket_of (fst e)" if "e \<in> set (concat t)" for e
    proof -
      from that obtain b where "b < length t" "e \<in> set (t ! b)"
        by (auto simp: in_set_conv_nth [of _ t])
      with that1 show ?thesis by simp
    qed
    moreover have "distinct (map fst es)" "\<forall>e \<in> set es. bucket_of (fst e) = n"
      using Cons.prems [rule_format, of 0] by auto
    ultimately show ?case using Cons.IH by (fastforce simp: image_iff)
  qed
  from this [of "qdict_table d" 0] assms show ?thesis
    by (simp add: qdict_wf_def entries_def)
qed

lemma first_entry_concat: "first_entry t = (case concat t of [] \<Rightarrow> None | e # _ \<Rightarrow> Some e)"
proof (induction t)
  case (Cons es t)
  then show ?case by (cases es) simp_all
qed simp

lemma chain_next_split:
  "distinct (map fst (xs @ e # ys)) \<Longrightarrow>
     chain_next (fst e) (xs @ e # ys) = (case ys of [] \<Rightarrow> None | y # _ \<Rightarrow> Some y)"
  by (induction xs) auto

lemma concat_split:
  "concat t = xs @ e # ys \<Longrightarrow>
     \<exists>t1 b1 b2 t2. t = t1 @ (b1 @ e # b2) # t2 \<and> xs = concat t1 @ b1 \<and> ys = b2 @ concat t2"
proof (induction t arbitrary: xs)
  case Nil
  then show ?case by simp
next
  case (Cons es t)
  from Cons.prems have "es @ concat t = xs @ e # ys" by simp
  then consider us where "es = xs @ us" "us @ concat t = e # ys" | us where "xs = es @ us" "concat t = us @ e # ys"
    by (auto simp: append_eq_append_conv2)
  then show ?case
  proof cases
    case 1
    show ?thesis
    proof (cases us)
      case Nil
      with 1 have "concat t = [] @ e # ys" "xs = es" by auto
      from Cons.IH [OF this(1)] obtain t1 b1 b2 t2 where "t = t1 @ (b1 @ e # b2) # t2"
        "[] = concat t1 @ b1" "ys = b2 @ concat t2" by blast
      with \<open>xs = es\<close> show ?thesis by (intro exI [of _ "es # t1"]) auto
    next
      case (Cons u us')
      with 1 have "es # t = [] @ (xs @ e # us') # t" "ys = us' @ concat t" by auto
      then show ?thesis by (metis append_Nil concat.simps(1))
    qed
  next
    case 2
    from Cons.IH [OF this(2)] obtain t1 b1 b2 t2 where "t = t1 @ (b1 @ e # b2) # t2"
      "us = concat t1 @ b1" "ys = b2 @ concat t2" by blast
    with 2(1) show ?thesis by (intro exI [of _ "es # t1"]) auto
  qed
qed

lemma qdict_next_split:
  assumes "qdict_wf d" and "entries d = xs @ e # ys"
  shows "qdict_next d e = (case ys of [] \<Rightarrow> None | y # _ \<Rightarrow> Some y)"
proof -
  obtain t1 b1 b2 t2 where t: "qdict_table d = t1 @ (b1 @ e # b2) # t2" and ys: "ys = b2 @ concat t2"
    using concat_split [of "qdict_table d" xs e ys] assms(2) by (auto simp: entries_def)
  have l: "length t1 < QDICT_BUCKET_MAX"
    using assms(1) t by (simp add: qdict_wf_def)
  have nth: "qdict_table d ! length t1 = b1 @ e # b2" by (simp add: t)
  have b: "bucket_of (fst e) = length t1"
    using wf_bucket(3) [OF assms(1) l, of e] nth by simp
  have "chain_next (fst e) (b1 @ e # b2) = (case b2 of [] \<Rightarrow> None | y # _ \<Rightarrow> Some y)"
    using wf_bucket(2) [OF assms(1) l] by (intro chain_next_split) (simp add: nth)
  then show ?thesis
    by (cases b2) (simp_all add: qdict_next_def b nth qdict_next_entry_def first_entry_concat t ys)
qed

lemma qdict_first_entries: "qdict_first d = (case entries d of [] \<Rightarrow> None | e # _ \<Rightarrow> Some e)"
  by (simp add: qdict_first_def qdict_next_entry_def first_entry_concat entries_def)

lemma qdict_walk_suffix:
  "qdict_wf d \<Longrightarrow> entries d = xs @ ys \<Longrightarrow> length ys < fuel \<Longrightarrow>
     qdict_walk fuel d (case ys of [] \<Rightarrow> None | y # _ \<Rightarrow> Some y) = Inr ys"
proof (induction ys arbitrary: xs fuel)
  case Nil
  then show ?case by (cases fuel) auto
next
  case (Cons y ys)
  then obtain n where "fuel = Suc n" by (cases fuel) auto
  with Cons.IH [of "xs @ [y]" n] Cons.prems show ?case
    by (simp add: qdict_next_split)
qed

section \<open>Extraction by prefix\<close>

lemma qdict_get_entries:
  assumes "qdict_wf d"
  shows "qdict_get d k = map_of (entries d) k"
proof -
  let ?b = "qdict_table d ! bucket_of k"
  have sub: "set ?b \<subseteq> set (entries d)"
    using nth_mem [OF wf_bucket(1) [OF assms bucket_of_less [of k]]] by (auto simp: entries_def)
  have in_b: "e \<in> set ?b" if "e \<in> set (entries d)" "fst e = k" for e
  proof -
    from that obtain b where b: "b < length (qdict_table d)" "e \<in> set (qdict_table d ! b)"
      by (auto simp: entries_def in_set_conv_nth [of _ "qdict_table d"])
    with assms have "bucket_of k = b" using that(2) by (auto simp: qdict_wf_def)
    with b show ?thesis by simp
  qed
  show ?thesis
  proof (cases "map_of (entries d) k")
    case None
    then have "k \<notin> fst ` set ?b" using sub by (auto simp: map_of_eq_None_iff)
    then have "map_of ?b k = None" by (simp add: map_of_eq_None_iff)
    with None show ?thesis by (simp add: qdict_get_map_of)
  next
    case (Some v)
    then have "(k, v) \<in> set ?b" using in_b map_of_SomeD by fastforce
    with Some show ?thesis
      using wf_bucket(2) [OF assms bucket_of_less [of k]] by (simp add: qdict_get_map_of)
  qed
qed

lemma chain_remove_split:
  "distinct (map fst (xs @ e # ys)) \<Longrightarrow> chain_remove (fst e) (xs @ e # ys) = xs @ ys"
  by (induction xs) auto

lemma entries_del:
  assumes "qdict_wf d" and "entries d = xs @ e # ys"
  shows "entries (qdict_del d (fst e)) = xs @ ys"
proof -
  obtain t1 b1 b2 t2 where t: "qdict_table d = t1 @ (b1 @ e # b2) # t2"
    and xs: "xs = concat t1 @ b1" and ys: "ys = b2 @ concat t2"
    using concat_split [of "qdict_table d" xs e ys] assms(2) by (auto simp: entries_def)
  have l: "length t1 < QDICT_BUCKET_MAX"
    using assms(1) t by (simp add: qdict_wf_def)
  have nth: "qdict_table d ! length t1 = b1 @ e # b2" by (simp add: t)
  have b: "bucket_of (fst e) = length t1"
    using wf_bucket(3) [OF assms(1) l, of e] nth by simp
  have dist: "distinct (map fst (b1 @ e # b2))"
    using wf_bucket(2) [OF assms(1) l] by (simp add: nth)
  have "chain_find (fst e) (b1 @ e # b2) \<noteq> None"
    by (simp add: chain_find_map_of map_of_eq_None_iff)
  then have "qdict_table (qdict_del d (fst e)) = (qdict_table d)[length t1 := b1 @ b2]"
    by (auto simp: qdict_del_def qdict_find_def b nth chain_remove_split [OF dist] Let_def)
  then show ?thesis by (simp add: entries_def t xs ys)
qed

lemma strstart_Some_iff: "strstart s p = Some r \<longleftrightarrow> s = p @ r"
  by (induction s p rule: strstart.induct) auto

definition stripped :: "string \<Rightarrow> string \<times> 'v \<Rightarrow> string" where
  "stripped start e = the (strstart (fst e) start)"

definition prefixed :: "string \<Rightarrow> string \<times> 'v \<Rightarrow> bool" where
  "prefixed start e \<longleftrightarrow> strstart (fst e) start \<noteq> None"

lemma prefixedE: "prefixed start e \<Longrightarrow> fst e = start @ stripped start e"
  by (auto simp: prefixed_def stripped_def strstart_Some_iff [symmetric])

lemma extract_loop_suffix:
  "qdict_wf src \<Longrightarrow> entries src = xs @ ys \<Longrightarrow> length ys < fuel \<Longrightarrow>
     \<exists>src'. extract_loop fuel src dst start (case ys of [] \<Rightarrow> None | y # _ \<Rightarrow> Some y) =
         Inr (src', fold (\<lambda>e d. qdict_put_obj d (stripped start e) (snd e)) (filter (prefixed start) ys) dst) \<and>
       qdict_wf src' \<and> entries src' = xs @ filter (\<lambda>e. \<not> prefixed start e) ys"
proof (induction ys arbitrary: xs fuel src dst)
  case Nil
  then show ?case by (cases fuel) auto
next
  case (Cons y ys)
  then obtain n where n: "fuel = Suc n" "length ys < n" by (cases fuel) auto
  note nx = qdict_next_split [OF Cons.prems(1,2)]
  show ?case
  proof (cases "strstart (fst y) start")
    case None
    have "entries src = (xs @ [y]) @ ys" using Cons.prems(2) by simp
    from Cons.IH [OF Cons.prems(1) this n(2), of dst] None show ?thesis
      by (simp add: n(1) nx prefixed_def)
  next
    case (Some p)
    then have "stripped start y = p" by (simp add: stripped_def)
    with Some Cons.IH [OF qd.inv_del [OF Cons.prems(1)] entries_del [OF Cons.prems(1,2)] n(2),
        of "qdict_put_obj dst p (snd y)"]
    show ?thesis by (simp add: n(1) nx prefixed_def)
  qed
qed

lemma map_of_stripped:
  "map_of (map (\<lambda>e. (stripped start e, snd e)) (filter (prefixed start) es)) k = map_of es (start @ k)"
proof (induction es)
  case (Cons e es)
  show ?case
  proof (cases "prefixed start e")
    case True
    with prefixedE [OF True] Cons.IH show ?thesis by auto
  next
    case False
    then have "fst e \<noteq> start @ k"
      using strstart_Some_iff [of "fst e" start k] by (auto simp: prefixed_def)
    with False Cons.IH show ?thesis by simp
  qed
qed simp

lemma map_of_unprefixed:
  "map_of (filter (\<lambda>e. \<not> prefixed start e) es) k = (if strstart k start \<noteq> None then None else map_of es k)"
  by (induction es) (auto simp: prefixed_def)

lemma distinct_stripped:
  "distinct (map fst es) \<Longrightarrow> distinct (map (stripped start) (filter (prefixed start) es))"
proof (induction es)
  case (Cons e es)
  have "stripped start e \<notin> stripped start ` set (filter (prefixed start) es)" if p: "prefixed start e"
  proof
    assume "stripped start e \<in> stripped start ` set (filter (prefixed start) es)"
    then obtain e' where "e' \<in> set es" "prefixed start e'" "stripped start e' = stripped start e" by auto
    with prefixedE [OF p] prefixedE [of start e'] have "fst e' = fst e" by simp
    with \<open>e' \<in> set es\<close> Cons.prems show False by (simp add: image_iff) metis
  qed
  with Cons show ?case by auto
qed simp

lemma prefixed_loop_suffix:
  "qdict_wf src \<Longrightarrow> entries src = xs @ ys \<Longrightarrow> length ys < fuel \<Longrightarrow>
     prefixed_loop fuel src start (case ys of [] \<Rightarrow> None | y # _ \<Rightarrow> Some y) =
       Inr (\<exists>e \<in> set ys. prefixed start e)"
proof (induction ys arbitrary: xs fuel)
  case Nil
  then show ?case by (cases fuel) auto
next
  case (Cons y ys)
  then obtain n where "fuel = Suc n" by (cases fuel) auto
  with Cons.IH [of "xs @ [y]" n] Cons.prems show ?case
    by (simp add: qdict_next_split prefixed_def)
qed

lemma clone_shallow_fold:
  "qdict_clone_shallow src = fold (\<lambda>e d. qdict_put_obj d (fst e) (snd e)) (entries src) qdict_new"
proof -
  have "fold (\<lambda>es. fold f es) t a = fold f (concat t) a" for f :: "'x \<Rightarrow> 'y \<Rightarrow> 'y" and t a
    by (induction t arbitrary: a) simp_all
  then show ?thesis by (simp add: qdict_clone_shallow_def entries_def)
qed

section \<open>Histories\<close>

text \<open>Sequences of updates of a dictionary and of a finite map.\<close>

datatype 'v dict_op = Put string 'v | Del string

fun run_op :: "'v dict_op \<Rightarrow> 'v qdict \<Rightarrow> 'v qdict" where
  "run_op (Put k v) d = qdict_put_obj d k v"
| "run_op (Del k) d = qdict_del d k"

fun spec_op :: "'v dict_op \<Rightarrow> (string \<rightharpoonup> 'v) \<Rightarrow> string \<rightharpoonup> 'v" where
  "spec_op (Put k v) m = m(k \<mapsto> v)"
| "spec_op (Del k) m = m(k := None)"

lemma run_op_spec:
  "qdict_wf d \<Longrightarrow> qdict_wf (run_op a d) \<and> qdict_get (run_op a d) = spec_op a (qdict_get d)"
  by (cases a) (auto simp: qd.inv_put qd.inv_del qd.get_put qd.get_del fun_eq_iff)

lemma run_ops_spec:
  "qdict_wf d \<Longrightarrow> qdict_wf (fold run_op as d) \<and> qdict_get (fold run_op as d) = fold spec_op as (qdict_get d)"
  by (induction as arbitrary: d) (auto simp: run_op_spec)

lemma card_dom_entries:
  assumes "qdict_wf d"
  shows "card (dom (qdict_get d)) = length (entries d)"
proof -
  have "qdict_get d = map_of (entries d)"
    using qdict_get_entries [OF assms] by blast
  then have "dom (qdict_get d) = set (map fst (entries d))"
    by (simp add: dom_map_of_conv_image_fst)
  then show ?thesis
    using distinct_card [OF wf_distinct_entries [OF assms]] by simp
qed

section \<open>Properties\<close>

text \<open>
  C16. A dictionary is a finite map: after any sequence of insertions and deletions, lookup
  gives what the same sequence gives on a map, and the size is the number of keys (modulo
  2 to the 64).
\<close>

theorem qdict_refines_map:
  "qdict_get (fold run_op as qdict_new) = fold spec_op as Map.empty \<and>
   qdict_size (fold run_op as qdict_new) = of_nat (card (dom (fold spec_op as Map.empty)))"
proof -
  have e: "qdict_get qdict_new = Map.empty" by (rule ext) (simp add: get_new)
  have r: "qdict_wf (fold run_op as qdict_new)" "qdict_get (fold run_op as qdict_new) = fold spec_op as Map.empty"
    using run_ops_spec [OF wf_new, of as] unfolding e by blast+
  with card_dom_entries [OF r(1)] show ?thesis
    by (simp add: qdict_size_def qdict_wf_def)
qed

text \<open>
  C38. Iterating from \<open>qdict_first\<close> with \<open>qdict_next\<close> ends and visits every entry exactly once:
  the visited keys are distinct and together they are the whole dictionary.
\<close>

theorem qdict_iteration_complete:
  assumes "qdict_wf d" and "card (dom (qdict_get d)) < fuel"
  shows "\<exists>es. qdict_walk fuel d (qdict_first d) = Inr es \<and> distinct (map fst es) \<and>
    map_of es = qdict_get d"
proof -
  have "qdict_walk fuel d (qdict_first d) = Inr (entries d)"
    using qdict_walk_suffix [OF assms(1), of "[]" "entries d" fuel] assms(2) card_dom_entries [OF assms(1)]
    by (simp add: qdict_first_entries)
  moreover have "map_of (entries d) = qdict_get d"
    by (rule ext) (simp add: qdict_get_entries [OF assms(1)])
  ultimately show ?thesis using wf_distinct_entries [OF assms(1)] by blast
qed

theorem qdict_iteration_complete_witness:
  "\<exists>es. qdict_walk 3 (qdict_put_obj (qdict_put_obj qdict_new ''action'' 1) ''gva'' (2 :: nat))
       (qdict_first (qdict_put_obj (qdict_put_obj qdict_new ''action'' 1) ''gva'' 2)) = Inr es \<and>
     distinct (map fst es) \<and> map_of es ''gva'' = Some 2"
proof -
  let ?d = "qdict_put_obj (qdict_put_obj qdict_new ''action'' 1) ''gva'' (2 :: nat)"
  have w: "qdict_wf ?d" by (intro qd.inv_put qd.inv_empty)
  have g: "qdict_get ?d = [''action'' \<mapsto> 1, ''gva'' \<mapsto> 2]"
    by (rule ext) (simp add: qd.get_put qd.inv_put qd.inv_empty qd.get_empty)
  then have c: "card (dom (qdict_get ?d)) < 3" by simp
  from qdict_iteration_complete [OF w c] g show ?thesis by auto
qed

text \<open>
  \<open>qdict_extract_subqdict\<close> splits a dictionary by a key prefix although it deletes
  entries while iterating: the extracted dictionary maps \<open>k\<close> to what the prefixed key was
  mapped to, and exactly the keys without the prefix remain.
\<close>

theorem qdict_extract_split:
  assumes "qdict_wf src" and "card (dom (qdict_get src)) < fuel"
  shows "\<exists>src' dst. qdict_extract_subqdict fuel src start = Inr (src', dst) \<and>
    qdict_wf src' \<and> qdict_wf dst \<and> (\<forall>k. qdict_get dst k = qdict_get src (start @ k)) \<and>
    (\<forall>k. qdict_get src' k = (if strstart k start \<noteq> None then None else qdict_get src k))"
proof -
  let ?es = "filter (prefixed start) (entries src)"
  let ?dst = "fold (\<lambda>e d. qdict_put_obj d (stripped start e) (snd e)) ?es qdict_new"
  obtain src' where r: "qdict_extract_subqdict fuel src start = Inr (src', ?dst)" and w: "qdict_wf src'"
    and e: "entries src' = filter (\<lambda>e. \<not> prefixed start e) (entries src)"
    using extract_loop_suffix [OF assms(1), of "[]" "entries src" fuel qdict_new start] assms(2)
      card_dom_entries [OF assms(1)]
    by (auto simp: qdict_extract_subqdict_def qdict_first_entries)
  have "qdict_get ?dst k = qdict_get src (start @ k)" for k
    using qd.get_put_distinct [OF distinct_stripped [OF wf_distinct_entries [OF assms(1)]], where g = snd]
    by (simp add: map_of_stripped qdict_get_entries [OF assms(1)])
  moreover have "qdict_get src' k = (if strstart k start \<noteq> None then None else qdict_get src k)" for k
    by (simp add: qdict_get_entries [OF w] qdict_get_entries [OF assms(1)] e map_of_unprefixed)
  moreover have "qdict_wf ?dst" by (intro qd.inv_put_all qd.inv_empty)
  ultimately show ?thesis using r w by blast
qed

theorem qdict_extract_split_witness:
  "\<exists>src' dst. qdict_extract_subqdict 3
       (qdict_put_obj (qdict_put_obj qdict_new ''x.a'' 1) ''y'' (2 :: nat)) ''x.'' = Inr (src', dst) \<and>
     qdict_get dst ''a'' = Some 1 \<and> qdict_get src' ''x.a'' = None \<and> qdict_get src' ''y'' = Some 2"
proof -
  let ?d = "qdict_put_obj (qdict_put_obj qdict_new ''x.a'' 1) ''y'' (2 :: nat)"
  have w: "qdict_wf ?d" by (intro qd.inv_put qd.inv_empty)
  have g: "qdict_get ?d = [''x.a'' \<mapsto> 1, ''y'' \<mapsto> 2]"
    by (rule ext) (simp add: qd.get_put qd.inv_put qd.inv_empty qd.get_empty)
  then have c: "card (dom (qdict_get ?d)) < 3" by simp
  from qdict_extract_split [OF w c, of "''x.''"] g show ?thesis by fastforce
qed

end
