(* ===== verification/Hmp.thy ===== *)
theory Hmp
  imports Daemon SyscallChecker Qdict
begin

text \<open>
  The monitor commands of \<open>plugin/extra_hmp.c\<close> and their names in \<open>hmp-commands.hx\<close>: each takes
  its arguments from a dictionary and calls one of the introspection components on the guest
  memory that starts at RAM address 0.
\<close>

section \<open>State\<close>

text \<open>
  \<open>v_base\<close> is the host address of the guest's memory, \<open>v_loggers\<close> the actions passed to the
  kernel by the memory logger's \<open>ioctl\<close>.
\<close>

record vm =
  v_mem :: ram
  v_base :: u64
  v_host :: host
  v_checker :: checker_state
  v_listener :: listener_state
  v_loggers :: "int list"

text \<open>
  What a command meets besides the state: loop bounds, the results of the thread functions,
  uninitialised locals, and the guest's memory after the two seconds of CPU sampling.
\<close>

record env =
  e_fuel :: nat
  e_created :: bool
  e_cancelled :: bool
  e_joined :: bool
  e_junk :: junk
  e_mem2 :: ram

text \<open>A handler yields what it prints on the monitor and on \<open>stdout\<close>, and the new state.\<close>

type_synonym handler = "env \<Rightarrow> qobject qdict \<Rightarrow> vm \<Rightarrow> (string \<times> string \<times> vm) res"

section \<open>Handlers\<close>

definition hmp_list_process :: handler where
  "hmp_list_process env qdict vm =
     bindE (list_tasks (e_fuel env) (v_mem vm) (tasks_heap (v_host vm))) (\<lambda>(out, th).
       Inr (out, [], vm\<lparr>v_host := (v_host vm)\<lparr>tasks_heap := th\<rparr>\<rparr>))"

definition hmp_list_modules :: handler where
  "hmp_list_modules env qdict vm =
     bindE (list_modules (e_fuel env) (v_mem vm) (v_host vm)) (\<lambda>(out, host).
       Inr (out, [], vm\<lparr>v_host := host\<rparr>))"

definition hmp_syscall_checker :: handler where
  "hmp_syscall_checker env qdict vm =
     bindE (qdict_get_str qdict ''action'') (\<lambda>action.
       if action = ''start''
       then bindE (syscall_checker_start (e_fuel env) (e_created env) (v_mem vm) (v_checker vm))
              (\<lambda>(c, out, err). Inr (out, err, vm\<lparr>v_checker := c\<rparr>))
       else if action = ''stop''
       then (case syscall_checker_stop (e_cancelled env) (e_joined env) (v_checker vm) of
               (c, out, err) \<Rightarrow> Inr (out, err, vm\<lparr>v_checker := c\<rparr>))
       else Inr (''Usage: check_syscall start|stop.'' @ nl, [], vm))"

definition hmp_top :: handler where
  "hmp_top env qdict vm =
     bindE (cpu_usage_handle (e_created env) (j_row (e_junk env)) (j_usage (e_junk env)) (v_mem vm) (e_mem2 env))
       (\<lambda>(out, err). Inr (out, err, vm))"

definition hmp_free :: handler where
  "hmp_free env qdict vm =
     bindE (mem_usage_handle (e_fuel env) (v_mem vm)) (\<lambda>out. Inr (out, [], vm))"

definition hmp_read_data :: handler where
  "hmp_read_data env qdict vm =
     bindE (qdict_get_str qdict ''class'') (\<lambda>addr_class.
     bindE (qdict_get_str qdict ''type'') (\<lambda>addr_type.
     bindE (qdict_get_int qdict ''size'') (\<lambda>addr_size.
     bindE (qdict_get_int qdict ''addr'') (\<lambda>addr_base.
     bindE (read_gpa_ul (v_base vm) (v_mem vm) addr_base) (\<lambda>val.
       Inr ([], addr_class @ '', '' @ addr_type @ '', '' @ fmt_lu addr_size @ '', '' @
                fmt_016lx addr_base @ '', '' @ fmt_016lx val @ nl, vm))))))"

definition hmp_trans_addr :: handler where
  "hmp_trans_addr env qdict vm =
     bindE (qdict_get_int qdict ''gva'') (\<lambda>gva.
     bindE (qdict_get_int qdict ''cr3'') (\<lambda>cr3.
     bindE (trans_addr (v_mem vm) gva cr3) (\<lambda>gpa.
       Inr (''gva: '' @ fmt_016lx gva @ nl @ ''cr3: '' @ fmt_016lx cr3 @ nl @
            ''gpa: '' @ fmt_016lx gpa @ nl, [], vm))))"

definition hmp_hostname :: handler where
  "hmp_hostname env qdict vm =
     bindE (print_hostname (e_fuel env) (v_mem vm) (j_host (e_junk env)) (tasks_heap (v_host vm)))
       (\<lambda>(out, th). Inr (out, [], vm\<lparr>v_host := (v_host vm)\<lparr>tasks_heap := th\<rparr>\<rparr>))"

definition hmp_ifconfig :: handler where
  "hmp_ifconfig env qdict vm =
     bindE (print_net_device (e_fuel env) (v_mem vm)) (\<lambda>out. Inr (out, [], vm))"

definition hmp_listen :: handler where
  "hmp_listen env qdict vm =
     bindE (qdict_get_str qdict ''action'') (\<lambda>action.
       if action = ''start''
       then (case listener_start (e_created env) (v_listener vm) of
               (l, out, err) \<Rightarrow> Inr (out, err, vm\<lparr>v_listener := l\<rparr>))
       else if action = ''stop''
       then (case listener_stop (e_cancelled env) (e_joined env) (v_listener vm) of
               (l, out, err) \<Rightarrow> Inr (out, err, vm\<lparr>v_listener := l\<rparr>))
       else Inr (''Usage: listen start|stop.'' @ nl, [], vm))"

definition mem_logger :: "int \<Rightarrow> vm \<Rightarrow> vm" where
  "mem_logger action vm = vm\<lparr>v_loggers := v_loggers vm @ [action]\<rparr>"

definition hmp_mem_logger :: handler where
  "hmp_mem_logger env qdict vm =
     bindE (qdict_get_str qdict ''action'') (\<lambda>action.
       if action = ''start''
       then Inr (''Waiting...'' @ nl @ ''Mem-Logger Started.'' @ nl, [], mem_logger 1 vm)
       else if action = ''stop''
       then Inr (''Waiting...'' @ nl @ ''Mem-Logger Stopped.'' @ nl, [], mem_logger 2 vm)
       else Inr (''Usage: mem-logger start|stop.'' @ nl, [], vm))"

section \<open>The command table\<close>

datatype arg_kind = Str | Long

text \<open>Name, argument types and handler, in the order of \<open>hmp-commands.hx\<close>.\<close>

definition plugin_commands :: "(string \<times> (string \<times> arg_kind) list \<times> handler) list" where
  "plugin_commands =
     [(''mem-logger'', [(''action'', Str)], hmp_mem_logger),
      (''listen'', [(''action'', Str)], hmp_listen),
      (''ifconfig'', [], hmp_ifconfig),
      (''hostname'', [], hmp_hostname),
      (''read'', [(''class'', Str), (''type'', Str), (''size'', Long), (''addr'', Long)], hmp_read_data),
      (''translate'', [(''gva'', Long), (''cr3'', Long)], hmp_trans_addr),
      (''free'', [], hmp_free),
      (''top'', [], hmp_top),
      (''check_syscall'', [(''action'', Str)], hmp_syscall_checker),
      (''ps'', [], hmp_list_process),
      (''lsmod'', [], hmp_list_modules)]"

text \<open>Arguments of the declared types, as the monitor passes them on.\<close>

fun arg_obj :: "arg_kind \<Rightarrow> qobject \<Rightarrow> bool" where
  "arg_obj Str obj \<longleftrightarrow> qobject_type obj = QTYPE_QSTRING"
| "arg_obj Long obj \<longleftrightarrow> qobject_type obj = QTYPE_QINT"

definition args_ok :: "(string \<times> arg_kind) list \<Rightarrow> qobject qdict \<Rightarrow> bool" where
  "args_ok spec qdict \<longleftrightarrow>
     (\<forall>(name, k) \<in> set spec. case qdict_get qdict name of None \<Rightarrow> False | Some obj \<Rightarrow> arg_obj k obj)"

section \<open>Commands, the checker's thread and the guest\<close>

inductive vm_step :: "vm \<Rightarrow> vm \<Rightarrow> bool" where
  guest: "dom mem' = dom (v_mem vm) \<Longrightarrow> vm_step vm (vm\<lparr>v_mem := mem'\<rparr>)"
| command: "(name, spec, h) \<in> set plugin_commands \<Longrightarrow> args_ok spec qdict \<Longrightarrow>
    h env qdict vm = Inr (out, err, vm') \<Longrightarrow> vm_step vm vm'"
| pass: "checker (v_checker vm) = Some info \<Longrightarrow> thread_func fuel (v_mem vm) info = Inr (mem', out) \<Longrightarrow>
    vm_step vm (vm\<lparr>v_mem := mem'\<rparr>)"
| service: "listen_thread (v_listener vm) \<Longrightarrow> \<not> listenfd_open (v_listener vm) \<Longrightarrow>
    listener_service ip sock bound (v_listener vm) = (l, out) \<Longrightarrow> vm_step vm (vm\<lparr>v_listener := l\<rparr>)"

inductive vm_reach :: "vm \<Rightarrow> vm \<Rightarrow> bool" for vm0 where
  init: "vm_reach vm0 vm0"
| step: "vm_reach vm0 vm \<Longrightarrow> vm_step vm vm' \<Longrightarrow> vm_reach vm0 vm'"

section \<open>Facts\<close>

lemma qdict_get_str_Inr: "qdict_get_str d k = Inr s \<longleftrightarrow> qdict_get d k = Some (QString s)"
  by (auto simp: qdict_get_str_def qdict_get_obj_def res_simps split: option.splits qobject.splits if_splits)

lemma qdict_get_int_Inr: "qdict_get_int d k = Inr i \<longleftrightarrow> qdict_get d k = Some (QInt i)"
  by (auto simp: qdict_get_int_def qdict_get_obj_def res_simps split: option.splits qobject.splits if_splits)

lemma args_okD:
  assumes "args_ok spec d" and "(n, k) \<in> set spec"
  shows "k = Str \<Longrightarrow> \<exists>s. qdict_get_str d n = Inr s" and "k = Long \<Longrightarrow> \<exists>i. qdict_get_int d n = Inr i"
proof -
  obtain obj where o: "qdict_get d n = Some obj" "arg_obj k obj"
    using assms by (fastforce simp: args_ok_def split: option.splits)
  show "\<exists>s. qdict_get_str d n = Inr s" if "k = Str"
    using o that by (cases obj) (simp_all add: qdict_get_str_Inr)
  show "\<exists>i. qdict_get_int d n = Inr i" if "k = Long"
    using o that by (cases obj) (simp_all add: qdict_get_int_Inr)
qed

lemmas handler_defs = hmp_list_process_def hmp_list_modules_def hmp_syscall_checker_def hmp_top_def
  hmp_free_def hmp_read_data_def hmp_trans_addr_def hmp_hostname_def hmp_ifconfig_def hmp_listen_def
  hmp_mem_logger_def

text \<open>A command changes neither the guest's memory nor another component's state.\<close>

lemma quiet_handlers:
  assumes "h \<in> {hmp_list_process, hmp_list_modules, hmp_top, hmp_free, hmp_read_data, hmp_trans_addr,
    hmp_hostname, hmp_ifconfig}" and "h env qdict vm = Inr (out, err, vm')"
  shows "v_mem vm' = v_mem vm \<and> v_checker vm' = v_checker vm \<and> v_listener vm' = v_listener vm \<and>
    v_loggers vm' = v_loggers vm"
  using assms
  by (elim insertE emptyE) (auto simp: hmp_list_process_def hmp_list_modules_def hmp_top_def
      hmp_free_def hmp_read_data_def hmp_trans_addr_def hmp_hostname_def hmp_ifconfig_def res_simps)

lemma stateful_handlers:
  "hmp_syscall_checker env qdict vm = Inr (out, err, vm') \<Longrightarrow>
     v_mem vm' = v_mem vm \<and> v_listener vm' = v_listener vm \<and> v_loggers vm' = v_loggers vm"
  "hmp_listen env qdict vm = Inr (out, err, vm') \<Longrightarrow>
     v_mem vm' = v_mem vm \<and> v_checker vm' = v_checker vm \<and> v_loggers vm' = v_loggers vm"
  "hmp_mem_logger env qdict vm = Inr (out, err, vm') \<Longrightarrow>
     v_mem vm' = v_mem vm \<and> v_checker vm' = v_checker vm \<and> v_listener vm' = v_listener vm"
  by (auto simp: hmp_syscall_checker_def hmp_listen_def hmp_mem_logger_def mem_logger_def res_simps
      split: if_splits prod.splits)

lemma command_cases:
  assumes "(name, spec, h) \<in> set plugin_commands"
  shows "h \<in> {hmp_list_process, hmp_list_modules, hmp_top, hmp_free, hmp_read_data, hmp_trans_addr,
      hmp_hostname, hmp_ifconfig} \<or> name = ''check_syscall'' \<and> h = hmp_syscall_checker \<or>
    name = ''listen'' \<and> h = hmp_listen \<or> name = ''mem-logger'' \<and> h = hmp_mem_logger"
  using assms unfolding plugin_commands_def list.set
  by (elim insertE emptyE) (simp_all only: prod.inject insert_iff simp_thms)

lemma command_frame:
  assumes "(name, spec, h) \<in> set plugin_commands" and "h env qdict vm = Inr (out, err, vm')"
  shows "v_mem vm' = v_mem vm" and "name \<noteq> ''check_syscall'' \<Longrightarrow> v_checker vm' = v_checker vm"
    and "name \<noteq> ''listen'' \<Longrightarrow> v_listener vm' = v_listener vm"
    and "name \<noteq> ''mem-logger'' \<Longrightarrow> v_loggers vm' = v_loggers vm"
proof -
  have "v_mem vm' = v_mem vm \<and> (name \<noteq> ''check_syscall'' \<longrightarrow> v_checker vm' = v_checker vm) \<and>
    (name \<noteq> ''listen'' \<longrightarrow> v_listener vm' = v_listener vm) \<and>
    (name \<noteq> ''mem-logger'' \<longrightarrow> v_loggers vm' = v_loggers vm)"
    using command_cases [OF assms(1)]
  proof (elim disjE conjE)
    assume "h \<in> {hmp_list_process, hmp_list_modules, hmp_top, hmp_free, hmp_read_data, hmp_trans_addr,
      hmp_hostname, hmp_ifconfig}"
    from quiet_handlers [of h env qdict vm out err vm', OF this assms(2)] show ?thesis by blast
  next
    assume n: "name = ''check_syscall''" and "h = hmp_syscall_checker"
    with assms(2) have "hmp_syscall_checker env qdict vm = Inr (out, err, vm')" by (simp only:)
    from stateful_handlers(1) [OF this] n show ?thesis by blast
  next
    assume n: "name = ''listen''" and "h = hmp_listen"
    with assms(2) have "hmp_listen env qdict vm = Inr (out, err, vm')" by (simp only:)
    from stateful_handlers(2) [OF this] n show ?thesis by blast
  next
    assume n: "name = ''mem-logger''" and "h = hmp_mem_logger"
    with assms(2) have "hmp_mem_logger env qdict vm = Inr (out, err, vm')" by (simp only:)
    from stateful_handlers(3) [OF this] n show ?thesis by blast
  qed
  then show "v_mem vm' = v_mem vm" and "name \<noteq> ''check_syscall'' \<Longrightarrow> v_checker vm' = v_checker vm"
    and "name \<noteq> ''listen'' \<Longrightarrow> v_listener vm' = v_listener vm"
    and "name \<noteq> ''mem-logger'' \<Longrightarrow> v_loggers vm' = v_loggers vm"
    by blast+
qed

definition vm_inv :: "vm \<Rightarrow> bool" where
  "vm_inv vm \<longleftrightarrow> checker_inv (v_checker vm) \<and> listener_inv (v_listener vm)"

lemma checker_command_inv:
  assumes "checker_inv (v_checker vm)" and "hmp_syscall_checker env qdict vm = Inr (out, err, vm')"
  shows "checker_inv (v_checker vm')"
proof -
  have "v_checker vm' = v_checker vm \<or> checker_step (v_mem vm, v_checker vm) (v_mem vm, v_checker vm')"
    using assms(2)
    by (auto simp: hmp_syscall_checker_def res_simps intro: checker_step.start checker_step.stop
        split: if_splits prod.splits)
  with checker_inv_step assms(1) show ?thesis by fastforce
qed

lemma listener_command_inv:
  assumes "listener_inv (v_listener vm)" and "hmp_listen env qdict vm = Inr (out, err, vm')"
  shows "listener_inv (v_listener vm')"
proof -
  have "v_listener vm' = v_listener vm \<or> listener_step (v_listener vm) (v_listener vm')"
    using assms(2)
    by (auto simp: hmp_listen_def res_simps intro: listener_step.start listener_step.stop
        split: if_splits prod.splits)
  with listener_inv_step assms(1) show ?thesis by fastforce
qed

lemma command_handler:
  "(''check_syscall'', spec, h) \<in> set plugin_commands \<Longrightarrow> h = hmp_syscall_checker"
  "(''listen'', spec, h) \<in> set plugin_commands \<Longrightarrow> h = hmp_listen"
  by (auto simp: plugin_commands_def)

lemma vm_inv_step: "vm_step vm vm' \<Longrightarrow> vm_inv vm \<Longrightarrow> vm_inv vm'"
proof (induction rule: vm_step.induct)
  case (command name spec h qdict env vm out err vm')
  note f = command_frame [OF command(1,3)]
  have "checker_inv (v_checker vm')"
    using command f(2) checker_command_inv [of vm env qdict out err vm'] command_handler(1)
    by (cases "name = ''check_syscall''") (auto simp: vm_inv_def)
  moreover have "listener_inv (v_listener vm')"
    using command f(3) listener_command_inv [of vm env qdict out err vm'] command_handler(2)
    by (cases "name = ''listen''") (auto simp: vm_inv_def)
  ultimately show ?case by (simp add: vm_inv_def)
next
  case (service vm ip sock bound l out)
  then have "listener_step (v_listener vm) l" by (auto intro: listener_step.service)
  with service(4) listener_inv_step show ?case by (simp add: vm_inv_def)
qed (simp_all add: vm_inv_def)

lemma vm_inv_reach: "vm_reach vm0 vm \<Longrightarrow> vm_inv vm0 \<Longrightarrow> vm_inv vm"
  by (induction rule: vm_reach.induct) (auto intro: vm_inv_step)

section \<open>Where assertions can fail\<close>

lemma rd_no_abort: "rd8 r a \<noteq> Inl Abort" "rd_bytes r a n \<noteq> Inl Abort" "rd64 r a \<noteq> Inl Abort"
  "rd32 r a \<noteq> Inl Abort"
proof -
  show 1: "rd8 r a \<noteq> Inl Abort" for a by (simp add: rd8_def split: option.splits)
  show 2: "rd_bytes r a n \<noteq> Inl Abort" for n
    by (induction n arbitrary: a) (auto simp: bindE_Inl_iff 1)
  show "rd64 r a \<noteq> Inl Abort" "rd32 r a \<noteq> Inl Abort"
    by (simp_all add: rd64_def rd32_def bindE_Inl_iff 2)
qed

lemma sprintf_no_abort: "sprintf_s r a cap \<noteq> Inl Abort" "sprintf_str n s \<noteq> Inl Abort"
  by (induction r a cap rule: sprintf_s.induct)
     (auto simp: bindE_Inl_iff rd_no_abort sprintf_str_def)

lemma walk_list_no_abort:
  "(\<And>g s. body g s \<noteq> Inl Abort) \<Longrightarrow> (\<And>g. next g \<noteq> Inl Abort) \<Longrightarrow>
     walk_list fuel stop body next g s \<noteq> Inl Abort"
  by (induction fuel arbitrary: g s) (auto simp: bindE_Inl_iff)

lemma foldE_no_abort: "(\<And>x s. f x s \<noteq> Inl Abort) \<Longrightarrow> foldE f xs s \<noteq> Inl Abort"
  by (induction xs arbitrary: s) (auto simp: bindE_Inl_iff)

lemma list_no_abort: "list_for_each_entry fuel off head h \<noteq> Inl Abort" "free_entries fuel off head h \<noteq> Inl Abort"
proof -
  have "for_each_from fuel off head ptr h \<noteq> Inl Abort" for ptr
    by (induction fuel arbitrary: ptr) (auto simp: bindE_Inl_iff)
  then show "list_for_each_entry fuel off head h \<noteq> Inl Abort" by (simp add: list_for_each_entry_def)
  have "free_entries_from fuel off head ptr h \<noteq> Inl Abort" for ptr h
    by (induction fuel arbitrary: ptr h) (auto simp: Let_def)
  then show "free_entries fuel off head h \<noteq> Inl Abort" by (simp add: free_entries_def)
qed

lemma guest_cstr_no_abort: "guest_cstr n mem a \<noteq> Inl Abort"
  by (induction n mem a rule: guest_cstr.induct) (auto simp: bindE_Inl_iff rd_no_abort)

lemmas basic_no_abort = rd_no_abort sprintf_no_abort walk_list_no_abort foldE_no_abort list_no_abort
  guest_cstr_no_abort

lemma trans_addr_no_abort: "trans_addr mem a c \<noteq> Inl Abort"
  by (simp add: trans_addr_def pud_offset_def pmd_offset_def pte_offset_kernel_def pte_pfn_def
      pgd_page_vaddr_def pud_page_vaddr_def pmd_page_vaddr_def bindE_Inl_iff rd_no_abort Let_def)

lemma traverse_no_abort: "traverse_tasks fuel mem h \<noteq> Inl Abort" "obtain_cr3 fuel mem h' \<noteq> Inl Abort"
proof -
  have r: "read_task mem b \<noteq> Inl Abort" "next_task_gva mem b \<noteq> Inl Abort" for b
    by (auto simp: read_task_def next_task_gva_def bindE_Inl_iff basic_no_abort)
  then have "traverse_tasks_loop fuel mem g t h \<noteq> Inl Abort" for g t h
    unfolding traverse_tasks_loop_def by (intro walk_list_no_abort) (auto simp: bindE_Inl_iff)
  with r show t: "traverse_tasks fuel mem h \<noteq> Inl Abort" for h
    by (auto simp: traverse_tasks_def Let_def bindE_Inl_iff split: prod.splits)
  then show "obtain_cr3 fuel mem h' \<noteq> Inl Abort"
    by (auto simp: obtain_cr3_def bindE_Inl_iff list_no_abort split: prod.splits)
qed

lemma list_commands_no_abort:
  "list_tasks fuel mem h \<noteq> Inl Abort" "list_modules fuel mem host \<noteq> Inl Abort"
  "print_hostname fuel mem st h \<noteq> Inl Abort"
proof -
  show "list_tasks fuel mem h \<noteq> Inl Abort"
    by (auto simp: list_tasks_def bindE_Inl_iff traverse_no_abort list_no_abort split: prod.splits)
  have "read_module mem b \<noteq> Inl Abort" for b
    by (auto simp: read_module_def Let_def bindE_Inl_iff basic_no_abort)
  then have "traverse_modules_loop fuel mem c g m h \<noteq> Inl Abort" for c g m h
    unfolding traverse_modules_loop_def
    by (intro walk_list_no_abort) (auto simp: bindE_Inl_iff basic_no_abort trans_addr_no_abort)
  then have "traverse_modules fuel mem host \<noteq> Inl Abort"
    by (auto simp: traverse_modules_def Let_def bindE_Inl_iff traverse_no_abort rd_no_abort
        split: prod.splits if_splits)
  then show "list_modules fuel mem host \<noteq> Inl Abort"
    by (auto simp: list_modules_def bindE_Inl_iff list_no_abort split: prod.splits option.splits)
  show "print_hostname fuel mem st h \<noteq> Inl Abort"
    by (auto simp: print_hostname_def get_hostname_def uts_name_hva_def copy_uts_def bindE_Inl_iff
        traverse_no_abort basic_no_abort split: prod.splits if_splits)
qed

lemma print_net_device_no_abort: "print_net_device fuel mem \<noteq> Inl Abort"
proof -
  have "net_device_lines fuel mem p \<noteq> Inl Abort" for p
    by (auto simp: net_device_lines_def inet_lines_def Let_def bindE_Inl_iff basic_no_abort split: if_splits)
  then have "walk_list fuel stop (\<lambda>gva out. bindE (net_device_lines fuel mem (virt_to_phys gva)) (\<lambda>s. Inr (out @ s)))
      (\<lambda>gva. rd64 mem (virt_to_phys gva)) g [] \<noteq> Inl Abort" for stop g
    by (intro walk_list_no_abort) (auto simp: bindE_Inl_iff rd_no_abort)
  then show ?thesis by (auto simp: print_net_device_def bindE_Inl_iff rd_no_abort)
qed

lemma mem_usage_no_abort: "mem_usage_handle fuel mem \<noteq> Inl Abort"
proof -
  have "bdev_nrpages mem h \<noteq> Inl Abort" for h
    by (auto simp: bdev_nrpages_def Let_def bindE_Inl_iff rd_no_abort)
  then have "walk_list fuel stop (\<lambda>gva tot. bindE (bdev_nrpages mem (virt_to_phys gva)) (\<lambda>n. Inr (tot + n)))
      (\<lambda>gva. rd64 mem (virt_to_phys gva)) g s \<noteq> Inl Abort" for stop g s
    by (intro walk_list_no_abort) (auto simp: bindE_Inl_iff rd_no_abort)
  then have b: "getBuffers fuel mem \<noteq> Inl Abort"
    by (auto simp: getBuffers_def bindE_Inl_iff rd_no_abort)
  have "swapcache_loop n mem p acc \<noteq> Inl Abort" for n p acc
    by (induction n arbitrary: p acc) (auto simp: bindE_Inl_iff rd_no_abort)
  with b show ?thesis
    by (auto simp: mem_usage_handle_def get_mem_usage_def getCached_def getMemTotal_def getMemFree_def
        getMemFile_def getMemSwapCache_def Let_def bindE_Inl_iff rd_no_abort)
qed

lemma cpu_usage_no_abort: "cpu_usage_handle c j j' mem1 mem2 \<noteq> Inl Abort"
proof -
  have "cpu_row_of mem c old \<noteq> Inl Abort" for mem c old
    by (auto simp: cpu_row_of_def cpu_time_defs cpustat_at_def Let_def bindE_Inl_iff rd_no_abort)
  then have "get_cpustat mem t n \<noteq> Inl Abort" for mem t n
    unfolding get_cpustat_def by (intro foldE_no_abort) (auto simp: bindE_Inl_iff Let_def)
  then show ?thesis
    by (auto simp: cpu_usage_handle_def cpu_usage_thread_def comp_cpu_usage_def get_cpu_num_def Let_def
        bindE_Inl_iff rd_no_abort)
qed

lemma checker_start_no_abort: "syscall_checker_start fuel c mem s \<noteq> Inl Abort"
proof -
  have "table_len fuel mem t n \<noteq> Inl Abort" for t n
    by (induction fuel arbitrary: n) (auto simp: bindE_Inl_iff rd_no_abort)
  moreover have "rd_words mem a n \<noteq> Inl Abort" for a n
    by (induction n arbitrary: a) (auto simp: bindE_Inl_iff rd_no_abort)
  ultimately show ?thesis by (auto simp: syscall_checker_start_def Let_def bindE_Inl_iff)
qed

lemmas component_no_abort = list_commands_no_abort print_net_device_no_abort mem_usage_no_abort
  cpu_usage_no_abort checker_start_no_abort trans_addr_no_abort

section \<open>An idle virtual machine\<close>

definition vm0 :: vm where
  "vm0 = \<lparr>v_mem = walk_ram, v_base = 0x7f0000000000, v_host = host0, v_checker = no_checker,
     v_listener = no_listener, v_loggers = []\<rparr>"

definition env0 :: env where
  "env0 = \<lparr>e_fuel = 5, e_created = True, e_cancelled = True, e_joined = True, e_junk = doc_junk,
     e_mem2 = walk_ram\<rparr>"

section \<open>Properties\<close>



text \<open>
  C26. No command of the plugin aborts QEMU: with arguments of the types declared for it, no
  assertion fails in its handler, for any guest memory and state.
\<close>

theorem commands_never_abort:
  assumes "(name, spec, h) \<in> set plugin_commands" and "args_ok spec qdict"
  shows "h env qdict vm \<noteq> Inl Abort"
proof -
  have arg: "\<forall>n. (n, Str) \<in> set spec \<longrightarrow> qdict_get_str qdict n \<noteq> Inl Abort"
    "\<forall>n. (n, Long) \<in> set spec \<longrightarrow> qdict_get_int qdict n \<noteq> Inl Abort"
    using args_okD [OF assms(2)] by (metis sum.distinct(1))+
  have rd: "read_gpa_ul b m a \<noteq> Inl Abort" for b m a
    by (simp add: read_gpa_ul_def rd_no_abort)
  show ?thesis
    using assms(1) arg
    by (auto simp: plugin_commands_def handler_defs bindE_Inl_iff component_no_abort rd
        split: if_splits prod.splits)
qed

theorem commands_never_abort_witness:
  "hmp_listen env0 (qdict_put_obj qdict_new ''action'' (QString ''start'')) vm0 \<noteq> Inl Abort"
proof -
  have c: "(''listen'', [(''action'', Str)], hmp_listen) \<in> set plugin_commands"
    by (simp add: plugin_commands_def)
  have a: "args_ok [(''action'', Str)] (qdict_put_obj qdict_new ''action'' (QString ''start''))"
    by (simp add: args_ok_def qd.get_put qd.inv_empty)
  show ?thesis by (rule commands_never_abort [OF c a])
qed



end
