(* ===== verification/KvmSlots.thy ===== *)
theory KvmSlots
  imports GuestRam "HOL-Library.Multiset"
begin

text \<open>
  Guest memory in KVM, \<open>x86/kvm_main.c\<close> and \<open>include/linux/kvm_host.h\<close> of kvm-kmod: the table
  of memory slots, its update by \<open>KVM_SET_USER_MEMORY_REGION\<close>, dirty logging and the
  translation of guest frame numbers to host addresses. Host user memory is a partial map
  from addresses to bytes. The architecture part of a slot (reverse maps, large page info),
  shadow page tables and RCU are left out; the kernel's \<open>sort\<close>, \<open>access_ok\<close>, \<open>vm_mmap\<close>, the
  IOMMU and allocations are parameters. The invariant \<open>kvm_inv\<close> of the table is what the
  lookups rely on; every update keeps it.
\<close>

section \<open>Data\<close>

definition KVM_USER_MEM_SLOTS :: nat where
  "KVM_USER_MEM_SLOTS = 125"

definition KVM_PRIVATE_MEM_SLOTS :: nat where
  "KVM_PRIVATE_MEM_SLOTS = 3"

definition KVM_MEM_SLOTS_NUM :: nat where
  "KVM_MEM_SLOTS_NUM = KVM_USER_MEM_SLOTS + KVM_PRIVATE_MEM_SLOTS"

definition KVM_MEM_MAX_NR_PAGES :: u64 where
  "KVM_MEM_MAX_NR_PAGES = push_bit 31 1 - 1"

definition KVM_MEM_LOG_DIRTY_PAGES :: u32 where
  "KVM_MEM_LOG_DIRTY_PAGES = 1"

definition KVM_MEM_READONLY :: u32 where
  "KVM_MEM_READONLY = 2"

definition KVM_MEMSLOT_INVALID :: u32 where
  "KVM_MEMSLOT_INVALID = 0x10000"

text \<open>Error numbers of the kernel interface.\<close>

definition ENOENT :: int where "ENOENT = 2"
definition ENOMEM :: int where "ENOMEM = 12"
definition EFAULT :: int where "EFAULT = 14"
definition EEXIST :: int where "EEXIST = 17"
definition EINVAL :: int where "EINVAL = 22"

definition PG_SIZE :: nat where
  "PG_SIZE = 4096"

text \<open>The dirty bitmap is a list of bits, twice as long as the slot needs.\<close>

record kvm_memory_slot =
  base_gfn :: u64
  npages :: u64
  dirty_bitmap :: "bool list option"
  userspace_addr :: u64
  flags :: u32
  slot_id :: nat

record kvm_memslots =
  generation :: u64
  memslots :: "kvm_memory_slot list"
  id_to_index :: "nat list"

record kvm =
  kvm_slots :: kvm_memslots
  umem :: ram

record kvm_userspace_memory_region =
  mr_slot :: nat
  mr_flags :: u32
  guest_phys_addr :: u64
  memory_size :: u64
  mr_userspace_addr :: u64

datatype kvm_mr_change = KVM_MR_CREATE | KVM_MR_DELETE | KVM_MR_MOVE | KVM_MR_FLAGS_ONLY

section \<open>Looking up slots\<close>

text \<open>\<open>kvm_for_each_memslot\<close> stops at the first slot without pages.\<close>

definition active_slots :: "kvm_memslots \<Rightarrow> kvm_memory_slot list" where
  "active_slots slots = takeWhile (\<lambda>s. npages s \<noteq> 0) (memslots slots)"

definition id_to_memslot :: "kvm_memslots \<Rightarrow> nat \<Rightarrow> kvm_memory_slot" where
  "id_to_memslot slots i = memslots slots ! (id_to_index slots ! i)"

definition in_slot :: "u64 \<Rightarrow> kvm_memory_slot \<Rightarrow> bool" where
  "in_slot gfn s \<longleftrightarrow> base_gfn s \<le> gfn \<and> gfn < base_gfn s + npages s"

definition search_memslots :: "kvm_memslots \<Rightarrow> u64 \<Rightarrow> kvm_memory_slot option" where
  "search_memslots slots gfn = find (in_slot gfn) (active_slots slots)"

definition gfn_to_memslot :: "kvm \<Rightarrow> u64 \<Rightarrow> kvm_memory_slot option" where
  "gfn_to_memslot kvm gfn = search_memslots (kvm_slots kvm) gfn"

definition kvm_is_visible_gfn :: "kvm \<Rightarrow> u64 \<Rightarrow> int" where
  "kvm_is_visible_gfn kvm gfn =
     (case gfn_to_memslot kvm gfn of None \<Rightarrow> 0
      | Some s \<Rightarrow> if KVM_USER_MEM_SLOTS \<le> slot_id s \<or> flags s AND KVM_MEMSLOT_INVALID \<noteq> 0 then 0 else 1)"

section \<open>Frame numbers to host addresses\<close>

text \<open>An error is an address in the kernel half, from \<open>PAGE_OFFSET\<close> on.\<close>

definition KVM_HVA_ERR_BAD :: u64 where
  "KVM_HVA_ERR_BAD = 0xffff880000000000"

definition KVM_HVA_ERR_RO_BAD :: u64 where
  "KVM_HVA_ERR_RO_BAD = KVM_HVA_ERR_BAD + of_nat PG_SIZE"

definition kvm_is_error_hva :: "u64 \<Rightarrow> bool" where
  "kvm_is_error_hva addr \<longleftrightarrow> KVM_HVA_ERR_BAD \<le> addr"

definition memslot_is_readonly :: "kvm_memory_slot \<Rightarrow> bool" where
  "memslot_is_readonly s \<longleftrightarrow> flags s AND KVM_MEM_READONLY \<noteq> 0"

definition gfn_to_hva_memslot :: "kvm_memory_slot \<Rightarrow> u64 \<Rightarrow> u64" where
  "gfn_to_hva_memslot s gfn = userspace_addr s + (gfn - base_gfn s) * of_nat PG_SIZE"

text \<open>\<open>__gfn_to_hva_many\<close>: the address and the number of pages from \<open>gfn\<close> to the end of the slot.\<close>

definition gfn_to_hva_many :: "kvm_memory_slot option \<Rightarrow> u64 \<Rightarrow> bool \<Rightarrow> u64 \<times> u64 option" where
  "gfn_to_hva_many slot gfn write =
     (case slot of None \<Rightarrow> (KVM_HVA_ERR_BAD, None)
      | Some s \<Rightarrow>
          if flags s AND KVM_MEMSLOT_INVALID \<noteq> 0 then (KVM_HVA_ERR_BAD, None)
          else if memslot_is_readonly s \<and> write then (KVM_HVA_ERR_RO_BAD, None)
          else (gfn_to_hva_memslot s gfn, Some (npages s - (gfn - base_gfn s))))"

definition gfn_to_hva :: "kvm \<Rightarrow> u64 \<Rightarrow> u64" where
  "gfn_to_hva kvm gfn = fst (gfn_to_hva_many (gfn_to_memslot kvm gfn) gfn True)"

definition gfn_to_hva_prot :: "kvm \<Rightarrow> u64 \<Rightarrow> u64" where
  "gfn_to_hva_prot kvm gfn = fst (gfn_to_hva_many (gfn_to_memslot kvm gfn) gfn False)"

section \<open>Dirty logging\<close>

definition kvm_dirty_bitmap_bytes :: "kvm_memory_slot \<Rightarrow> u64" where
  "kvm_dirty_bitmap_bytes s = ((npages s + 63) AND NOT 63) div 8"

text \<open>The new, cleared bitmap; \<open>None\<close> when the allocation fails.\<close>

definition kvm_create_dirty_bitmap :: "bool \<Rightarrow> kvm_memory_slot \<Rightarrow> kvm_memory_slot option" where
  "kvm_create_dirty_bitmap alloc s =
     (if alloc then Some (s\<lparr>dirty_bitmap := Some (replicate (8 * unat (2 * kvm_dirty_bitmap_bytes s)) False)\<rparr>)
      else None)"

definition mark_slot :: "u64 \<Rightarrow> kvm_memory_slot \<Rightarrow> kvm_memory_slot" where
  "mark_slot gfn s =
     (case dirty_bitmap s of None \<Rightarrow> s
      | Some b \<Rightarrow> s\<lparr>dirty_bitmap := Some (b[unat (gfn - base_gfn s) := True])\<rparr>)"

text \<open>\<open>mark_page_dirty_in_slot\<close>: the slot is the one with identifier \<open>i\<close>.\<close>

definition mark_page_dirty_in_slot :: "nat \<Rightarrow> u64 \<Rightarrow> kvm \<Rightarrow> kvm" where
  "mark_page_dirty_in_slot i gfn kvm =
     kvm\<lparr>kvm_slots := (kvm_slots kvm)\<lparr>memslots :=
       map (\<lambda>s. if slot_id s = i then mark_slot gfn s else s) (memslots (kvm_slots kvm))\<rparr>\<rparr>"

definition mark_page_dirty :: "u64 \<Rightarrow> kvm \<Rightarrow> kvm" where
  "mark_page_dirty gfn kvm =
     (case gfn_to_memslot kvm gfn of None \<Rightarrow> kvm
      | Some s \<Rightarrow> mark_page_dirty_in_slot (slot_id s) gfn kvm)"

text \<open>\<open>kvm_get_dirty_log\<close>: the copied bits, and whether any is set; \<open>copied\<close> is whether the copy succeeds.\<close>

definition kvm_get_dirty_log :: "bool \<Rightarrow> kvm \<Rightarrow> nat \<Rightarrow> int \<times> bool list \<times> bool" where
  "kvm_get_dirty_log copied kvm slot =
     (if KVM_USER_MEM_SLOTS \<le> slot then (- EINVAL, [], False)
      else let s = id_to_memslot (kvm_slots kvm) slot in
        case dirty_bitmap s of None \<Rightarrow> (- ENOENT, [], False)
        | Some b \<Rightarrow>
            let bits = take (8 * unat (kvm_dirty_bitmap_bytes s)) b
            in if \<not> copied then (- EFAULT, [], False) else (0, bits, True \<in> set bits))"

section \<open>Updating the table\<close>

text \<open>
  The surroundings of an update: \<open>access_ok\<close>, whether the architecture part, the bitmap and
  the copy of the table can be allocated, \<open>vm_mmap\<close> (an error number or an address),
  \<open>kvm_iommu_map_pages\<close> and the kernel's \<open>sort\<close> with \<open>cmp_memslot\<close>.
\<close>

record mr_env =
  access_ok :: "u64 \<Rightarrow> u64 \<Rightarrow> bool"
  alloc_arch :: bool
  alloc_bitmap :: bool
  alloc_slots :: bool
  vm_mmap :: "u64 \<Rightarrow> int + u64"
  iommu_map_pages :: int
  sort_fn :: "(kvm_memory_slot \<Rightarrow> kvm_memory_slot \<Rightarrow> int) \<Rightarrow> kvm_memory_slot list \<Rightarrow> kvm_memory_slot list"

definition empty_slot :: "nat \<Rightarrow> kvm_memory_slot" where
  "empty_slot i = \<lparr>base_gfn = 0, npages = 0, dirty_bitmap = None, userspace_addr = 0, flags = 0, slot_id = i\<rparr>"

definition kvm_init_memslots_id :: "kvm_memslots" where
  "kvm_init_memslots_id =
     \<lparr>generation = 0, memslots = map empty_slot [0..<KVM_MEM_SLOTS_NUM], id_to_index = [0..<KVM_MEM_SLOTS_NUM]\<rparr>"

definition cmp_memslot :: "kvm_memory_slot \<Rightarrow> kvm_memory_slot \<Rightarrow> int" where
  "cmp_memslot s1 s2 = (if npages s1 < npages s2 then 1 else if npages s1 > npages s2 then -1 else 0)"

fun reindex :: "nat \<Rightarrow> kvm_memory_slot list \<Rightarrow> nat list \<Rightarrow> nat list" where
  "reindex i [] idx = idx"
| "reindex i (s # ss) idx = reindex (Suc i) ss (idx[slot_id s := i])"

definition sort_memslots :: "mr_env \<Rightarrow> kvm_memslots \<Rightarrow> kvm_memslots" where
  "sort_memslots env slots =
     (let ms = sort_fn env cmp_memslot (memslots slots)
      in slots\<lparr>memslots := ms, id_to_index := reindex 0 ms (id_to_index slots)\<rparr>)"

definition put_slot :: "kvm_memory_slot \<Rightarrow> kvm_memslots \<Rightarrow> kvm_memslots" where
  "put_slot new slots = slots\<lparr>memslots := (memslots slots)[id_to_index slots ! slot_id new := new]\<rparr>"

definition update_memslots :: "mr_env \<Rightarrow> kvm_memslots \<Rightarrow> kvm_memory_slot option \<Rightarrow> u64 \<Rightarrow> kvm_memslots" where
  "update_memslots env slots new last_generation =
     (case new of None \<Rightarrow> slots
      | Some n \<Rightarrow>
          if npages n \<noteq> npages (id_to_memslot slots (slot_id n)) then sort_memslots env (put_slot n slots)
          else put_slot n slots)\<lparr>generation := last_generation + 1\<rparr>"

definition install_new_memslots :: "mr_env \<Rightarrow> kvm \<Rightarrow> kvm_memslots \<Rightarrow> kvm_memory_slot option \<Rightarrow> kvm" where
  "install_new_memslots env kvm slots new =
     kvm\<lparr>kvm_slots := update_memslots env slots new (generation (kvm_slots kvm))\<rparr>"

definition check_memory_region_flags :: "kvm_userspace_memory_region \<Rightarrow> int" where
  "check_memory_region_flags mem =
     (if mr_flags mem AND NOT (KVM_MEM_LOG_DIRTY_PAGES OR KVM_MEM_READONLY) \<noteq> 0 then - EINVAL else 0)"

text \<open>The sanity checks before the slot is looked up.\<close>

definition region_sane :: "mr_env \<Rightarrow> kvm_userspace_memory_region \<Rightarrow> bool" where
  "region_sane env mem \<longleftrightarrow>
     memory_size mem AND 0xfff = 0 \<and> guest_phys_addr mem AND 0xfff = 0 \<and>
     \<not> (mr_slot mem < KVM_USER_MEM_SLOTS \<and>
         (mr_userspace_addr mem AND 0xfff \<noteq> 0 \<or> \<not> access_ok env (mr_userspace_addr mem) (memory_size mem))) \<and>
     mr_slot mem < KVM_MEM_SLOTS_NUM \<and>
     \<not> guest_phys_addr mem + memory_size mem < guest_phys_addr mem"

text \<open>What changes; on the left the return value when nothing does.\<close>

definition region_change ::
    "kvm_userspace_memory_region \<Rightarrow> kvm_memory_slot \<Rightarrow> kvm_memory_slot \<Rightarrow> int + kvm_mr_change" where
  "region_change mem old new =
     (if npages new \<noteq> 0 then
        if npages old = 0 then Inr KVM_MR_CREATE
        else if mr_userspace_addr mem \<noteq> userspace_addr old \<or> npages new \<noteq> npages old \<or>
                (flags new XOR flags old) AND KVM_MEM_READONLY \<noteq> 0 then Inl (- EINVAL)
        else if base_gfn new \<noteq> base_gfn old then Inr KVM_MR_MOVE
        else if flags new \<noteq> flags old then Inr KVM_MR_FLAGS_ONLY
        else Inl 0
      else if npages old \<noteq> 0 then Inr KVM_MR_DELETE
      else Inl (- EINVAL))"

definition overlaps :: "kvm_memory_slot \<Rightarrow> kvm_memslots \<Rightarrow> bool" where
  "overlaps new slots \<longleftrightarrow>
     list_ex (\<lambda>s. \<not> (KVM_USER_MEM_SLOTS \<le> slot_id s \<or> slot_id s = slot_id new) \<and>
       \<not> (base_gfn new + npages new \<le> base_gfn s \<or> base_gfn s + npages s \<le> base_gfn new)) (active_slots slots)"

text \<open>The new slot's address and bitmap; \<open>None\<close> when an allocation fails.\<close>

definition fill_slot ::
    "mr_env \<Rightarrow> kvm_mr_change \<Rightarrow> kvm_userspace_memory_region \<Rightarrow> kvm_memory_slot \<Rightarrow> kvm_memory_slot option" where
  "fill_slot env change mem new =
     (let new = (if flags new AND KVM_MEM_LOG_DIRTY_PAGES = 0 then new\<lparr>dirty_bitmap := None\<rparr> else new);
          new = (if change = KVM_MR_CREATE then new\<lparr>userspace_addr := mr_userspace_addr mem\<rparr> else new)
      in if change = KVM_MR_CREATE \<and> \<not> alloc_arch env then None
         else if flags new AND KVM_MEM_LOG_DIRTY_PAGES \<noteq> 0 \<and> dirty_bitmap new = None
         then kvm_create_dirty_bitmap (alloc_bitmap env) new
         else Some new)"

definition kvm_arch_prepare_memory_region ::
    "mr_env \<Rightarrow> kvm_memory_slot \<Rightarrow> kvm_mr_change \<Rightarrow> int + kvm_memory_slot" where
  "kvm_arch_prepare_memory_region env s change =
     (if KVM_USER_MEM_SLOTS \<le> slot_id s \<and> change = KVM_MR_CREATE
      then case vm_mmap env (npages s * of_nat PG_SIZE) of
             Inl e \<Rightarrow> Inl e | Inr a \<Rightarrow> Inr (s\<lparr>userspace_addr := a\<rparr>)
      else Inr s)"

definition invalidate_slot :: "kvm_memslots \<Rightarrow> nat \<Rightarrow> kvm_memslots" where
  "invalidate_slot slots i =
     (let s = id_to_memslot slots i in put_slot (s\<lparr>flags := flags s OR KVM_MEMSLOT_INVALID\<rparr>) slots)"

text \<open>
  From the installation of the invalidated table to the return; the table the new slot is put
  into is the one from before the invalidation.
\<close>

definition install_slot :: "mr_env \<Rightarrow> kvm_mr_change \<Rightarrow> kvm_memory_slot \<Rightarrow> kvm \<Rightarrow> int \<times> kvm" where
  "install_slot env change new kvm =
     (if \<not> alloc_slots env \<and> (change = KVM_MR_DELETE \<or> change = KVM_MR_MOVE) then (- ENOMEM, kvm)
      else let kvm1 = (if change = KVM_MR_DELETE \<or> change = KVM_MR_MOVE
                       then install_new_memslots env kvm (invalidate_slot (kvm_slots kvm) (slot_id new)) None
                       else kvm)
      in case kvm_arch_prepare_memory_region env new change of
           Inl e \<Rightarrow> (e, kvm1)
         | Inr new \<Rightarrow>
             if \<not> alloc_slots env then (- ENOMEM, kvm1)
             else let new = (if change = KVM_MR_DELETE then new\<lparr>dirty_bitmap := None\<rparr> else new);
                      kvm2 = install_new_memslots env kvm1 (kvm_slots kvm) (Some new)
                  in (if change = KVM_MR_CREATE \<or> change = KVM_MR_MOVE then iommu_map_pages env else 0, kvm2))"

definition kvm_set_memory_region :: "mr_env \<Rightarrow> kvm \<Rightarrow> kvm_userspace_memory_region \<Rightarrow> int \<times> kvm" where
  "kvm_set_memory_region env kvm mem =
     (if check_memory_region_flags mem \<noteq> 0 then (check_memory_region_flags mem, kvm)
      else if \<not> region_sane env mem then (- EINVAL, kvm)
      else let old = id_to_memslot (kvm_slots kvm) (mr_slot mem);
               np = drop_bit 12 (memory_size mem)
      in if KVM_MEM_MAX_NR_PAGES < np then (- EINVAL, kvm)
      else let fl = (if np = 0 then mr_flags mem AND NOT KVM_MEM_LOG_DIRTY_PAGES else mr_flags mem);
               new = old\<lparr>slot_id := mr_slot mem, base_gfn := drop_bit 12 (guest_phys_addr mem),
                         npages := np, flags := fl\<rparr>
      in case region_change mem old new of
           Inl r \<Rightarrow> (r, kvm)
         | Inr change \<Rightarrow>
             if (change = KVM_MR_CREATE \<or> change = KVM_MR_MOVE) \<and> overlaps new (kvm_slots kvm)
             then (- EEXIST, kvm)
             else case fill_slot env change mem new of
                    None \<Rightarrow> (- ENOMEM, kvm)
                  | Some new \<Rightarrow> install_slot env change new kvm)"

definition kvm_vm_ioctl_set_memory_region :: "mr_env \<Rightarrow> kvm \<Rightarrow> kvm_userspace_memory_region \<Rightarrow> int \<times> kvm" where
  "kvm_vm_ioctl_set_memory_region env kvm mem =
     (if KVM_USER_MEM_SLOTS \<le> mr_slot mem then (- EINVAL, kvm) else kvm_set_memory_region env kvm mem)"

section \<open>The invariant\<close>

definition slot_range :: "kvm_memory_slot \<Rightarrow> nat set" where
  "slot_range s = {unat (base_gfn s) ..< unat (base_gfn s) + unat (npages s)}"

text \<open>Host addresses of user programs are below \<open>2 ^ 47\<close>.\<close>

definition user_pages :: "u64 \<Rightarrow> u64 \<Rightarrow> bool" where
  "user_pages a np \<longleftrightarrow> a AND 0xfff = 0 \<and> unat a + 4096 * unat np \<le> 2 ^ 47"

definition slot_ok :: "kvm_memory_slot \<Rightarrow> bool" where
  "slot_ok s \<longleftrightarrow>
     unat (base_gfn s) + unat (npages s) \<le> 2 ^ 52 \<and> npages s \<le> KVM_MEM_MAX_NR_PAGES \<and>
     user_pages (userspace_addr s) (npages s) \<and>
     (case dirty_bitmap s of None \<Rightarrow> flags s AND KVM_MEM_LOG_DIRTY_PAGES = 0
      | Some b \<Rightarrow> npages s \<noteq> 0 \<and> unat (npages s) \<le> length b \<and> flags s AND KVM_MEM_LOG_DIRTY_PAGES \<noteq> 0)"

definition table_ok :: "kvm_memslots \<Rightarrow> bool" where
  "table_ok slots \<longleftrightarrow>
     mset (map slot_id (memslots slots)) = mset [0..<KVM_MEM_SLOTS_NUM] \<and>
     length (id_to_index slots) = KVM_MEM_SLOTS_NUM \<and>
     (\<forall>i<length (memslots slots). id_to_index slots ! slot_id (memslots slots ! i) = i) \<and>
     sorted_wrt (\<lambda>s t. npages t \<le> npages s) (memslots slots)"

definition user_disjoint :: "kvm_memory_slot list \<Rightarrow> bool" where
  "user_disjoint ms \<longleftrightarrow>
     (\<forall>s\<in>set ms. \<forall>t\<in>set ms. slot_id s < KVM_USER_MEM_SLOTS \<longrightarrow> slot_id t < KVM_USER_MEM_SLOTS \<longrightarrow>
        slot_id s \<noteq> slot_id t \<longrightarrow> slot_range s \<inter> slot_range t = {})"

definition kvm_inv :: "kvm \<Rightarrow> bool" where
  "kvm_inv kvm \<longleftrightarrow>
     table_ok (kvm_slots kvm) \<and> (\<forall>s\<in>set (memslots (kvm_slots kvm)). slot_ok s) \<and>
     user_disjoint (memslots (kvm_slots kvm))"

text \<open>What the kernel promises of \<open>sort\<close>, \<open>access_ok\<close> and \<open>vm_mmap\<close>.\<close>

definition env_ok :: "mr_env \<Rightarrow> bool" where
  "env_ok env \<longleftrightarrow>
     (\<forall>cmp xs. mset (sort_fn env cmp xs) = mset xs) \<and>
     (\<forall>xs. sorted_wrt (\<lambda>s t. cmp_memslot s t \<le> 0) (sort_fn env cmp_memslot xs)) \<and>
     (\<forall>a n. access_ok env a n \<longrightarrow> unat a + unat n \<le> 2 ^ 47) \<and>
     (\<forall>n a. vm_mmap env n = Inr a \<longrightarrow> a AND 0xfff = 0 \<and> unat a + unat n \<le> 2 ^ 47)"

text \<open>What a successful update has put into the slot it names, and when a slot fits into the table.\<close>

definition as_requested :: "kvm_userspace_memory_region \<Rightarrow> kvm_memory_slot \<Rightarrow> bool" where
  "as_requested mem s \<longleftrightarrow>
     (let np = drop_bit 12 (memory_size mem) in
      base_gfn s = drop_bit 12 (guest_phys_addr mem) \<and> npages s = np \<and>
      flags s = (if np = 0 then mr_flags mem AND NOT KVM_MEM_LOG_DIRTY_PAGES else mr_flags mem) \<and>
      (mr_slot mem < KVM_USER_MEM_SLOTS \<and> np \<noteq> 0 \<longrightarrow> userspace_addr s = mr_userspace_addr mem))"

definition slot_fits :: "kvm_memory_slot \<Rightarrow> kvm_memslots \<Rightarrow> bool" where
  "slot_fits new slots \<longleftrightarrow>
     slot_id new < KVM_MEM_SLOTS_NUM \<and> slot_ok new \<and>
     (\<forall>s\<in>set (memslots slots). slot_id new < KVM_USER_MEM_SLOTS \<longrightarrow> slot_id s < KVM_USER_MEM_SLOTS \<longrightarrow>
        slot_id s \<noteq> slot_id new \<longrightarrow> slot_range s \<inter> slot_range new = {})"

section \<open>Updates keep the invariant\<close>

lemma length_reindex [simp]: "length (reindex i ss idx) = length idx"
  by (induction i ss idx rule: reindex.induct) simp_all

lemma reindex_other: "x \<notin> slot_id ` set ss \<Longrightarrow> reindex i ss idx ! x = idx ! x"
  by (induction i ss idx rule: reindex.induct) auto

lemma reindex_nth:
  "distinct (map slot_id ss) \<Longrightarrow> \<forall>s\<in>set ss. slot_id s < length idx \<Longrightarrow> k < length ss \<Longrightarrow>
     reindex i ss idx ! slot_id (ss ! k) = i + k"
proof (induction i ss idx arbitrary: k rule: reindex.induct)
  case (2 i s ss idx)
  then show ?case
    by (cases k) (simp_all add: reindex_other)
qed simp

lemma table_okD:
  assumes "table_ok slots"
  shows table_ok_length: "length (memslots slots) = KVM_MEM_SLOTS_NUM"
    and table_ok_distinct: "distinct (map slot_id (memslots slots))"
    and table_ok_id: "s \<in> set (memslots slots) \<Longrightarrow> slot_id s < KVM_MEM_SLOTS_NUM"
    and table_ok_ids: "slot_id ` set (memslots slots) = {..<KVM_MEM_SLOTS_NUM}"
proof -
  have m: "mset (map slot_id (memslots slots)) = mset [0..<KVM_MEM_SLOTS_NUM]"
    using assms by (simp add: table_ok_def)
  show "length (memslots slots) = KVM_MEM_SLOTS_NUM"
    using mset_eq_length [OF m] by simp
  show "distinct (map slot_id (memslots slots))"
    using mset_eq_imp_distinct_iff [OF m] by simp
  show ids: "slot_id ` set (memslots slots) = {..<KVM_MEM_SLOTS_NUM}"
    using mset_eq_setD [OF m] by auto
  show "s \<in> set (memslots slots) \<Longrightarrow> slot_id s < KVM_MEM_SLOTS_NUM"
    using ids by auto
qed

lemma id_to_memslot_ok:
  assumes "table_ok slots" "i < KVM_MEM_SLOTS_NUM"
  shows id_to_memslot_in: "id_to_memslot slots i \<in> set (memslots slots)"
    and slot_id_id_to_memslot: "slot_id (id_to_memslot slots i) = i"
    and id_to_index_less: "id_to_index slots ! i < length (memslots slots)"
proof -
  obtain s where s: "s \<in> set (memslots slots)" "slot_id s = i"
    using table_ok_ids [OF assms(1)] assms(2) by (metis imageE lessThan_iff)
  then obtain k where k: "k < length (memslots slots)" "memslots slots ! k = s"
    by (auto simp: in_set_conv_nth)
  then have "id_to_index slots ! i = k"
    using assms(1) s by (auto simp: table_ok_def)
  with k s show "id_to_memslot slots i \<in> set (memslots slots)" "slot_id (id_to_memslot slots i) = i"
      "id_to_index slots ! i < length (memslots slots)"
    by (auto simp: id_to_memslot_def)
qed

lemma id_to_memslot_of:
  "table_ok slots \<Longrightarrow> s \<in> set (memslots slots) \<Longrightarrow> id_to_memslot slots (slot_id s) = s"
  by (auto simp: table_ok_def id_to_memslot_def in_set_conv_nth)

lemma map_slot_id_put_slot:
  assumes "table_ok slots" "slot_id new < KVM_MEM_SLOTS_NUM"
  shows "map slot_id (memslots (put_slot new slots)) = map slot_id (memslots slots)"
proof -
  have "map slot_id (memslots slots) ! (id_to_index slots ! slot_id new) = slot_id new"
    using id_to_memslot_ok [OF assms] by (simp add: id_to_memslot_def)
  then show ?thesis
    by (simp add: put_slot_def map_update list_update_same_conv id_to_index_less [OF assms])
qed

lemma put_slot_members:
  assumes "table_ok slots" "slot_id new < KVM_MEM_SLOTS_NUM" "s \<in> set (memslots (put_slot new slots))"
  shows "s = new \<or> s \<in> set (memslots slots) \<and> slot_id s \<noteq> slot_id new"
proof -
  obtain k where k: "k < length (memslots slots)" "s = (memslots (put_slot new slots)) ! k"
    using assms(3) by (auto simp: in_set_conv_nth put_slot_def)
  show ?thesis
  proof (cases "k = id_to_index slots ! slot_id new")
    case True
    then show ?thesis using k by (simp add: put_slot_def)
  next
    case False
    then have s: "s = memslots slots ! k"
      using k by (simp add: put_slot_def)
    moreover have "id_to_index slots ! slot_id (memslots slots ! k) = k"
      using assms(1) k by (simp add: table_ok_def)
    ultimately show ?thesis
      using False k by auto
  qed
qed

lemma sorted_wrt_update_same:
  fixes f :: "'a \<Rightarrow> 'b::linorder"
  assumes "sorted_wrt (\<lambda>s t. f t \<le> f s) xs" "f y = f (xs ! i)"
  shows "sorted_wrt (\<lambda>s t. f t \<le> f s) (xs[i := y])"
  using assms unfolding sorted_wrt_iff_nth_less
  by (cases "i < length xs") (auto simp: nth_list_update)

lemma put_slot_table_ok:
  assumes t: "table_ok slots" and i: "slot_id new < KVM_MEM_SLOTS_NUM"
    and n: "npages new = npages (id_to_memslot slots (slot_id new))"
  shows "table_ok (put_slot new slots)"
proof -
  have ids: "slot_id (memslots (put_slot new slots) ! k) = slot_id (memslots slots ! k)"
    if "k < length (memslots slots)" for k
    using arg_cong [OF map_slot_id_put_slot [OF t i], of "\<lambda>xs. xs ! k"] that by (simp add: put_slot_def)
  show ?thesis
    using t n map_slot_id_put_slot [OF t i] ids
    unfolding table_ok_def by (auto simp: put_slot_def id_to_memslot_def intro!: sorted_wrt_update_same)
qed

lemma cmp_memslot_le: "cmp_memslot s t \<le> 0 \<longleftrightarrow> npages t \<le> npages s"
  by (auto simp: cmp_memslot_def)

lemma sort_memslots_table_ok:
  assumes env: "env_ok env"
    and m: "mset (map slot_id (memslots slots)) = mset [0..<KVM_MEM_SLOTS_NUM]"
    and l: "length (id_to_index slots) = KVM_MEM_SLOTS_NUM"
  shows "table_ok (sort_memslots env slots)"
proof -
  define ms where "ms = sort_fn env cmp_memslot (memslots slots)"
  have ms: "mset (map slot_id ms) = mset [0..<KVM_MEM_SLOTS_NUM]"
    using env m by (simp add: env_ok_def ms_def)
  have d: "distinct (map slot_id ms)"
    using mset_eq_imp_distinct_iff [OF ms] by simp
  have r: "\<forall>s\<in>set ms. slot_id s < length (id_to_index slots)"
    using mset_eq_setD [OF ms] l by auto
  have "sorted_wrt (\<lambda>s t. npages t \<le> npages s) ms"
    using env by (simp add: env_ok_def ms_def cmp_memslot_le)
  then show ?thesis
    using ms l reindex_nth [OF d r, of _ 0] by (simp add: table_ok_def sort_memslots_def ms_def [symmetric])
qed

lemma update_memslots_ok:
  assumes env: "env_ok env" and t: "table_ok slots" and i: "slot_id new < KVM_MEM_SLOTS_NUM"
  shows "table_ok (update_memslots env slots (Some new) g)"
    and "set (memslots (update_memslots env slots (Some new) g)) = set (memslots (put_slot new slots))"
proof -
  have [simp]: "table_ok (s\<lparr>generation := g'\<rparr>) = table_ok s" for s g'
    by (simp add: table_ok_def)
  have "mset (sort_fn env cmp_memslot xs) = mset xs" for xs
    using env by (simp add: env_ok_def)
  then have [simp]: "set (sort_fn env cmp_memslot xs) = set xs" for xs
    by (rule mset_eq_setD)
  have m: "mset (map slot_id (memslots (put_slot new slots))) = mset [0..<KVM_MEM_SLOTS_NUM]"
    using t by (simp only: map_slot_id_put_slot [OF t i] table_ok_def)
  have l: "length (id_to_index (put_slot new slots)) = KVM_MEM_SLOTS_NUM"
    using t by (simp add: put_slot_def table_ok_def)
  show "table_ok (update_memslots env slots (Some new) g)"
    using put_slot_table_ok [OF t i] sort_memslots_table_ok [OF env m l]
    by (simp add: update_memslots_def)
  show "set (memslots (update_memslots env slots (Some new) g)) = set (memslots (put_slot new slots))"
    by (simp add: update_memslots_def sort_memslots_def Let_def)
qed

lemma put_slot_members_ok:
  assumes "table_ok slots" "\<forall>s\<in>set (memslots slots). slot_ok s" "user_disjoint (memslots slots)"
    and fits: "slot_fits new slots" and ms: "set ms = set (memslots (put_slot new slots))"
  shows "\<forall>s\<in>set ms. slot_ok s" "user_disjoint ms"
proof -
  have i: "slot_id new < KVM_MEM_SLOTS_NUM"
    using fits by (simp add: slot_fits_def)
  note mem = put_slot_members [OF assms(1) i]
  show "\<forall>s\<in>set ms. slot_ok s"
    using mem assms(2) fits ms by (auto simp: slot_fits_def)
  show "user_disjoint ms"
    unfolding user_disjoint_def
  proof (intro ballI impI)
    fix s t
    assume s: "s \<in> set ms" "slot_id s < KVM_USER_MEM_SLOTS"
      and t: "t \<in> set ms" "slot_id t < KVM_USER_MEM_SLOTS" and ne: "slot_id s \<noteq> slot_id t"
    have "s = new \<or> s \<in> set (memslots slots) \<and> slot_id s \<noteq> slot_id new"
        "t = new \<or> t \<in> set (memslots slots) \<and> slot_id t \<noteq> slot_id new"
      using mem s t ms by auto
    then show "slot_range s \<inter> slot_range t = {}"
      using s t ne fits assms(3) by (auto simp: slot_fits_def user_disjoint_def)
  qed
qed

lemma install_kvm_inv:
  assumes "env_ok env" "kvm_inv kvm0" "slot_fits new (kvm_slots kvm0)"
  shows "kvm_inv (install_new_memslots env kvm (kvm_slots kvm0) (Some new))"
proof -
  have i: "slot_id new < KVM_MEM_SLOTS_NUM"
    using assms(3) by (simp add: slot_fits_def)
  have t: "table_ok (kvm_slots kvm0)" "\<forall>s\<in>set (memslots (kvm_slots kvm0)). slot_ok s"
      "user_disjoint (memslots (kvm_slots kvm0))"
    using assms(2) by (auto simp: kvm_inv_def)
  note u = update_memslots_ok [OF assms(1) t(1) i]
  show ?thesis
    using u(1) put_slot_members_ok [OF t assms(3) u(2)]
    by (simp add: kvm_inv_def install_new_memslots_def)
qed

text \<open>Words: sizes and addresses of pages.\<close>

lemma page_aligned_unat: "(x :: u64) AND 0xfff = 0 \<longleftrightarrow> unat x mod 4096 = 0"
proof -
  have m: "x AND 0xfff = take_bit 12 x"
    by (simp add: take_bit_eq_mask mask_eq_exp_minus_1)
  have "unat (x AND 0xfff) = unat x mod 4096"
    by (simp add: m take_bit_eq_mod unat_mod)
  then show ?thesis
    by (metis unat_eq_zero)
qed

lemma unat_drop_bit_12: "unat (drop_bit 12 (x :: u64)) = unat x div 4096"
  by (simp add: drop_bit_eq_div unat_div)

lemma region_pages:
  assumes "\<not> gpa + sz < (gpa :: u64)"
  shows "unat (drop_bit 12 gpa) + unat (drop_bit 12 sz) \<le> 2 ^ 52"
proof -
  have "unat gpa + unat sz < 2 ^ 64"
    using assms no_olen_add_nat [of gpa sz] no_plus_overflow_uint_size [of gpa sz]
    by (simp add: not_less word_le_nat_alt no_olen_add_nat)
  then show ?thesis
    by (simp add: unat_drop_bit_12)
qed

lemma unat_and_not_63: "unat ((x :: u64) AND NOT 63) = unat x div 64 * 64"
proof -
  have m: "(63 :: u64) = mask 6"
    by (simp add: mask_eq_exp_minus_1)
  have "x AND NOT 63 = push_bit 6 (drop_bit 6 x)"
    unfolding m by (rule bit_word_eqI) (auto simp: bit_simps)
  moreover have "unat x div 64 * 64 < 2 ^ 64"
    using unat_less_u64 [of x] by simp
  ultimately show ?thesis
    by (simp add: push_bit_eq_mult drop_bit_eq_div unat_div unat_mult_lem [THEN iffD1])
qed

lemma bitmap_length:
  assumes "npages s \<le> KVM_MEM_MAX_NR_PAGES"
  shows "unat (npages s) \<le> 8 * unat (2 * kvm_dirty_bitmap_bytes s)"
proof -
  have n: "unat (npages s) < 2 ^ 31"
    using assms by (simp add: KVM_MEM_MAX_NR_PAGES_def word_le_nat_alt push_bit_eq_mult)
  have "unat (npages s + 63) = unat (npages s) + 63"
    using n by (simp add: unat_add_lem [THEN iffD1])
  then have k: "unat (kvm_dirty_bitmap_bytes s) = (unat (npages s) + 63) div 64 * 64 div 8"
    by (simp only: kvm_dirty_bitmap_bytes_def unat_div unat_and_not_63) simp
  then have "unat (2 * kvm_dirty_bitmap_bytes s) = 2 * unat (kvm_dirty_bitmap_bytes s)"
    using n by (simp add: unat_mult_lem [THEN iffD1])
  with k show ?thesis by simp
qed

lemma active_slots_set:
  assumes "table_ok slots"
  shows "set (active_slots slots) = {s \<in> set (memslots slots). npages s \<noteq> 0}"
proof -
  have "sorted_wrt (\<lambda>s t. npages t \<le> npages s) ms \<Longrightarrow>
      set (takeWhile (\<lambda>s. npages s \<noteq> 0) ms) = {s \<in> set ms. npages s \<noteq> 0}" for ms :: "kvm_memory_slot list"
    by (induction ms) auto
  then show ?thesis
    using assms by (simp add: active_slots_def table_ok_def)
qed

lemma unat_end_slot:
  "slot_ok s \<Longrightarrow> unat (base_gfn s + npages s) = unat (base_gfn s) + unat (npages s)"
  by (auto simp: slot_ok_def intro!: unat_add_lem [THEN iffD1])

lemma not_overlaps_disjoint:
  assumes "table_ok slots" "\<not> overlaps new slots" "slot_ok new" "s \<in> set (memslots slots)" "slot_ok s"
    "slot_id s < KVM_USER_MEM_SLOTS" "slot_id s \<noteq> slot_id new"
  shows "slot_range s \<inter> slot_range new = {}"
proof (cases "npages s = 0")
  case True
  then show ?thesis by (simp add: slot_range_def)
next
  case False
  then have "s \<in> set (active_slots slots)"
    using assms by (simp add: active_slots_set)
  then have "base_gfn new + npages new \<le> base_gfn s \<or> base_gfn s + npages s \<le> base_gfn new"
    using assms by (auto simp: overlaps_def list_ex_iff)
  then show ?thesis
    using assms by (auto simp: slot_range_def word_le_nat_alt unat_end_slot)
qed

text \<open>The slot that \<open>kvm_set_memory_region\<close> builds, and how it relates to the one it replaces.\<close>

lemma region_change_cases:
  "region_change mem old new = Inr change \<Longrightarrow>
     (case change of
        KVM_MR_CREATE \<Rightarrow> npages old = 0
      | KVM_MR_DELETE \<Rightarrow> npages new = 0
      | KVM_MR_MOVE \<Rightarrow> npages new \<noteq> 0 \<and> npages new = npages old \<and> userspace_addr old = mr_userspace_addr mem
      | KVM_MR_FLAGS_ONLY \<Rightarrow> npages new \<noteq> 0 \<and> npages new = npages old \<and> base_gfn new = base_gfn old)"
  by (auto simp: region_change_def split: if_splits)

lemma fill_slot_frame:
  "fill_slot env change mem new = Some new' \<Longrightarrow>
     slot_id new' = slot_id new \<and> base_gfn new' = base_gfn new \<and> npages new' = npages new \<and>
     flags new' = flags new \<and>
     userspace_addr new' = (if change = KVM_MR_CREATE then mr_userspace_addr mem else userspace_addr new)"
  by (auto simp: fill_slot_def kvm_create_dirty_bitmap_def Let_def split: if_splits)

lemma fill_slot_bitmap:
  "fill_slot env change mem new = Some new' \<Longrightarrow> npages new \<le> KVM_MEM_MAX_NR_PAGES \<Longrightarrow>
     (case dirty_bitmap new of None \<Rightarrow> True | Some b \<Rightarrow> unat (npages new) \<le> length b) \<Longrightarrow>
     (case dirty_bitmap new' of None \<Rightarrow> flags new' AND KVM_MEM_LOG_DIRTY_PAGES = 0
      | Some b \<Rightarrow> unat (npages new') \<le> length b \<and> flags new' AND KVM_MEM_LOG_DIRTY_PAGES \<noteq> 0)"
  using bitmap_length
  by (auto simp: fill_slot_def kvm_create_dirty_bitmap_def Let_def kvm_dirty_bitmap_bytes_def
           split: if_splits option.splits)

lemma prepare_frame:
  "kvm_arch_prepare_memory_region env s change = Inr s' \<Longrightarrow>
     slot_id s' = slot_id s \<and> base_gfn s' = base_gfn s \<and> npages s' = npages s \<and> flags s' = flags s \<and>
     dirty_bitmap s' = dirty_bitmap s \<and> (change \<noteq> KVM_MR_CREATE \<longrightarrow> s' = s)"
  by (auto simp: kvm_arch_prepare_memory_region_def split: if_splits sum.splits)

lemma unat_pages_bytes: "np \<le> KVM_MEM_MAX_NR_PAGES \<Longrightarrow> unat (np * of_nat PG_SIZE) = 4096 * unat np"
  by (simp add: KVM_MEM_MAX_NR_PAGES_def PG_SIZE_def word_le_nat_alt push_bit_eq_mult unat_mult_lem [THEN iffD1])

lemma prepare_user_pages:
  assumes "env_ok env" "kvm_arch_prepare_memory_region env s change = Inr s'" "npages s \<le> KVM_MEM_MAX_NR_PAGES"
    and "slot_id s < KVM_USER_MEM_SLOTS \<or> change \<noteq> KVM_MR_CREATE \<longrightarrow> user_pages (userspace_addr s) (npages s)"
  shows "user_pages (userspace_addr s') (npages s')"
proof (cases "KVM_USER_MEM_SLOTS \<le> slot_id s \<and> change = KVM_MR_CREATE")
  case True
  then obtain a where a: "vm_mmap env (npages s * of_nat PG_SIZE) = Inr a" "s' = s\<lparr>userspace_addr := a\<rparr>"
    using assms(2) by (auto simp: kvm_arch_prepare_memory_region_def split: sum.splits)
  then have "a AND 0xfff = 0 \<and> unat a + unat (npages s * of_nat PG_SIZE) \<le> 2 ^ 47"
    using assms(1) unfolding env_ok_def by blast
  then show ?thesis
    using a assms(3) by (simp only: unat_pages_bytes user_pages_def) simp
next
  case False
  then show ?thesis
    using assms by (auto simp: kvm_arch_prepare_memory_region_def)
qed

lemma sane_user_pages:
  assumes "env_ok env" "region_sane env mem" "mr_slot mem < KVM_USER_MEM_SLOTS"
  shows "user_pages (mr_userspace_addr mem) (drop_bit 12 (memory_size mem))"
proof -
  have "4096 * unat (drop_bit 12 (memory_size mem)) = unat (memory_size mem)"
    using assms(2) by (auto simp: region_sane_def page_aligned_unat unat_drop_bit_12)
  then show ?thesis
    using assms by (auto simp: region_sane_def env_ok_def user_pages_def)
qed

lemma old_user_pages:
  assumes "slot_ok old" "region_change mem old new = Inr change" "change \<noteq> KVM_MR_CREATE"
  shows "user_pages (userspace_addr old) (npages new)"
  using assms region_change_cases [OF assms(2)]
  by (cases change) (auto simp: slot_ok_def user_pages_def)

text \<open>The bitmap of the slot before it is filled is one for as many pages.\<close>

lemma old_bitmap_fits:
  assumes "slot_ok old" "region_change mem old new = Inr change" "dirty_bitmap new = dirty_bitmap old"
  shows "case dirty_bitmap new of None \<Rightarrow> True | Some b \<Rightarrow> unat (npages new) \<le> length b"
  using assms region_change_cases [OF assms(2)]
  by (cases change) (auto simp: slot_ok_def split: option.splits)

lemma filled_slot_ok:
  assumes env: "env_ok env" and sane: "region_sane env mem" and old: "slot_ok old"
    and max: "npages new \<le> KVM_MEM_MAX_NR_PAGES"
    and new: "new = old\<lparr>slot_id := mr_slot mem, base_gfn := drop_bit 12 (guest_phys_addr mem),
                 npages := drop_bit 12 (memory_size mem), flags := fl\<rparr>"
    and fl: "npages new = 0 \<longrightarrow> fl AND KVM_MEM_LOG_DIRTY_PAGES = 0"
    and change: "region_change mem old new = Inr change"
    and fill: "fill_slot env change mem new = Some new2"
    and prep: "kvm_arch_prepare_memory_region env new2 change = Inr new3"
  shows "slot_ok new3"
proof -
  note f = fill_slot_frame [OF fill] and p = prepare_frame [OF prep]
  have "unat (base_gfn new3) + unat (npages new3) \<le> 2 ^ 52"
    using f p region_pages [of "guest_phys_addr mem" "memory_size mem"] sane new by (simp add: region_sane_def)
  moreover have "user_pages (userspace_addr new3) (npages new3)"
  proof (rule prepare_user_pages [OF env prep], use f max in simp, rule impI)
    assume "slot_id new2 < KVM_USER_MEM_SLOTS \<or> change \<noteq> KVM_MR_CREATE"
    then show "user_pages (userspace_addr new2) (npages new2)"
      using f new sane_user_pages [OF env sane] old_user_pages [OF old change] by auto
  qed
  moreover have "case dirty_bitmap new2 of None \<Rightarrow> flags new2 AND KVM_MEM_LOG_DIRTY_PAGES = 0
      | Some b \<Rightarrow> unat (npages new2) \<le> length b \<and> flags new2 AND KVM_MEM_LOG_DIRTY_PAGES \<noteq> 0"
    by (rule fill_slot_bitmap [OF fill max]) (rule old_bitmap_fits [OF old change], simp add: new)
  moreover have "flags new = fl"
    by (simp add: new)
  ultimately show ?thesis
    using f p max fl by (auto simp: slot_ok_def split: option.splits)
qed

lemma filled_slot_range:
  assumes "kvm_inv kvm" "old = id_to_memslot (kvm_slots kvm) i" "i < KVM_MEM_SLOTS_NUM"
    and change: "region_change mem old new = Inr change"
    and ov: "change = KVM_MR_CREATE \<or> change = KVM_MR_MOVE \<longrightarrow> \<not> overlaps new (kvm_slots kvm)"
    and new: "slot_ok new3" "slot_id new = i" "slot_id new3 = i" "base_gfn new3 = base_gfn new" "npages new3 = npages new"
    and s: "s \<in> set (memslots (kvm_slots kvm))" "slot_id s < KVM_USER_MEM_SLOTS" "slot_id s \<noteq> i" "i < KVM_USER_MEM_SLOTS"
  shows "slot_range s \<inter> slot_range new3 = {}"
proof -
  have inv: "table_ok (kvm_slots kvm)" "slot_ok s" "user_disjoint (memslots (kvm_slots kvm))"
    using assms by (auto simp: kvm_inv_def)
  have old: "old \<in> set (memslots (kvm_slots kvm))" "slot_id old = i"
    using id_to_memslot_ok [OF inv(1) assms(3)] assms(2) by auto
  consider "\<not> overlaps new (kvm_slots kvm)" | "npages new = 0" | "slot_range new3 = slot_range old"
    using region_change_cases [OF change] ov new by (cases change) (auto simp: slot_range_def)
  then show ?thesis
  proof cases
    case 1
    then have "\<not> overlaps new3 (kvm_slots kvm)"
      using new by (simp add: overlaps_def)
    then show ?thesis
      using not_overlaps_disjoint [OF inv(1) _ new(1) s(1) inv(2) s(2)] s new by simp
  next
    case 2
    then show ?thesis using new by (simp add: slot_range_def)
  next
    case 3
    then show ?thesis using inv(3) old s by (auto simp: user_disjoint_def)
  qed
qed

lemma install_slot_inv:
  assumes "env_ok env" "kvm_inv kvm"
    and fits: "\<And>new3. kvm_arch_prepare_memory_region env new change = Inr new3 \<Longrightarrow> slot_fits new3 (kvm_slots kvm)"
    and empty: "change = KVM_MR_DELETE \<longrightarrow> npages new = 0"
  shows "kvm_inv (snd (install_slot env change new kvm))"
proof (cases "kvm_arch_prepare_memory_region env new change")
  case (Inl e)
  then have "change = KVM_MR_CREATE"
    by (auto simp: kvm_arch_prepare_memory_region_def split: if_splits)
  then show ?thesis
    using assms(2) Inl by (simp add: install_slot_def Let_def)
next
  case (Inr new3)
  have "change = KVM_MR_DELETE \<longrightarrow> dirty_bitmap new3 = None"
    using fits [OF Inr] empty prepare_frame [OF Inr] by (auto simp: slot_fits_def slot_ok_def split: option.splits)
  then have "change = KVM_MR_DELETE \<longrightarrow> new3\<lparr>dirty_bitmap := None\<rparr> = new3"
    by simp
  then show ?thesis
    using assms(2) fits [OF Inr] install_kvm_inv [OF assms(1,2)] Inr
    by (simp add: install_slot_def Let_def)
qed

lemma set_memory_region_inv:
  assumes env: "env_ok env" and inv: "kvm_inv kvm"
  shows "kvm_inv (snd (kvm_set_memory_region env kvm mem))"
proof -
  define old where "old = id_to_memslot (kvm_slots kvm) (mr_slot mem)"
  define np where "np = drop_bit 12 (memory_size mem)"
  define fl where "fl = (if np = 0 then mr_flags mem AND NOT KVM_MEM_LOG_DIRTY_PAGES else mr_flags mem)"
  define new where "new = old\<lparr>slot_id := mr_slot mem, base_gfn := drop_bit 12 (guest_phys_addr mem),
                 npages := np, flags := fl\<rparr>"
  have "kvm_inv (snd (install_slot env change new2 kvm))"
    if sane: "region_sane env mem" and max: "\<not> KVM_MEM_MAX_NR_PAGES < np"
      and change: "region_change mem old new = Inr change"
      and ov: "change = KVM_MR_CREATE \<or> change = KVM_MR_MOVE \<longrightarrow> \<not> overlaps new (kvm_slots kvm)"
      and fill: "fill_slot env change mem new = Some new2" for change new2
  proof (rule install_slot_inv [OF env inv])
    show "change = KVM_MR_DELETE \<longrightarrow> npages new2 = 0"
      using region_change_cases [OF change] fill_slot_frame [OF fill] by auto
    fix new3
    assume prep: "kvm_arch_prepare_memory_region env new2 change = Inr new3"
    note f = fill_slot_frame [OF fill] and p = prepare_frame [OF prep]
    have i: "mr_slot mem < KVM_MEM_SLOTS_NUM"
      using sane by (simp add: region_sane_def)
    have "slot_ok old"
      using inv id_to_memslot_in [OF _ i] by (simp add: kvm_inv_def old_def)
    then have ok: "slot_ok new3"
      by (rule filled_slot_ok [OF env sane _ _ _ _ change fill prep])
        (use max in \<open>auto simp: new_def np_def fl_def and.assoc\<close>)
    show "slot_fits new3 (kvm_slots kvm)"
      using filled_slot_range [OF inv old_def i change ov ok] ok i f p
      by (auto simp: slot_fits_def new_def)
  qed
  then show ?thesis
    using inv unfolding kvm_set_memory_region_def Let_def old_def [symmetric] np_def [symmetric]
      fl_def [symmetric] new_def [symmetric]
    by (auto split: sum.split option.split)
qed

lemma in_slot_range: "slot_ok s \<Longrightarrow> in_slot gfn s \<longleftrightarrow> unat gfn \<in> slot_range s"
  by (auto simp: in_slot_def slot_range_def word_le_nat_alt word_less_nat_alt unat_end_slot)

lemma kvm_initial_inv: "kvm_inv \<lparr>kvm_slots = kvm_init_memslots_id, umem = m\<rparr>"
proof -
  have "sorted_wrt (\<lambda>s t. npages t \<le> npages s) (map empty_slot xs)" for xs
    by (induction xs) (auto simp: empty_slot_def)
  then show ?thesis
    by (auto simp: kvm_inv_def kvm_init_memslots_id_def table_ok_def user_disjoint_def slot_range_def
        slot_ok_def user_pages_def KVM_MEM_MAX_NR_PAGES_def empty_slot_def comp_def)
qed

lemma kvm_inv_slot_ok: "kvm_inv kvm \<Longrightarrow> s \<in> set (memslots (kvm_slots kvm)) \<Longrightarrow> slot_ok s"
  by (simp add: kvm_inv_def)

lemma gfn_to_memslot_SomeD:
  assumes "gfn_to_memslot kvm gfn = Some s"
  shows "s \<in> set (memslots (kvm_slots kvm))" "in_slot gfn s"
proof -
  have "s \<in> set (active_slots (kvm_slots kvm))" "in_slot gfn s"
    using assms by (auto simp: gfn_to_memslot_def search_memslots_def find_Some_iff)
  then show "s \<in> set (memslots (kvm_slots kvm))" "in_slot gfn s"
    by (auto simp: active_slots_def dest: set_takeWhileD)
qed

lemma gfn_to_memslot_None_iff:
  assumes "kvm_inv kvm"
  shows "gfn_to_memslot kvm gfn = None \<longleftrightarrow> (\<forall>s\<in>set (memslots (kvm_slots kvm)). unat gfn \<notin> slot_range s)"
proof -
  have t: "table_ok (kvm_slots kvm)"
    using assms by (simp add: kvm_inv_def)
  have "unat gfn \<notin> slot_range s" if "npages s = 0" for s
    using that by (simp add: slot_range_def)
  then show ?thesis
    using assms by (auto simp: gfn_to_memslot_def search_memslots_def find_None_iff active_slots_set [OF t]
        in_slot_range kvm_inv_slot_ok)
qed

text \<open>The table as a map from identifiers to slots.\<close>

lemma id_to_memslot_put:
  assumes t: "table_ok slots" and n: "slot_id new < KVM_MEM_SLOTS_NUM" and t': "table_ok slots'"
    and set: "set (memslots slots') = set (memslots (put_slot new slots))" and i: "i < KVM_MEM_SLOTS_NUM"
  shows "id_to_memslot slots' i = (if i = slot_id new then new else id_to_memslot slots i)"
proof (cases "i = slot_id new")
  case True
  have "new \<in> set (memslots slots')"
    using id_to_index_less [OF t n] by (simp add: set put_slot_def set_update_memI)
  then show ?thesis
    using True id_to_memslot_of [OF t'] by simp
next
  case False
  have "id_to_memslot slots' i \<in> set (memslots (put_slot new slots))"
    using id_to_memslot_in [OF t' i] set by simp
  then have "id_to_memslot slots' i \<in> set (memslots slots)"
    using put_slot_members [OF t n] slot_id_id_to_memslot [OF t' i] False by fastforce
  from id_to_memslot_of [OF t this] show ?thesis
    using slot_id_id_to_memslot [OF t' i] False by simp
qed

lemma id_to_memslot_install:
  "env_ok env \<Longrightarrow> table_ok slots \<Longrightarrow> slot_id new < KVM_MEM_SLOTS_NUM \<Longrightarrow> i < KVM_MEM_SLOTS_NUM \<Longrightarrow>
     id_to_memslot (kvm_slots (install_new_memslots env kvm slots (Some new))) i =
       (if i = slot_id new then new else id_to_memslot slots i)"
  by (simp add: install_new_memslots_def id_to_memslot_put update_memslots_ok)

lemma install_slot_0:
  assumes "fst (install_slot env change new kvm) = 0" "env_ok env" "kvm_inv kvm"
    "slot_id new < KVM_MEM_SLOTS_NUM" "i < KVM_MEM_SLOTS_NUM"
    and err: "\<forall>n e. vm_mmap env n = Inl e \<longrightarrow> e \<noteq> 0"
  shows "\<exists>new'. id_to_memslot (kvm_slots (snd (install_slot env change new kvm))) i =
             (if i = slot_id new then new' else id_to_memslot (kvm_slots kvm) i) \<and>
           base_gfn new' = base_gfn new \<and> npages new' = npages new \<and> flags new' = flags new \<and>
           (slot_id new < KVM_USER_MEM_SLOTS \<longrightarrow> userspace_addr new' = userspace_addr new)"
proof (cases "kvm_arch_prepare_memory_region env new change")
  case (Inl e)
  then have "e \<noteq> 0"
    using err by (auto simp: kvm_arch_prepare_memory_region_def split: if_splits sum.splits)
  then show ?thesis
    using assms(1) Inl by (auto simp: install_slot_def Let_def ENOMEM_def split: if_splits)
next
  case (Inr new3)
  define n where "n = (if change = KVM_MR_DELETE then new3\<lparr>dirty_bitmap := None\<rparr> else new3)"
  have t: "table_ok (kvm_slots kvm)"
    using assms(3) by (simp add: kvm_inv_def)
  have n3: "slot_id n = slot_id new \<and> base_gfn n = base_gfn new \<and> npages n = npages new \<and> flags n = flags new"
    using prepare_frame [OF Inr] by (simp add: n_def)
  have u: "slot_id new < KVM_USER_MEM_SLOTS \<longrightarrow> userspace_addr n = userspace_addr new"
    using Inr by (auto simp: n_def kvm_arch_prepare_memory_region_def)
  have "\<exists>k. snd (install_slot env change new kvm) = install_new_memslots env k (kvm_slots kvm) (Some n)"
    using assms(1) Inr by (auto simp: install_slot_def Let_def n_def ENOMEM_def split: if_splits)
  then show ?thesis
    using id_to_memslot_install [OF assms(2) t, of n i] n3 u assms(4,5) by auto
qed

lemma set_memory_region_0:
  assumes "env_ok env" "kvm_inv kvm" "\<forall>n e. vm_mmap env n = Inl e \<longrightarrow> e \<noteq> 0"
    and ret: "kvm_set_memory_region env kvm mem = (0, kvm')" and i: "i < KVM_MEM_SLOTS_NUM"
  shows "if i = mr_slot mem then as_requested mem (id_to_memslot (kvm_slots kvm') i)
         else id_to_memslot (kvm_slots kvm') i = id_to_memslot (kvm_slots kvm) i"
proof -
  define old where "old = id_to_memslot (kvm_slots kvm) (mr_slot mem)"
  define np where "np = drop_bit 12 (memory_size mem)"
  define fl where "fl = (if np = 0 then mr_flags mem AND NOT KVM_MEM_LOG_DIRTY_PAGES else mr_flags mem)"
  define new where "new = old\<lparr>slot_id := mr_slot mem, base_gfn := drop_bit 12 (guest_phys_addr mem),
                 npages := np, flags := fl\<rparr>"
  have sane: "region_sane env mem"
    using ret by (auto simp: kvm_set_memory_region_def EINVAL_def split: if_splits)
  then have j: "mr_slot mem < KVM_MEM_SLOTS_NUM"
    by (simp add: region_sane_def)
  have r: "(case region_change mem old new of Inl r \<Rightarrow> (r, kvm)
      | Inr change \<Rightarrow>
          if (change = KVM_MR_CREATE \<or> change = KVM_MR_MOVE) \<and> overlaps new (kvm_slots kvm) then (- EEXIST, kvm)
          else case fill_slot env change mem new of None \<Rightarrow> (- ENOMEM, kvm)
               | Some new2 \<Rightarrow> install_slot env change new2 kvm) = (0, kvm')"
    using ret unfolding kvm_set_memory_region_def Let_def old_def [symmetric] np_def [symmetric]
      fl_def [symmetric] new_def [symmetric]
    by (auto simp: EINVAL_def check_memory_region_flags_def split: if_splits)
  have goal: ?thesis if "kvm' = kvm" "base_gfn old = base_gfn new" "npages old = np" "flags old = fl"
      "np \<noteq> 0 \<longrightarrow> userspace_addr old = mr_userspace_addr mem"
    using that by (simp add: new_def np_def fl_def old_def as_requested_def Let_def)
  show ?thesis
  proof (cases "region_change mem old new")
    case (Inl a)
    then have "kvm' = kvm \<and> base_gfn old = base_gfn new \<and> npages old = np \<and> flags old = fl \<and>
        (np \<noteq> 0 \<longrightarrow> userspace_addr old = mr_userspace_addr mem)"
      using r by (auto simp: region_change_def new_def EINVAL_def split: if_splits)
    then show ?thesis
      using goal by blast
  next
    case (Inr change)
    obtain new2 where n2: "fill_slot env change mem new = Some new2"
        and inst: "install_slot env change new2 kvm = (0, kvm')"
      using r Inr by (auto simp: ENOMEM_def EEXIST_def split: if_splits option.splits)
    note f = fill_slot_frame [OF n2]
    have "np \<noteq> 0 \<longrightarrow> userspace_addr new2 = mr_userspace_addr mem"
      using f Inr by (auto simp: region_change_def new_def split: if_splits)
    then show ?thesis
      using install_slot_0 [OF _ assms(1,2) _ i assms(3), of change new2] inst f j
      by (auto simp: as_requested_def Let_def new_def np_def fl_def)
  qed
qed

section \<open>Properties\<close>

text \<open>
  C17. A successful \<open>kvm_set_memory_region\<close> leaves every other slot as it was, and the slot it
  names has the requested guest frame, size and flags, and for a user slot with pages the
  requested host address.
\<close>

theorem set_memory_region_effect:
  assumes "env_ok env" "kvm_inv kvm" "\<forall>n e. vm_mmap env n = Inl e \<longrightarrow> e \<noteq> 0"
    and ret: "kvm_set_memory_region env kvm mem = (0, kvm')" and i: "i < KVM_MEM_SLOTS_NUM"
  shows "as_requested mem (id_to_memslot (kvm_slots kvm') (mr_slot mem)) \<and>
         (i \<noteq> mr_slot mem \<longrightarrow> id_to_memslot (kvm_slots kvm') i = id_to_memslot (kvm_slots kvm) i)"
proof -
  have "mr_slot mem < KVM_MEM_SLOTS_NUM"
    using ret by (auto simp: kvm_set_memory_region_def EINVAL_def region_sane_def split: if_splits)
  then show ?thesis
    using set_memory_region_0 [OF assms(1-4)] i by auto
qed

text \<open>
  A failing \<open>kvm_set_memory_region\<close> leaves the slot table as it was, when the IOMMU accepts
  the new pages (its failure is returned after the slot is installed).
\<close>

theorem set_memory_region_failure:
  assumes "kvm_set_memory_region env kvm mem = (r, kvm')" "r \<noteq> 0" "iommu_map_pages env = 0"
  shows "kvm' = kvm"
proof -
  have "kvm1 = kvm" if "install_slot env change new kvm = (r, kvm1)" for change new kvm1
    using that assms(2,3)
    by (auto simp: install_slot_def Let_def kvm_arch_prepare_memory_region_def split: if_splits sum.splits)
  then show ?thesis
    using assms(1) by (auto simp: kvm_set_memory_region_def Let_def split: if_splits sum.splits option.splits)
qed

text \<open>
  C18. The lookup of a guest frame finds a slot exactly when some slot of the table contains the
  frame, the slot it finds contains it, and a user slot that contains it is the one found,
  unless a private slot contains the frame too.
\<close>

theorem gfn_to_memslot_correct:
  assumes "kvm_inv kvm"
  shows "case gfn_to_memslot kvm gfn of
           None \<Rightarrow> \<forall>t\<in>set (memslots (kvm_slots kvm)). unat gfn \<notin> slot_range t
         | Some s \<Rightarrow> s \<in> set (memslots (kvm_slots kvm)) \<and> unat gfn \<in> slot_range s \<and>
             (slot_id s < KVM_USER_MEM_SLOTS \<longrightarrow>
                (\<forall>t\<in>set (memslots (kvm_slots kvm)).
                   slot_id t < KVM_USER_MEM_SLOTS \<and> unat gfn \<in> slot_range t \<longrightarrow> t = s))"
proof (cases "gfn_to_memslot kvm gfn")
  case None
  then show ?thesis using gfn_to_memslot_None_iff [OF assms, of gfn] by simp
next
  case (Some s)
  have s: "s \<in> set (memslots (kvm_slots kvm))" "unat gfn \<in> slot_range s"
    using gfn_to_memslot_SomeD [OF Some] assms by (simp_all add: in_slot_range kvm_inv_slot_ok)
  have "t = s" if "slot_id s < KVM_USER_MEM_SLOTS" "t \<in> set (memslots (kvm_slots kvm))"
      "slot_id t < KVM_USER_MEM_SLOTS" "unat gfn \<in> slot_range t" for t
  proof -
    have "slot_id s = slot_id t"
      using that s assms unfolding kvm_inv_def user_disjoint_def by blast
    then show ?thesis
      using assms that(2) s(1) id_to_memslot_of unfolding kvm_inv_def by metis
  qed
  then show ?thesis using Some s by simp
qed

section \<open>Witnesses\<close>

text \<open>A host whose allocations succeed, and a VM with one slot of two pages.\<close>

definition host_env :: mr_env where
  "host_env = \<lparr>access_ok = (\<lambda>a n. unat a + unat n \<le> 2 ^ 47), alloc_arch = True, alloc_bitmap = True, alloc_slots = True,
     vm_mmap = (\<lambda>n. if n \<le> 0x10000000 then Inr 0x7f0000000000 else Inl (- ENOMEM)), iommu_map_pages = 0,
     sort_fn = (\<lambda>cmp xs. rev (sort_key npages xs))\<rparr>"

definition new_kvm :: kvm where
  "new_kvm = \<lparr>kvm_slots = kvm_init_memslots_id, umem = Map.empty\<rparr>"

definition region0 :: kvm_userspace_memory_region where
  "region0 = \<lparr>mr_slot = 2, mr_flags = 1, guest_phys_addr = 0x100000, memory_size = 0x2000,
     mr_userspace_addr = 0x10000\<rparr>"

lemma host_env_ok: "env_ok host_env"
proof -
  have "sorted_wrt (\<lambda>s t. cmp_memslot s t \<le> 0) (rev (sort_key npages xs))" for xs
    using sorted_sort_key [of npages xs] by (simp add: sorted_wrt_rev cmp_memslot_le sorted_map)
  then show ?thesis
    by (simp add: env_ok_def host_env_def word_le_nat_alt)
qed

lemma new_kvm_inv: "kvm_inv new_kvm"
  by (simp add: new_kvm_def kvm_initial_inv)

lemmas slot_consts = KVM_USER_MEM_SLOTS_def KVM_PRIVATE_MEM_SLOTS_def KVM_MEM_SLOTS_NUM_def
  KVM_MEM_MAX_NR_PAGES_def KVM_MEM_LOG_DIRTY_PAGES_def KVM_MEM_READONLY_def KVM_MEMSLOT_INVALID_def PG_SIZE_def

lemma active_slots_new: "active_slots kvm_init_memslots_id = []"
proof -
  have "takeWhile (\<lambda>s. npages s \<noteq> 0) (map empty_slot xs) = []" for xs
    by (cases xs) (simp_all add: empty_slot_def)
  then show ?thesis
    by (simp add: active_slots_def kvm_init_memslots_id_def)
qed

lemma id_to_memslot_new: "i < KVM_MEM_SLOTS_NUM \<Longrightarrow> id_to_memslot kvm_init_memslots_id i = empty_slot i"
  by (simp add: id_to_memslot_def kvm_init_memslots_id_def)

lemma region0_ret: "fst (kvm_set_memory_region host_env new_kvm region0) = 0"
  by (simp add: kvm_set_memory_region_def check_memory_region_flags_def region_sane_def region0_def
      new_kvm_def id_to_memslot_new slot_consts host_env_def region_change_def empty_slot_def overlaps_def
      active_slots_new fill_slot_def kvm_create_dirty_bitmap_def install_slot_def
      kvm_arch_prepare_memory_region_def Let_def drop_bit_eq_div)

text \<open>The VM after one successful call.\<close>

definition sample_kvm :: kvm where
  "sample_kvm = snd (kvm_set_memory_region host_env new_kvm region0)"

lemma sample_kvm_ret: "kvm_set_memory_region host_env new_kvm region0 = (0, sample_kvm)"
  by (simp add: sample_kvm_def prod_eq_iff region0_ret)

lemma sample_kvm_inv: "kvm_inv sample_kvm"
  unfolding sample_kvm_def by (rule set_memory_region_inv [OF host_env_ok new_kvm_inv])

lemma host_env_mmap: "\<forall>n e. vm_mmap host_env n = Inl e \<longrightarrow> e \<noteq> 0"
  by (simp add: host_env_def ENOMEM_def)

theorem set_memory_region_effect_witness:
  "as_requested region0 (id_to_memslot (kvm_slots sample_kvm) 2) \<and>
   id_to_memslot (kvm_slots sample_kvm) 7 = empty_slot 7"
  using set_memory_region_effect [OF host_env_ok new_kvm_inv host_env_mmap sample_kvm_ret, of 7]
  by (simp add: region0_def slot_consts new_kvm_def id_to_memslot_new)

theorem set_memory_region_failure_witness:
  "kvm_set_memory_region host_env new_kvm (region0\<lparr>memory_size := 0\<rparr>) = (- EINVAL, new_kvm)"
proof -
  obtain r k where rk: "kvm_set_memory_region host_env new_kvm (region0\<lparr>memory_size := 0\<rparr>) = (r, k)"
    by fastforce
  then have "r = - EINVAL"
    by (simp add: kvm_set_memory_region_def check_memory_region_flags_def region_sane_def region0_def
      new_kvm_def id_to_memslot_new slot_consts host_env_def region_change_def empty_slot_def Let_def)
  moreover have "k = new_kvm"
    using set_memory_region_failure [OF rk] \<open>r = - EINVAL\<close> by (simp add: EINVAL_def host_env_def)
  ultimately show ?thesis using rk by simp
qed

lemma sample_kvm_slot2:
  shows "id_to_memslot (kvm_slots sample_kvm) 2 \<in> set (memslots (kvm_slots sample_kvm))"
    and "as_requested region0 (id_to_memslot (kvm_slots sample_kvm) 2)"
    and "slot_id (id_to_memslot (kvm_slots sample_kvm) 2) = 2"
proof -
  have t: "table_ok (kvm_slots sample_kvm)"
    using sample_kvm_inv by (simp add: kvm_inv_def)
  show "id_to_memslot (kvm_slots sample_kvm) 2 \<in> set (memslots (kvm_slots sample_kvm))"
      "slot_id (id_to_memslot (kvm_slots sample_kvm) 2) = 2"
    using id_to_memslot_in [OF t, of 2] slot_id_id_to_memslot [OF t, of 2] by (simp_all add: slot_consts)
  show "as_requested region0 (id_to_memslot (kvm_slots sample_kvm) 2)"
    using set_memory_region_0 [OF host_env_ok new_kvm_inv host_env_mmap sample_kvm_ret, of 2]
    by (simp add: slot_consts region0_def)
qed

theorem gfn_to_memslot_correct_witness:
  "kvm_inv sample_kvm \<and> gfn_to_memslot sample_kvm 0x101 \<noteq> None"
proof -
  have "0x101 \<in> slot_range (id_to_memslot (kvm_slots sample_kvm) 2)"
    using sample_kvm_slot2(2) by (simp add: as_requested_def slot_range_def region0_def Let_def drop_bit_eq_div)
  then show ?thesis
    using gfn_to_memslot_correct [OF sample_kvm_inv, of "0x101"] sample_kvm_slot2(1) sample_kvm_inv
    by (auto split: option.splits)
qed

end
