(* ===== verification/KvmAccess.thy ===== *)
theory KvmAccess
  imports KvmSlots
begin

text \<open>
  Reading, writing and clearing guest memory, and the address cache, \<open>x86/kvm_main.c\<close> of
  kvm-kmod. A transfer is split at page borders; every page is translated by the slot table
  of KvmSlots and, when written, marked in the slot's dirty bitmap.
\<close>

section \<open>Access to guest memory\<close>

text \<open>\<open>__copy_to_user\<close>: stores up to the first unmapped byte, and the number of bytes not copied.\<close>

fun copy_to_user :: "ram \<Rightarrow> u64 \<Rightarrow> u8 list \<Rightarrow> ram \<times> nat" where
  "copy_to_user m a [] = (m, 0)"
| "copy_to_user m a (b # bs) =
     (case m a of None \<Rightarrow> (m, length (b # bs)) | Some _ \<Rightarrow> copy_to_user (m(a \<mapsto> b)) (a + 1) bs)"

definition next_segment :: "nat \<Rightarrow> nat \<Rightarrow> nat" where
  "next_segment len off = (if PG_SIZE - off < len then PG_SIZE - off else len)"

text \<open>The return value and the bytes read.\<close>

definition kvm_read_guest_page :: "kvm \<Rightarrow> u64 \<Rightarrow> nat \<Rightarrow> nat \<Rightarrow> int \<times> u8 list" where
  "kvm_read_guest_page kvm gfn off len =
     (let addr = gfn_to_hva_prot kvm gfn
      in if kvm_is_error_hva addr then (- EFAULT, [])
         else case rd_bytes (umem kvm) (addr + of_nat off) len of
                Inl _ \<Rightarrow> (- EFAULT, []) | Inr bs \<Rightarrow> (0, bs))"

function read_segments :: "kvm \<Rightarrow> u64 \<Rightarrow> nat \<Rightarrow> nat \<Rightarrow> int \<times> u8 list" where
  "read_segments kvm gfn off len =
     (let seg = next_segment len off
      in if seg = 0 then (0, [])
         else case kvm_read_guest_page kvm gfn off seg of
                (ret, bs) \<Rightarrow>
                  if ret < 0 then (ret, bs)
                  else case read_segments kvm (gfn + 1) 0 (len - seg) of (r, bs') \<Rightarrow> (r, bs @ bs'))"
  by pat_completeness auto

termination
  by (relation "measure (\<lambda>(kvm, gfn, off, len). len)") (auto simp: next_segment_def split: if_splits)

declare read_segments.simps [simp del]

definition gpa_gfn :: "u64 \<Rightarrow> u64" where
  "gpa_gfn gpa = drop_bit 12 gpa"

definition offset_in_page :: "u64 \<Rightarrow> nat" where
  "offset_in_page gpa = unat (gpa AND 0xfff)"

definition kvm_read_guest :: "kvm \<Rightarrow> u64 \<Rightarrow> u64 \<Rightarrow> int \<times> u8 list" where
  "kvm_read_guest kvm gpa len = read_segments kvm (gpa_gfn gpa) (offset_in_page gpa) (unat len)"

definition kvm_write_guest_page :: "kvm \<Rightarrow> u64 \<Rightarrow> u8 list \<Rightarrow> nat \<Rightarrow> int \<times> kvm" where
  "kvm_write_guest_page kvm gfn bs off =
     (let addr = gfn_to_hva kvm gfn
      in if kvm_is_error_hva addr then (- EFAULT, kvm)
         else case copy_to_user (umem kvm) (addr + of_nat off) bs of
                (m, r) \<Rightarrow> if r \<noteq> 0 then (- EFAULT, kvm\<lparr>umem := m\<rparr>)
                          else (0, mark_page_dirty gfn (kvm\<lparr>umem := m\<rparr>)))"

function write_segments :: "kvm \<Rightarrow> u64 \<Rightarrow> nat \<Rightarrow> u8 list \<Rightarrow> int \<times> kvm" where
  "write_segments kvm gfn off bs =
     (let seg = next_segment (length bs) off
      in if seg = 0 then (0, kvm)
         else case kvm_write_guest_page kvm gfn (take seg bs) off of
                (ret, kvm') \<Rightarrow>
                  if ret < 0 then (ret, kvm')
                  else write_segments kvm' (gfn + 1) 0 (drop seg bs))"
  by pat_completeness auto

termination
  by (relation "measure (\<lambda>(kvm, gfn, off, bs). length bs)") (auto simp: next_segment_def split: if_splits)

declare write_segments.simps [simp del]

definition kvm_write_guest :: "kvm \<Rightarrow> u64 \<Rightarrow> u8 list \<Rightarrow> int \<times> kvm" where
  "kvm_write_guest kvm gpa bs = write_segments kvm (gpa_gfn gpa) (offset_in_page gpa) bs"

text \<open>Clearing writes zeros page by page.\<close>

definition kvm_clear_guest_page :: "kvm \<Rightarrow> u64 \<Rightarrow> nat \<Rightarrow> nat \<Rightarrow> int \<times> kvm" where
  "kvm_clear_guest_page kvm gfn off len = kvm_write_guest_page kvm gfn (replicate len 0) off"

function clear_segments :: "kvm \<Rightarrow> u64 \<Rightarrow> nat \<Rightarrow> nat \<Rightarrow> int \<times> kvm" where
  "clear_segments kvm gfn off len =
     (let seg = next_segment len off
      in if seg = 0 then (0, kvm)
         else case kvm_clear_guest_page kvm gfn off seg of
                (ret, kvm') \<Rightarrow> if ret < 0 then (ret, kvm') else clear_segments kvm' (gfn + 1) 0 (len - seg))"
  by pat_completeness auto

termination
  by (relation "measure (\<lambda>(kvm, gfn, off, len). len)") (auto simp: next_segment_def split: if_splits)

declare clear_segments.simps [simp del]

definition kvm_clear_guest :: "kvm \<Rightarrow> u64 \<Rightarrow> u64 \<Rightarrow> int \<times> kvm" where
  "kvm_clear_guest kvm gpa len = clear_segments kvm (gpa_gfn gpa) (offset_in_page gpa) (unat len)"

definition kvm_read_guest_atomic :: "kvm \<Rightarrow> u64 \<Rightarrow> u64 \<Rightarrow> int \<times> u8 list" where
  "kvm_read_guest_atomic kvm gpa len =
     (let addr = gfn_to_hva_prot kvm (gpa_gfn gpa)
      in if kvm_is_error_hva addr then (- EFAULT, [])
         else case rd_bytes (umem kvm) (addr + of_nat (offset_in_page gpa)) (unat len) of
                Inl _ \<Rightarrow> (- EFAULT, []) | Inr bs \<Rightarrow> (0, bs))"

section \<open>The address cache\<close>

text \<open>The slot the cache points to is given by its identifier, \<open>None\<close> for \<open>NULL\<close>.\<close>

record gfn_to_hva_cache =
  ghc_generation :: u64
  ghc_gpa :: u64
  ghc_hva :: u64
  ghc_len :: u64
  ghc_memslot :: "nat option"

text \<open>
  The loop that verifies a region that crosses slots: the return value with the slot and the
  address of its last round. It advances by the pages left in the slot.
\<close>

partial_function (option) verify_pages :: "kvm \<Rightarrow> u64 \<Rightarrow> u64 \<Rightarrow> (int \<times> nat option \<times> u64) \<Rightarrow> (int \<times> nat option \<times> u64) option" where
  "verify_pages kvm start_gfn end_gfn prev =
     (if start_gfn \<le> end_gfn then
        let slot = gfn_to_memslot kvm start_gfn;
            many = gfn_to_hva_many slot start_gfn True
        in if kvm_is_error_hva (fst many) then Some (- EFAULT, map_option slot_id slot, fst many)
           else verify_pages kvm (start_gfn + the (snd many)) end_gfn (0, map_option slot_id slot, fst many)
      else Some prev)"

definition kvm_gfn_to_hva_cache_init :: "kvm \<Rightarrow> u64 \<Rightarrow> u64 \<Rightarrow> (int \<times> gfn_to_hva_cache) option" where
  "kvm_gfn_to_hva_cache_init kvm gpa len =
     (let start_gfn = gpa_gfn gpa;
          end_gfn = gpa_gfn (gpa + len - 1);
          needed = end_gfn - start_gfn + 1;
          slot = gfn_to_memslot kvm start_gfn;
          many = gfn_to_hva_many slot start_gfn True;
          ghc = \<lparr>ghc_generation = generation (kvm_slots kvm), ghc_gpa = gpa, ghc_hva = fst many,
                 ghc_len = len, ghc_memslot = map_option slot_id slot\<rparr>
      in if \<not> kvm_is_error_hva (fst many) \<and> needed \<le> the (snd many)
         then Some (0, ghc\<lparr>ghc_hva := fst many + of_nat (offset_in_page gpa)\<rparr>)
         else case verify_pages kvm start_gfn end_gfn (0, map_option slot_id slot, fst many) of
                None \<Rightarrow> None
              | Some (ret, s, hva) \<Rightarrow>
                  if ret \<noteq> 0 then Some (ret, ghc\<lparr>ghc_memslot := s, ghc_hva := hva\<rparr>)
                  else Some (0, ghc\<lparr>ghc_memslot := None, ghc_hva := hva\<rparr>))"

text \<open>The cache, set up again when the table has changed since.\<close>

definition refresh_cache :: "kvm \<Rightarrow> gfn_to_hva_cache \<Rightarrow> gfn_to_hva_cache option" where
  "refresh_cache kvm ghc =
     (if generation (kvm_slots kvm) \<noteq> ghc_generation ghc
      then map_option snd (kvm_gfn_to_hva_cache_init kvm (ghc_gpa ghc) (ghc_len ghc))
      else Some ghc)"

text \<open>\<open>None\<close> does not return; \<open>Inl Abort\<close> is the \<open>BUG_ON\<close>.\<close>

definition kvm_read_guest_cached ::
    "kvm \<Rightarrow> gfn_to_hva_cache \<Rightarrow> u64 \<Rightarrow> ((int \<times> u8 list) \<times> gfn_to_hva_cache) res option" where
  "kvm_read_guest_cached kvm ghc len =
     (if ghc_len ghc < len then Some (Inl Abort)
      else case refresh_cache kvm ghc of None \<Rightarrow> None
      | Some ghc \<Rightarrow> Some (Inr (
          if ghc_memslot ghc = None then kvm_read_guest kvm (ghc_gpa ghc) len
          else if kvm_is_error_hva (ghc_hva ghc) then (- EFAULT, [])
          else case rd_bytes (umem kvm) (ghc_hva ghc) (unat len) of
                 Inl _ \<Rightarrow> (- EFAULT, []) | Inr bs \<Rightarrow> (0, bs), ghc)))"

definition kvm_write_guest_cached ::
    "kvm \<Rightarrow> gfn_to_hva_cache \<Rightarrow> u8 list \<Rightarrow> ((int \<times> kvm) \<times> gfn_to_hva_cache) res option" where
  "kvm_write_guest_cached kvm ghc bs =
     (if unat (ghc_len ghc) < length bs then Some (Inl Abort)
      else case refresh_cache kvm ghc of None \<Rightarrow> None
      | Some ghc \<Rightarrow> Some (Inr (
          case ghc_memslot ghc of
            None \<Rightarrow> kvm_write_guest kvm (ghc_gpa ghc) bs
          | Some i \<Rightarrow>
              if kvm_is_error_hva (ghc_hva ghc) then (- EFAULT, kvm)
              else case copy_to_user (umem kvm) (ghc_hva ghc) bs of
                     (m, r) \<Rightarrow> if r \<noteq> 0 then (- EFAULT, kvm\<lparr>umem := m\<rparr>)
                               else (0, mark_page_dirty_in_slot i (gpa_gfn (ghc_gpa ghc)) (kvm\<lparr>umem := m\<rparr>)), ghc)))"

section \<open>Memory byte by byte\<close>

text \<open>
  The reference: byte \<open>n\<close> counted from the start of page \<open>gfn\<close>, through the slot of its own page.
\<close>

definition guest_byte :: "kvm \<Rightarrow> u64 \<Rightarrow> nat \<Rightarrow> u8 option" where
  "guest_byte kvm gfn n =
     (let hva = gfn_to_hva_prot kvm (gfn + of_nat (n div PG_SIZE))
      in if kvm_is_error_hva hva then None else umem kvm (hva + of_nat (n mod PG_SIZE)))"

lemma rd_bytes_map:
  "rd_bytes r a n =
     (if \<forall>i<n. r (a + of_nat i) \<noteq> None then Inr (map (\<lambda>i. the (r (a + of_nat i))) [0..<n]) else Inl Fault)"
proof (induction n arbitrary: a)
  case 0
  then show ?case by simp
next
  case (Suc n)
  have all: "(\<forall>i<Suc n. r (a + of_nat i) \<noteq> None) \<longleftrightarrow> r a \<noteq> None \<and> (\<forall>i<n. r (a + 1 + of_nat i) \<noteq> None)"
    by (simp add: All_less_Suc2 ac_simps)
  show ?case
    unfolding all
    by (cases "r a") (auto simp: Suc.IH rd8_def map_upt_Suc ac_simps simp del: upt_Suc)
qed

lemma next_segment_0 [simp]: "off < PG_SIZE \<Longrightarrow> next_segment len off = 0 \<longleftrightarrow> len = 0"
  by (auto simp: next_segment_def)

lemma guest_byte_page:
  "off + n < PG_SIZE \<Longrightarrow> guest_byte kvm gfn (off + n) =
     (if kvm_is_error_hva (gfn_to_hva_prot kvm gfn) then None
      else umem kvm (gfn_to_hva_prot kvm gfn + of_nat off + of_nat n))"
  by (simp add: guest_byte_def ac_simps)

lemma guest_byte_next: "guest_byte kvm gfn (PG_SIZE + n) = guest_byte kvm (gfn + 1) n"
proof -
  have "(PG_SIZE + n) div PG_SIZE = Suc (n div PG_SIZE)" "(PG_SIZE + n) mod PG_SIZE = n mod PG_SIZE"
    by (simp_all add: PG_SIZE_def)
  then show ?thesis
    by (simp only: guest_byte_def of_nat_Suc ac_simps)
qed

lemma read_page_bytes:
  assumes "off + len \<le> PG_SIZE" "0 < len"
  shows "kvm_read_guest_page kvm gfn off len =
     (if \<forall>i<len. guest_byte kvm gfn (off + i) \<noteq> None
      then (0, map (\<lambda>i. the (guest_byte kvm gfn (off + i))) [0..<len]) else (- EFAULT, []))"
  using assms
  by (auto simp: kvm_read_guest_page_def Let_def rd_bytes_map guest_byte_page)

lemma all_less_add: "(\<forall>i<m + n. P i) \<longleftrightarrow> (\<forall>i<m. P i) \<and> (\<forall>i<n. P (m + i))" for m n :: nat
  by (metis add_less_cancel_left le_add_diff_inverse linorder_not_less trans_less_add1)

lemma map_upt_add: "map f [0..<m + n] = map f [0..<m] @ map (\<lambda>i. f (m + i)) [0..<n]"
  by (rule nth_equalityI) (auto simp: nth_append)

text \<open>A transfer is its first segment, in one page, and the rest, from the start of the next page.\<close>

lemma segment_split:
  assumes "off < PG_SIZE" "len \<noteq> 0"
  obtains (one) "next_segment len off = len" "off + len \<le> PG_SIZE"
  | (more) rest where "next_segment len off = PG_SIZE - off" "len = (PG_SIZE - off) + rest" "rest \<noteq> 0"
proof (cases "PG_SIZE - off < len")
  case True
  then show ?thesis
    using that(2) [of "len - (PG_SIZE - off)"] by (simp add: next_segment_def)
next
  case False
  then show ?thesis
    using that(1) assms by (simp add: next_segment_def)
qed

lemma PG_SIZE_pos [simp]: "0 < PG_SIZE"
  by (simp add: PG_SIZE_def)

lemma read_segments_0 [simp]: "off < PG_SIZE \<Longrightarrow> read_segments kvm gfn off 0 = (0, [])"
  by (subst read_segments.simps) simp

lemma read_page_ret: "fst (kvm_read_guest_page kvm gfn off len) \<in> {0, - EFAULT}"
  by (auto simp: kvm_read_guest_page_def Let_def split: sum.splits)

lemma read_segments_one:
  assumes "off < PG_SIZE" "len \<noteq> 0" "off + len \<le> PG_SIZE"
  shows "read_segments kvm gfn off len = kvm_read_guest_page kvm gfn off len"
proof -
  have "next_segment len off = len"
    using assms by (simp add: next_segment_def)
  then show ?thesis
    using assms read_page_ret [of kvm gfn off len]
    by (subst read_segments.simps) (auto simp: Let_def EFAULT_def split: prod.splits)
qed

lemma read_segments_more:
  assumes "off < PG_SIZE" "rest \<noteq> 0"
  shows "read_segments kvm gfn off (PG_SIZE - off + rest) =
     (case kvm_read_guest_page kvm gfn off (PG_SIZE - off) of
        (ret, bs) \<Rightarrow> if ret < 0 then (ret, bs) else case read_segments kvm (gfn + 1) 0 rest of (r, bs') \<Rightarrow> (r, bs @ bs'))"
proof -
  have "next_segment (PG_SIZE - off + rest) off = PG_SIZE - off"
    using assms by (simp add: next_segment_def)
  then show ?thesis
    using assms by (subst read_segments.simps) (simp only: Let_def diff_add_inverse zero_less_diff, simp)
qed

lemma read_segments_bytes:
  "off < PG_SIZE \<Longrightarrow>
     if \<forall>i<len. guest_byte kvm gfn (off + i) \<noteq> None
     then read_segments kvm gfn off len = (0, map (\<lambda>i. the (guest_byte kvm gfn (off + i))) [0..<len])
     else fst (read_segments kvm gfn off len) = - EFAULT"
proof (induction len arbitrary: gfn off rule: less_induct)
  case (less len)
  show ?case
  proof (cases "len = 0")
    case False
    with less.prems show ?thesis
    proof (cases rule: segment_split)
      case one
      with False less.prems show ?thesis
        by (auto simp: read_page_bytes read_segments_one)
    next
      case (more rest)
      have n: "guest_byte kvm gfn (off + (PG_SIZE - off + i)) = guest_byte kvm (gfn + 1) i" for i
        using less.prems guest_byte_next [of kvm gfn i] by simp
      have page: "kvm_read_guest_page kvm gfn off (PG_SIZE - off) =
          (if \<forall>i<PG_SIZE - off. guest_byte kvm gfn (off + i) \<noteq> None
           then (0, map (\<lambda>i. the (guest_byte kvm gfn (off + i))) [0..<PG_SIZE - off]) else (- EFAULT, []))"
        using less.prems by (intro read_page_bytes) auto
      have "if \<forall>i<rest. guest_byte kvm (gfn + 1) (0 + i) \<noteq> None
          then read_segments kvm (gfn + 1) 0 rest = (0, map (\<lambda>i. the (guest_byte kvm (gfn + 1) (0 + i))) [0..<rest])
          else fst (read_segments kvm (gfn + 1) 0 rest) = - EFAULT"
        using more less.prems by (intro less.IH) auto
      then show ?thesis
        unfolding more(2) read_segments_more [OF less.prems more(3)] page all_less_add n map_upt_add
        by (auto simp: EFAULT_def split: prod.splits if_splits)
    qed
  qed (use less.prems in simp)
qed

section \<open>Writes\<close>

lemma copy_to_user_0: "copy_to_user m a bs = (m', 0) \<longleftrightarrow> wr_bytes m a bs = Inr m'"
  by (induction bs arbitrary: m a) (auto split: option.splits)

lemma wr_bytes_mapped: "wr_bytes m a bs = Inr m' \<Longrightarrow> i < length bs \<Longrightarrow> m (a + of_nat i) \<noteq> None"
proof (induction bs arbitrary: m a i)
  case (Cons b bs)
  obtain y where y: "m a = Some y" and w: "wr_bytes (m(a \<mapsto> b)) (a + 1) bs = Inr m'"
    using Cons.prems(1) by (auto split: option.splits)
  show ?case
  proof (cases i)
    case (Suc j)
    then have "(m(a \<mapsto> b)) (a + 1 + of_nat j) \<noteq> None"
      using Cons.IH [OF w, of j] Cons.prems(2) by simp
    then show ?thesis
      using Suc y by (cases "a + 1 + of_nat j = a") (auto simp: ac_simps)
  qed (simp add: y)
qed simp

lemma copy_to_user_ok:
  assumes "copy_to_user m a bs = (m', 0)" "length bs < 2 ^ 64"
  shows "m' = (\<lambda>x. if unat (x - a) < length bs then Some (bs ! unat (x - a)) else m x)"
  using assms wr_bytes_ok [OF assms(2), of m a] wr_bytes_mapped [of m a bs m']
  by (simp add: copy_to_user_0)

text \<open>Marking a page changes no translation.\<close>

definition same_layout :: "kvm \<Rightarrow> kvm \<Rightarrow> bool" where
  "same_layout kvm kvm' \<longleftrightarrow>
     (\<forall>gfn write. gfn_to_hva_many (gfn_to_memslot kvm' gfn) gfn write = gfn_to_hva_many (gfn_to_memslot kvm gfn) gfn write)"

lemma mark_slot_fields [simp]:
  "base_gfn (mark_slot g s) = base_gfn s" "npages (mark_slot g s) = npages s"
  "flags (mark_slot g s) = flags s" "slot_id (mark_slot g s) = slot_id s"
  "userspace_addr (mark_slot g s) = userspace_addr s"
  by (simp_all add: mark_slot_def split: option.splits)

lemma find_map_takeWhile:
  "(\<And>x. P (f x) = P x) \<Longrightarrow> (\<And>x. Q (f x) = Q x) \<Longrightarrow>
     find P (takeWhile Q (map f xs)) = map_option f (find P (takeWhile Q xs))"
  by (induction xs) auto

lemma gfn_to_memslot_mark:
  "gfn_to_memslot (mark_page_dirty_in_slot i g kvm) gfn =
     map_option (\<lambda>s. if slot_id s = i then mark_slot g s else s) (gfn_to_memslot kvm gfn)"
  unfolding gfn_to_memslot_def search_memslots_def active_slots_def mark_page_dirty_in_slot_def
  by (simp, subst find_map_takeWhile) (auto simp: in_slot_def)

lemma same_layout_refl [simp]: "same_layout kvm kvm"
  by (simp add: same_layout_def)

lemma same_layout_trans: "same_layout k1 k2 \<Longrightarrow> same_layout k2 k3 \<Longrightarrow> same_layout k1 k3"
  by (simp add: same_layout_def)

lemma same_layout_mark: "same_layout kvm (mark_page_dirty g kvm)"
  by (auto simp: same_layout_def mark_page_dirty_def gfn_to_memslot_mark gfn_to_hva_many_def
      memslot_is_readonly_def gfn_to_hva_memslot_def split: option.splits)

lemma same_layout_umem [simp]: "same_layout kvm (kvm'\<lparr>umem := m\<rparr>) = same_layout kvm kvm'"
    "same_layout (kvm\<lparr>umem := m\<rparr>) kvm' = same_layout kvm kvm'"
  by (simp_all add: same_layout_def gfn_to_memslot_def)

lemma same_layout_hva:
  "same_layout kvm kvm' \<Longrightarrow> gfn_to_hva kvm' = gfn_to_hva kvm"
  "same_layout kvm kvm' \<Longrightarrow> gfn_to_hva_prot kvm' = gfn_to_hva_prot kvm"
  by (auto simp: same_layout_def gfn_to_hva_def gfn_to_hva_prot_def)

lemma umem_mark [simp]: "umem (mark_page_dirty g kvm) = umem kvm"
  by (simp add: mark_page_dirty_def mark_page_dirty_in_slot_def split: option.splits)

lemma error_hvas [simp]: "kvm_is_error_hva KVM_HVA_ERR_BAD" "kvm_is_error_hva KVM_HVA_ERR_RO_BAD"
  by (simp_all add: kvm_is_error_hva_def KVM_HVA_ERR_BAD_def KVM_HVA_ERR_RO_BAD_def PG_SIZE_def)

lemma writable_readable: "\<not> kvm_is_error_hva (gfn_to_hva kvm gfn) \<Longrightarrow> gfn_to_hva_prot kvm gfn = gfn_to_hva kvm gfn"
  by (auto simp: gfn_to_hva_def gfn_to_hva_prot_def gfn_to_hva_many_def split: option.splits if_splits)

lemma write_page_0:
  assumes w: "kvm_write_guest_page kvm gfn bs off = (0, kvm')" and l: "off + length bs \<le> PG_SIZE"
  shows "\<not> kvm_is_error_hva (gfn_to_hva kvm gfn)" "same_layout kvm kvm'"
    and "umem kvm' = (\<lambda>x. if unat (x - (gfn_to_hva kvm gfn + of_nat off)) < length bs
           then Some (bs ! unat (x - (gfn_to_hva kvm gfn + of_nat off))) else umem kvm x)"
proof -
  show e: "\<not> kvm_is_error_hva (gfn_to_hva kvm gfn)"
    using w by (auto simp: kvm_write_guest_page_def Let_def EFAULT_def split: if_splits)
  then obtain m where m: "copy_to_user (umem kvm) (gfn_to_hva kvm gfn + of_nat off) bs = (m, 0)"
      and k: "kvm' = mark_page_dirty gfn (kvm\<lparr>umem := m\<rparr>)"
    using w by (auto simp: kvm_write_guest_page_def Let_def EFAULT_def split: if_splits prod.splits)
  show "same_layout kvm kvm'"
    unfolding k using same_layout_mark [of "kvm\<lparr>umem := m\<rparr>" gfn] by simp
  show "umem kvm' = (\<lambda>x. if unat (x - (gfn_to_hva kvm gfn + of_nat off)) < length bs
           then Some (bs ! unat (x - (gfn_to_hva kvm gfn + of_nat off))) else umem kvm x)"
    using copy_to_user_ok [OF m] l k by (simp add: PG_SIZE_def)
qed

lemma write_page_ret: "fst (kvm_write_guest_page kvm gfn bs off) \<in> {0, - EFAULT}"
  by (auto simp: kvm_write_guest_page_def Let_def split: prod.splits)

lemma write_segments_Nil [simp]: "off < PG_SIZE \<Longrightarrow> write_segments kvm gfn off [] = (0, kvm)"
  by (subst write_segments.simps) simp

lemma write_segments_one:
  assumes "off < PG_SIZE" "bs \<noteq> []" "off + length bs \<le> PG_SIZE"
  shows "write_segments kvm gfn off bs = kvm_write_guest_page kvm gfn bs off"
proof -
  have "next_segment (length bs) off = length bs"
    using assms by (simp add: next_segment_def)
  then show ?thesis
    using assms write_page_ret [of kvm gfn bs off]
    by (subst write_segments.simps) (auto simp: Let_def EFAULT_def split: prod.splits)
qed

lemma write_segments_more:
  assumes "off < PG_SIZE" "PG_SIZE - off < length bs"
  shows "write_segments kvm gfn off bs =
     (case kvm_write_guest_page kvm gfn (take (PG_SIZE - off) bs) off of
        (ret, kvm') \<Rightarrow> if ret < 0 then (ret, kvm') else write_segments kvm' (gfn + 1) 0 (drop (PG_SIZE - off) bs))"
proof -
  have "next_segment (length bs) off = PG_SIZE - off"
    using assms by (simp add: next_segment_def)
  then show ?thesis
    using assms by (subst write_segments.simps) (simp add: Let_def)
qed

text \<open>Two aligned pages that share a byte are the same.\<close>

lemma unat_page_offset: "(a :: u64) AND 0xfff = 0 \<Longrightarrow> n < 4096 \<Longrightarrow> unat (a + of_nat n) = unat a + n"
proof -
  assume "a AND 0xfff = 0" "n < 4096"
  then have "unat a mod 4096 = 0"
    by (simp add: page_aligned_unat)
  then have "unat a \<le> 2 ^ 64 - 4096"
    using unat_less_u64 [of a] by auto
  then show ?thesis
    using \<open>n < 4096\<close> by (simp add: unat_add_small_u64 unat_of_nat)
qed

lemma aligned_pages_eq:
  assumes "(a :: u64) AND 0xfff = 0" "b AND 0xfff = 0" "n < 4096" "unat (a + of_nat n - b) < 4096"
  shows "a = b"
proof -
  define c where "c = unat (a + of_nat n - b)"
  have "a + of_nat n = b + of_nat c"
    by (simp add: c_def)
  then have "unat (a + of_nat n) = unat (b + of_nat c)"
    by simp
  then have "unat a + n = unat b + c"
    using assms by (simp add: unat_page_offset c_def del: of_nat_unat)
  moreover obtain q r where "unat a = 4096 * q" "unat b = 4096 * r"
    using assms(1,2) unfolding page_aligned_unat by (metis mod_0_imp_dvd dvdE)
  moreover have "c < 4096"
    using assms(4) by (simp only: c_def)
  ultimately have "unat a = unat b"
    using assms(3) by (cases q r rule: linorder_cases) linarith+
  then show ?thesis by (simp only: word_unat_eq_iff)
qed

text \<open>The pages a transfer of \<open>len\<close> bytes from offset \<open>off\<close> touches are mapped to different host pages.\<close>

definition pages_apart :: "kvm \<Rightarrow> u64 \<Rightarrow> nat \<Rightarrow> bool" where
  "pages_apart kvm gfn n \<longleftrightarrow> inj_on (\<lambda>p. gfn_to_hva kvm (gfn + of_nat p)) {p. p * PG_SIZE < n}"

lemma pages_apart_next: "pages_apart kvm gfn (PG_SIZE + n) \<Longrightarrow> pages_apart kvm (gfn + 1) n"
  unfolding pages_apart_def inj_on_def
proof (intro ballI impI)
  fix p q
  assume *: "\<forall>x\<in>{p. p * PG_SIZE < PG_SIZE + n}. \<forall>y\<in>{p. p * PG_SIZE < PG_SIZE + n}.
        gfn_to_hva kvm (gfn + of_nat x) = gfn_to_hva kvm (gfn + of_nat y) \<longrightarrow> x = y"
    and "p \<in> {p. p * PG_SIZE < n}" "q \<in> {p. p * PG_SIZE < n}"
    and "gfn_to_hva kvm (gfn + 1 + of_nat p) = gfn_to_hva kvm (gfn + 1 + of_nat q)"
  then show "p = q"
    using * [THEN bspec, of "Suc p", THEN bspec, of "Suc q"] by (simp add: ac_simps)
qed

definition hva_aligned :: "kvm \<Rightarrow> bool" where
  "hva_aligned kvm \<longleftrightarrow> (\<forall>gfn. gfn_to_hva kvm gfn AND 0xfff = 0)"

definition outside_pages :: "kvm \<Rightarrow> u64 \<Rightarrow> nat \<Rightarrow> u64 \<Rightarrow> bool" where
  "outside_pages kvm gfn n x \<longleftrightarrow> (\<forall>p. p * PG_SIZE < n \<longrightarrow> PG_SIZE \<le> unat (x - gfn_to_hva kvm (gfn + of_nat p)))"

lemma outside_pages_next:
  "outside_pages kvm gfn (PG_SIZE + n) x \<Longrightarrow> outside_pages kvm (gfn + 1) n x"
  unfolding outside_pages_def
proof (intro allI impI)
  fix p
  assume "\<forall>p. p * PG_SIZE < PG_SIZE + n \<longrightarrow> PG_SIZE \<le> unat (x - gfn_to_hva kvm (gfn + of_nat p))" "p * PG_SIZE < n"
  then show "PG_SIZE \<le> unat (x - gfn_to_hva kvm (gfn + 1 + of_nat p))"
    by (auto simp: ac_simps dest!: spec [of _ "Suc p"])
qed

lemma outside_first_page:
  assumes "hva_aligned kvm" "pages_apart kvm gfn (PG_SIZE + n)" "i < PG_SIZE"
  shows "outside_pages kvm (gfn + 1) n (gfn_to_hva kvm gfn + of_nat i)"
  unfolding outside_pages_def
proof (intro allI impI)
  fix p
  assume p: "p * PG_SIZE < n"
  show "PG_SIZE \<le> unat (gfn_to_hva kvm gfn + of_nat i - gfn_to_hva kvm (gfn + 1 + of_nat p))"
  proof (rule ccontr)
    assume "\<not> PG_SIZE \<le> unat (gfn_to_hva kvm gfn + of_nat i - gfn_to_hva kvm (gfn + 1 + of_nat p))"
    then have "gfn_to_hva kvm gfn = gfn_to_hva kvm (gfn + 1 + of_nat p)"
      using aligned_pages_eq [of "gfn_to_hva kvm gfn" "gfn_to_hva kvm (gfn + 1 + of_nat p)" i] assms
      by (simp add: hva_aligned_def PG_SIZE_def)
    then show False
      using inj_onD [OF assms(2) [unfolded pages_apart_def], of 0 "Suc p"] p by (simp add: ac_simps)
  qed
qed

lemma write_page_frame:
  assumes w: "kvm_write_guest_page kvm gfn bs off = (0, kvm')" and l: "off + length bs \<le> PG_SIZE"
    and x: "PG_SIZE \<le> unat (x - gfn_to_hva kvm gfn)"
  shows "umem kvm' x = umem kvm x"
proof -
  have "\<not> unat (x - (gfn_to_hva kvm gfn + of_nat off)) < length bs"
  proof
    assume *: "unat (x - (gfn_to_hva kvm gfn + of_nat off)) < length bs"
    define c where "c = unat (x - (gfn_to_hva kvm gfn + of_nat off))"
    have "x - gfn_to_hva kvm gfn = of_nat (off + c)"
      by (simp add: c_def)
    then have "unat (x - gfn_to_hva kvm gfn) = off + c"
      using * l by (simp add: c_def [symmetric] PG_SIZE_def unat_of_nat del: of_nat_add)
    then show False using x * l by (simp add: c_def)
  qed
  then show ?thesis using write_page_0 [OF w l] by simp
qed

lemma write_page_bytes:
  assumes w: "kvm_write_guest_page kvm gfn bs off = (0, kvm')" and l: "off + length bs \<le> PG_SIZE" "i < length bs"
  shows "umem kvm' (gfn_to_hva kvm gfn + of_nat (off + i)) = Some (bs ! i)"
  using write_page_0(3) [OF w l(1)] l by (simp add: PG_SIZE_def unat_of_nat)

text \<open>What a successful write establishes.\<close>

definition written :: "kvm \<Rightarrow> kvm \<Rightarrow> u64 \<Rightarrow> nat \<Rightarrow> u8 list \<Rightarrow> bool" where
  "written kvm kvm' gfn off bs \<longleftrightarrow>
     same_layout kvm kvm' \<and>
     (\<forall>i<length bs. guest_byte kvm' gfn (off + i) = Some (bs ! i)) \<and>
     (\<forall>x. outside_pages kvm gfn (off + length bs) x \<longrightarrow> umem kvm' x = umem kvm x)"

lemma write_page_written:
  assumes p: "kvm_write_guest_page kvm gfn bs off = (0, kvm')" and l: "off + length bs \<le> PG_SIZE" and "bs \<noteq> []"
  shows "written kvm kvm' gfn off bs"
proof -
  have "guest_byte kvm' gfn (off + i) = Some (bs ! i)" if "i < length bs" for i
    using that l write_page_0(1,2) [OF p] write_page_bytes [OF p, of i] writable_readable [of kvm gfn]
    by (simp add: guest_byte_page same_layout_hva ac_simps)
  moreover have "PG_SIZE \<le> unat (x - gfn_to_hva kvm gfn)" if "outside_pages kvm gfn (off + length bs) x" for x
    using that assms unfolding outside_pages_def by (auto dest!: spec [of _ 0])
  ultimately show ?thesis
    using l write_page_0(2) [OF p] write_page_frame [OF p] unfolding written_def by blast
qed

text \<open>A page that is written first keeps its bytes when the pages after it are written.\<close>

lemma written_append:
  assumes p: "kvm_write_guest_page kvm gfn bs off = (0, kvm1)" and off: "off + length bs = PG_SIZE" "bs \<noteq> []"
    and r: "written kvm1 kvm' (gfn + 1) 0 bs'"
    and al: "hva_aligned kvm" and apart: "pages_apart kvm gfn (off + length (bs @ bs'))"
  shows "written kvm kvm' gfn off (bs @ bs')"
proof -
  note w = write_page_written [OF p _ off(2)]
  have s1: "same_layout kvm kvm1" and s2: "same_layout kvm kvm'"
    using w r off same_layout_trans by (auto simp: written_def)
  note hv = same_layout_hva [OF s1] same_layout_hva [OF s2]
  have len: "off + length (bs @ bs') = PG_SIZE + length bs'"
    using off by simp
  have keep: "umem kvm' x = umem kvm1 x" if "outside_pages kvm (gfn + 1) (length bs') x" for x
    using r that by (simp add: written_def outside_pages_def hv)
  have "guest_byte kvm' gfn (off + i) = Some (bs ! i)" if i: "i < length bs" for i
  proof -
    have o: "off + i < PG_SIZE" using i off by simp
    have "umem kvm' (gfn_to_hva kvm gfn + of_nat (off + i)) = Some (bs ! i)"
      using keep [OF outside_first_page [OF al apart [unfolded len] o]] write_page_bytes [OF p _ i] off by simp
    then show ?thesis
      using o write_page_0(1) [OF p] off writable_readable [of kvm gfn] by (simp add: guest_byte_page hv ac_simps)
  qed
  moreover have "guest_byte kvm' gfn (off + (length bs + j)) = Some (bs' ! j)" if "j < length bs'" for j
    using r that off guest_byte_next [of kvm' gfn j] by (simp add: written_def flip: add.assoc)
  ultimately have "guest_byte kvm' gfn (off + i) = Some ((bs @ bs') ! i)" if "i < length (bs @ bs')" for i
    using that by (cases "i < length bs") (auto simp: nth_append dest: less_imp_add_positive le_Suc_ex simp: not_less)
  moreover have "umem kvm' x = umem kvm x" if x: "outside_pages kvm gfn (PG_SIZE + length bs') x" for x
    using keep [OF outside_pages_next [OF x]] write_page_frame [OF p, of x] x off
    by (auto simp: outside_pages_def dest!: spec [of _ 0])
  ultimately show ?thesis
    using s2 by (simp only: written_def len) blast
qed

lemma write_segments_written:
  "write_segments kvm gfn off bs = (0, kvm') \<Longrightarrow> off < PG_SIZE \<Longrightarrow> hva_aligned kvm \<Longrightarrow>
     pages_apart kvm gfn (off + length bs) \<Longrightarrow> written kvm kvm' gfn off bs"
proof (induction "length bs" arbitrary: kvm gfn off bs rule: less_induct)
  case less
  note w = less.prems(1) and off = less.prems(2)
  consider "bs = []" | "bs \<noteq> []" "off + length bs \<le> PG_SIZE" | "PG_SIZE - off < length bs"
    using off by (cases "bs = []"; cases "PG_SIZE - off < length bs") auto
  then show ?case
  proof cases
    case 1
    then show ?thesis using w off by (simp add: written_def)
  next
    case 2
    then show ?thesis
      using w off write_page_written by (simp add: write_segments_one)
  next
    case 3
    define n where "n = PG_SIZE - off"
    obtain kvm1 where p: "kvm_write_guest_page kvm gfn (take n bs) off = (0, kvm1)"
        and r: "write_segments kvm1 (gfn + 1) 0 (drop n bs) = (0, kvm')"
      using w write_page_ret [of kvm gfn "take n bs" off]
      unfolding write_segments_more [OF off 3] n_def [symmetric]
      by (auto simp: EFAULT_def split: prod.splits if_splits)
    have l: "off + length (take n bs) = PG_SIZE" "take n bs \<noteq> []"
      using off 3 by (auto simp: n_def)
    have hv: "gfn_to_hva kvm1 = gfn_to_hva kvm"
      using write_page_0(2) [OF p] l by (simp add: same_layout_hva)
    have "pages_apart kvm gfn (PG_SIZE + length (drop n bs))"
      using less.prems(4) 3 off by (simp add: n_def add.commute)
    then have "written kvm1 kvm' (gfn + 1) 0 (drop n bs)"
      using less.hyps [OF _ r] 3 off less.prems(3) pages_apart_next
      by (simp add: n_def hva_aligned_def pages_apart_def hv)
    from written_append [OF p l this less.prems(3)] show ?thesis
      using less.prems(4) by simp
  qed
qed

lemma aligned_add_pages:
  assumes "(a :: u64) AND 0xfff = 0"
  shows "(a + k * of_nat PG_SIZE) AND 0xfff = 0"
proof -
  have "unat (a + k * of_nat PG_SIZE) mod 4096 = (unat a + unat k * 4096) mod 4096"
    by (simp add: unat_word_ariths PG_SIZE_def mod_mod_cancel mod_simps)
  then show ?thesis
    using assms by (simp add: page_aligned_unat)
qed

lemma kvm_inv_aligned:
  assumes "kvm_inv kvm"
  shows "hva_aligned kvm"
  unfolding hva_aligned_def
proof
  fix gfn
  have "userspace_addr s AND 0xfff = 0" if "gfn_to_memslot kvm gfn = Some s" for s
    using kvm_inv_slot_ok [OF assms] gfn_to_memslot_SomeD [OF that] by (auto simp: slot_ok_def user_pages_def)
  moreover have "KVM_HVA_ERR_BAD AND 0xfff = 0" "KVM_HVA_ERR_RO_BAD AND 0xfff = 0"
    by (simp_all add: KVM_HVA_ERR_BAD_def KVM_HVA_ERR_RO_BAD_def PG_SIZE_def)
  ultimately show "gfn_to_hva kvm gfn AND 0xfff = 0"
    by (auto simp: gfn_to_hva_def gfn_to_hva_many_def gfn_to_hva_memslot_def
        intro: aligned_add_pages split: option.splits)
qed

lemma offset_in_page_less: "offset_in_page gpa < PG_SIZE"
proof -
  have "gpa AND 0xfff = take_bit 12 gpa"
    by (simp add: take_bit_eq_mask mask_eq_exp_minus_1)
  then have "offset_in_page gpa = unat gpa mod 4096"
    by (simp add: offset_in_page_def take_bit_eq_mod unat_mod)
  then show ?thesis by (simp add: PG_SIZE_def)
qed

section \<open>The invariant and dirty pages\<close>

definition page_logged :: "kvm \<Rightarrow> u64 \<Rightarrow> bool" where
  "page_logged kvm gfn \<longleftrightarrow> (case gfn_to_memslot kvm gfn of None \<Rightarrow> False | Some s \<Rightarrow> dirty_bitmap s \<noteq> None)"

definition page_dirty :: "kvm \<Rightarrow> u64 \<Rightarrow> bool" where
  "page_dirty kvm gfn \<longleftrightarrow>
     (case gfn_to_memslot kvm gfn of None \<Rightarrow> False
      | Some s \<Rightarrow> (case dirty_bitmap s of None \<Rightarrow> False | Some b \<Rightarrow> b ! unat (gfn - base_gfn s)))"

lemma slot_ok_mark [simp]: "slot_ok (mark_slot g s) = slot_ok s"
  by (simp add: slot_ok_def) (simp add: mark_slot_def split: option.splits)

lemma table_ok_map:
  assumes "\<And>s. slot_id (f s) = slot_id s" "\<And>s. npages (f s) = npages s"
  shows "table_ok (slots\<lparr>memslots := map f (memslots slots)\<rparr>) = table_ok slots"
proof -
  have "map slot_id (map f ms) = map slot_id ms" for ms
    using assms by simp
  moreover have "sorted_wrt (\<lambda>s t. npages t \<le> npages s) (map f ms) = sorted_wrt (\<lambda>s t. npages t \<le> npages s) ms" for ms
    using assms by (simp add: sorted_wrt_map)
  ultimately show ?thesis
    using assms by (simp add: table_ok_def comp_def)
qed

lemma user_disjoint_map:
  "(\<And>s. slot_id (f s) = slot_id s) \<Longrightarrow> (\<And>s. slot_range (f s) = slot_range s) \<Longrightarrow>
     user_disjoint (map f ms) = user_disjoint ms"
  by (simp add: user_disjoint_def)

lemma kvm_inv_mark_in_slot:
  assumes "kvm_inv kvm"
  shows "kvm_inv (mark_page_dirty_in_slot i g kvm)"
proof -
  define f where "f = (\<lambda>s. if slot_id s = i then mark_slot g s else s)"
  have f: "slot_id (f s) = slot_id s" "npages (f s) = npages s" "slot_range (f s) = slot_range s"
      "slot_ok (f s) = slot_ok s" for s
    by (simp_all add: f_def slot_range_def)
  show ?thesis
    using assms unfolding kvm_inv_def mark_page_dirty_in_slot_def f_def [symmetric]
    by (simp add: table_ok_map user_disjoint_map f)
qed

lemma kvm_inv_mark: "kvm_inv kvm \<Longrightarrow> kvm_inv (mark_page_dirty g kvm)"
  by (simp add: mark_page_dirty_def kvm_inv_mark_in_slot split: option.splits)

lemma kvm_inv_umem [simp]: "kvm_inv (kvm\<lparr>umem := m\<rparr>) = kvm_inv kvm"
  by (simp add: kvm_inv_def)

lemma kvm_inv_write_page: "kvm_inv kvm \<Longrightarrow> kvm_inv (snd (kvm_write_guest_page kvm gfn bs off))"
  by (auto simp: kvm_write_guest_page_def Let_def kvm_inv_mark split: prod.splits)

lemma kvm_inv_write_segments: "kvm_inv kvm \<Longrightarrow> kvm_inv (snd (write_segments kvm gfn off bs))"
proof (induction kvm gfn off bs rule: write_segments.induct)
  case (1 kvm gfn off bs)
  obtain ret kvm1 where p: "kvm_write_guest_page kvm gfn (take (next_segment (length bs) off) bs) off = (ret, kvm1)"
    by fastforce
  then have "kvm_inv kvm1"
    using kvm_inv_write_page [OF 1(2)] by (metis snd_conv)
  then show ?case
    using 1(1) [OF refl _ p [symmetric]] 1(2) p by (subst write_segments.simps) (simp add: Let_def)
qed

lemma kvm_inv_write: "kvm_inv kvm \<Longrightarrow> kvm_inv (snd (kvm_write_guest kvm gpa bs))"
  by (simp add: kvm_write_guest_def kvm_inv_write_segments)

lemma page_dirty_umem [simp]: "page_dirty (kvm\<lparr>umem := m\<rparr>) g = page_dirty kvm g"
    "page_logged (kvm\<lparr>umem := m\<rparr>) g = page_logged kvm g"
  by (simp_all add: page_dirty_def page_logged_def gfn_to_memslot_def)

lemma nth_update_True: "b ! i \<Longrightarrow> b[j := True] ! i"
  by (cases "i = j"; cases "j < length b") (auto simp: list_update_beyond)

lemma mark_monotone:
  "page_dirty kvm g \<Longrightarrow> page_dirty (mark_page_dirty g' kvm) g"
  "page_logged (mark_page_dirty g' kvm) g = page_logged kvm g"
  by (auto simp: page_dirty_def page_logged_def mark_page_dirty_def gfn_to_memslot_mark mark_slot_def nth_update_True
      split: option.splits)

lemma mark_marks:
  assumes "kvm_inv kvm" "page_logged kvm g"
  shows "page_dirty (mark_page_dirty g kvm) g"
proof -
  obtain s b where s: "gfn_to_memslot kvm g = Some s" "dirty_bitmap s = Some b"
    using assms(2) by (auto simp: page_logged_def split: option.splits)
  have ok: "slot_ok s" and "in_slot g s"
    using kvm_inv_slot_ok [OF assms(1)] gfn_to_memslot_SomeD [OF s(1)] by auto
  then have "unat (g - base_gfn s) < unat (npages s)"
    by (auto simp: in_slot_range slot_range_def unat_sub_if')
  then have "unat (g - base_gfn s) < length b"
    using ok s(2) by (simp add: slot_ok_def)
  then show ?thesis
    using s by (simp add: page_dirty_def mark_page_dirty_def gfn_to_memslot_mark mark_slot_def)
qed

lemma clear_is_write:
  "off < PG_SIZE \<Longrightarrow> clear_segments kvm gfn off len = write_segments kvm gfn off (replicate len 0)"
proof (induction kvm gfn off len rule: clear_segments.induct)
  case (1 kvm gfn off len)
  have "take (next_segment len off) (replicate len 0) = replicate (next_segment len off) (0 :: u8)"
    by (simp add: next_segment_def min_def)
  moreover have "clear_segments kvm' (gfn + 1) 0 (len - next_segment len off) =
      write_segments kvm' (gfn + 1) 0 (replicate (len - next_segment len off) 0)"
    if "kvm_clear_guest_page kvm gfn off (next_segment len off) = (r, kvm')" "\<not> r < 0" "next_segment len off \<noteq> 0" for r kvm'
    using 1(1) [OF refl that(3) that(1) [symmetric] that(2)] by simp
  ultimately show ?case
    by (subst clear_segments.simps, subst write_segments.simps)
      (auto simp: Let_def kvm_clear_guest_page_def split: prod.splits)
qed

lemma page_dirty_write_page:
  assumes "kvm_inv kvm" "kvm_write_guest_page kvm gfn bs off = (r, kvm1)"
  shows write_page_monotone: "page_dirty kvm g \<Longrightarrow> page_dirty kvm1 g"
    and write_page_logged: "page_logged kvm1 g = page_logged kvm g"
    and write_page_marks: "r = 0 \<Longrightarrow> page_logged kvm gfn \<Longrightarrow> page_dirty kvm1 gfn"
    and write_page_inv: "kvm_inv kvm1"
  using assms kvm_inv_write_page [OF assms(1), of gfn bs off]
  by (auto simp: kvm_write_guest_page_def Let_def mark_monotone mark_marks EFAULT_def split: prod.splits if_splits)

lemma write_segments_monotone:
  "kvm_inv kvm \<Longrightarrow> page_dirty kvm g \<Longrightarrow> page_dirty (snd (write_segments kvm gfn off bs)) g"
proof (induction kvm gfn off bs rule: write_segments.induct)
  case (1 kvm gfn off bs)
  obtain ret kvm1 where p: "kvm_write_guest_page kvm gfn (take (next_segment (length bs) off) bs) off = (ret, kvm1)"
    by fastforce
  then show ?case
    using 1(1) [OF refl _ p [symmetric] _ write_page_inv [OF 1(2) p] write_page_monotone [OF 1(2) p]] 1(3)
      write_page_monotone [OF 1(2) p]
    by (subst write_segments.simps) (simp add: Let_def)
qed

lemma write_segments_marks:
  "off < PG_SIZE \<Longrightarrow> kvm_inv kvm \<Longrightarrow> write_segments kvm gfn off bs = (0, kvm') \<Longrightarrow> bs \<noteq> [] \<Longrightarrow>
     p * PG_SIZE < off + length bs \<Longrightarrow> page_logged kvm (gfn + of_nat p) \<Longrightarrow> page_dirty kvm' (gfn + of_nat p)"
proof (induction "length bs" arbitrary: kvm gfn off bs p rule: less_induct)
  case less
  note off = less.prems(1)
  consider "off + length bs \<le> PG_SIZE" | "PG_SIZE - off < length bs"
    using off by linarith
  then show ?case
  proof cases
    case 1
    then have w: "kvm_write_guest_page kvm gfn bs off = (0, kvm')"
      using less.prems by (simp add: write_segments_one)
    have "p * PG_SIZE < 1 * PG_SIZE"
      using 1 less.prems(5) by linarith
    then have "p = 0"
      unfolding mult_less_cancel2 by simp
    then show ?thesis
      using less.prems write_page_marks [OF less.prems(2) w] by simp
  next
    case 2
    define n where "n = PG_SIZE - off"
    obtain kvm1 where w: "kvm_write_guest_page kvm gfn (take n bs) off = (0, kvm1)"
        and r: "write_segments kvm1 (gfn + 1) 0 (drop n bs) = (0, kvm')"
      using less.prems(3) write_page_ret [of kvm gfn "take n bs" off]
      unfolding write_segments_more [OF off 2] n_def [symmetric]
      by (auto simp: EFAULT_def split: prod.splits if_splits)
    note pd = page_dirty_write_page [OF less.prems(2) w]
    show ?thesis
    proof (cases p)
      case 0
      then show ?thesis
        using write_segments_monotone [OF pd(4) pd(3), of "gfn + 1" 0 "drop n bs"] less.prems(6) r by simp
    next
      case (Suc q)
      then have q: "q * PG_SIZE < 0 + length (drop n bs)"
        using less.prems(5) 2 off by (simp add: n_def)
      have "page_dirty kvm' (gfn + 1 + of_nat q)"
        by (rule less.hyps [OF _ _ pd(4) r _ q]) (use 2 off less.prems(6) pd(2) Suc in \<open>auto simp: n_def ac_simps\<close>)
      then show ?thesis using Suc by (simp add: ac_simps)
    qed
  qed
qed

section \<open>The cache\<close>

definition slots_disjoint :: "kvm \<Rightarrow> bool" where
  "slots_disjoint kvm \<longleftrightarrow>
     (\<forall>s\<in>set (memslots (kvm_slots kvm)). \<forall>t\<in>set (memslots (kvm_slots kvm)).
        slot_id s \<noteq> slot_id t \<longrightarrow> slot_range s \<inter> slot_range t = {})"

lemma gfn_to_memslot_unique:
  assumes "kvm_inv kvm" "slots_disjoint kvm" "s \<in> set (memslots (kvm_slots kvm))" "unat gfn \<in> slot_range s"
  shows "gfn_to_memslot kvm gfn = Some s"
proof -
  obtain t where t: "gfn_to_memslot kvm gfn = Some t"
    using gfn_to_memslot_None_iff [OF assms(1)] assms(3,4) by fastforce
  have tm: "t \<in> set (memslots (kvm_slots kvm))" "unat gfn \<in> slot_range t"
    using gfn_to_memslot_SomeD [OF t] kvm_inv_slot_ok [OF assms(1)] by (auto simp: in_slot_range)
  then have "slot_id t = slot_id s"
    using assms(2-4) unfolding slots_disjoint_def by blast
  then have "t = s"
    using assms(1,3) tm(1) id_to_memslot_of unfolding kvm_inv_def by metis
  with t show ?thesis by simp
qed

lemma unat_mult_page: "unat (k :: u64) < 2 ^ 52 \<Longrightarrow> unat (k * of_nat PG_SIZE) = 4096 * unat k"
  by (simp add: PG_SIZE_def unat_mult_lem [THEN iffD1])

lemma unat_hva_memslot:
  assumes "slot_ok s" "in_slot g s"
  shows "unat (gfn_to_hva_memslot s g) = unat (userspace_addr s) + 4096 * (unat g - unat (base_gfn s))"
    and "unat (gfn_to_hva_memslot s g) + 4096 \<le> 2 ^ 47"
proof -
  have g: "unat (base_gfn s) \<le> unat g" "unat g < unat (base_gfn s) + unat (npages s)"
    using assms by (auto simp: in_slot_range slot_range_def)
  then have d: "unat (g - base_gfn s) = unat g - unat (base_gfn s)"
    by (simp add: unat_sub word_le_nat_alt)
  have b: "unat (userspace_addr s) + 4096 * unat (npages s) \<le> 2 ^ 47"
    using assms(1) by (simp add: slot_ok_def user_pages_def)
  then have "unat (g - base_gfn s) < 2 ^ 52"
    using g d by simp
  then have m: "unat ((g - base_gfn s) * of_nat PG_SIZE) = 4096 * (unat g - unat (base_gfn s))"
    by (simp only: unat_mult_page d)
  then show u: "unat (gfn_to_hva_memslot s g) = unat (userspace_addr s) + 4096 * (unat g - unat (base_gfn s))"
    unfolding gfn_to_hva_memslot_def using b g by (subst unat_add_small_u64) simp_all
  show "unat (gfn_to_hva_memslot s g) + 4096 \<le> 2 ^ 47"
    unfolding u using b g by simp
qed

lemma user_hva_ok: "unat a < 2 ^ 47 \<Longrightarrow> \<not> kvm_is_error_hva a"
  by (simp add: kvm_is_error_hva_def KVM_HVA_ERR_BAD_def word_le_nat_alt)

lemma verify_pages_returns:
  assumes "kvm_inv kvm"
  shows "\<exists>r. verify_pages kvm st en prev = Some r"
proof (induction "Suc (unat en) - unat st" arbitrary: st prev rule: less_induct)
  case less
  show ?case
  proof (cases "gfn_to_memslot kvm st")
    case None
    then show ?thesis by (subst verify_pages.simps, cases prev) (simp add: gfn_to_hva_many_def)
  next
    case (Some s)
    have s: "slot_ok s" "in_slot st s"
      using gfn_to_memslot_SomeD [OF Some] kvm_inv_slot_ok [OF assms] by auto
    then have g: "unat (base_gfn s) \<le> unat st" "unat st < unat (base_gfn s) + unat (npages s)"
      by (auto simp: in_slot_range slot_range_def)
    have "st + (npages s - (st - base_gfn s)) = base_gfn s + npages s"
      by simp
    then have "unat (st + (npages s - (st - base_gfn s))) = unat (base_gfn s) + unat (npages s)"
      using unat_end_slot [OF s(1)] by (simp only:)
    then have "st \<le> en \<Longrightarrow> \<exists>r. verify_pages kvm (st + (npages s - (st - base_gfn s))) en p = Some r" for p
      using g by (intro less) (auto simp: word_le_nat_alt)
    then show ?thesis
      using Some by (subst verify_pages.simps, cases prev) (simp add: gfn_to_hva_many_def Let_def)
  qed
qed

lemma unat_gpa_gfn: "unat (gpa_gfn a) = unat a div 4096"
  by (simp add: gpa_gfn_def unat_drop_bit_12)

lemma offset_in_page_mod: "offset_in_page gpa = unat gpa mod 4096"
proof -
  have "gpa AND 0xfff = take_bit 12 gpa"
    by (simp add: take_bit_eq_mask mask_eq_exp_minus_1)
  then show ?thesis
    by (simp add: offset_in_page_def take_bit_eq_mod unat_mod)
qed

text \<open>Bytes of a slot are contiguous in the host.\<close>

lemma guest_byte_slot:
  assumes inv: "kvm_inv kvm" "slots_disjoint kvm"
    and s: "gfn_to_memslot kvm gfn = Some s" "flags s AND KVM_MEMSLOT_INVALID = 0"
    and n: "unat gfn + n div PG_SIZE < unat (base_gfn s) + unat (npages s)"
  shows "guest_byte kvm gfn n = umem kvm (gfn_to_hva_memslot s gfn + of_nat n)"
proof -
  define g where "g = gfn + of_nat (n div PG_SIZE)"
  have sm: "s \<in> set (memslots (kvm_slots kvm))" "slot_ok s" "in_slot gfn s"
    using gfn_to_memslot_SomeD [OF s(1)] kvm_inv_slot_ok [OF inv(1)] by auto
  have "unat (base_gfn s) + unat (npages s) \<le> 2 ^ 52"
    using sm(2) by (simp add: slot_ok_def)
  then have u: "unat g = unat gfn + n div PG_SIZE"
    unfolding g_def using n by (subst unat_add_small_u64) (simp_all add: unat_of_nat)
  then have r: "unat g \<in> slot_range s"
    using sm n by (simp add: in_slot_range slot_range_def)
  then have "gfn_to_hva_prot kvm g = gfn_to_hva_memslot s g"
    using gfn_to_memslot_unique [OF inv sm(1)] s(2) by (simp add: gfn_to_hva_prot_def gfn_to_hva_many_def)
  moreover have "\<not> kvm_is_error_hva (gfn_to_hva_memslot s g)"
    using unat_hva_memslot(2) [of s g] sm r by (intro user_hva_ok) (auto simp: in_slot_range)
  moreover have "gfn_to_hva_memslot s g + of_nat (n mod PG_SIZE) = gfn_to_hva_memslot s gfn + of_nat n"
  proof -
    have "of_nat n = (of_nat (n div PG_SIZE) * of_nat PG_SIZE + of_nat (n mod PG_SIZE) :: u64)"
      by (simp flip: of_nat_mult of_nat_add)
    then show ?thesis
      by (simp add: gfn_to_hva_memslot_def g_def algebra_simps)
  qed
  ultimately show ?thesis
    by (simp add: guest_byte_def g_def)
qed

lemma cache_fast_pages:
  assumes "1 \<le> unat glen" "unat gpa + unat glen \<le> 2 ^ 64" "i < unat glen"
    and s: "slot_ok s" "in_slot (gpa_gfn gpa) s"
    and needed: "gpa_gfn (gpa + glen - 1) - gpa_gfn gpa + 1 \<le> npages s - (gpa_gfn gpa - base_gfn s)"
  shows "unat (gpa_gfn gpa) + (offset_in_page gpa + i) div PG_SIZE < unat (base_gfn s) + unat (npages s)"
proof -
  define q where "q = unat gpa div 4096"
  define e where "e = (unat gpa + unat glen - 1) div 4096"
  have "unat (gpa + glen - 1) = unat gpa + unat glen - 1"
  proof -
    have "gpa + glen - 1 = gpa + (glen - 1)" by simp
    moreover have "unat (glen - 1) = unat glen - 1"
      using assms(1) by (metis One_nat_def Suc_leI diff_Suc_1 less_eq_Suc_le unat_pred_u64 unat_eq_zero not_one_le_zero)
    moreover have "unat (gpa + (glen - 1)) = unat gpa + unat (glen - 1)"
      using assms(1,2) calculation(2) by (intro unat_add_small_u64) simp
    ultimately show ?thesis
      using assms(1) by (simp add: add_diff_eq)
  qed
  then have ue: "unat (gpa_gfn (gpa + glen - 1)) = e" and uq: "unat (gpa_gfn gpa) = q"
    by (simp_all add: unat_gpa_gfn e_def q_def)
  have qe: "q \<le> e" "e < 2 ^ 52"
    using assms(1,2) by (auto simp: q_def e_def intro!: div_le_mono)
  have g: "unat (base_gfn s) \<le> q" "q < unat (base_gfn s) + unat (npages s)"
    using s uq by (auto simp: in_slot_range slot_range_def)
  have "unat (gpa_gfn (gpa + glen - 1) - gpa_gfn gpa + 1) = e - q + 1"
    using qe ue uq by (subst unat_add_small_u64) (auto simp: unat_sub_if')
  moreover have "unat (npages s - (gpa_gfn gpa - base_gfn s)) = unat (npages s) - (q - unat (base_gfn s))"
    using g uq by (simp add: unat_sub_if')
  ultimately have "e - q + 1 \<le> unat (npages s) - (q - unat (base_gfn s))"
    using needed by (simp add: word_le_nat_alt)
  moreover have "q + (offset_in_page gpa + i) div PG_SIZE \<le> e"
  proof -
    have "q + (offset_in_page gpa + i) div PG_SIZE = (unat gpa + i) div 4096"
      unfolding q_def offset_in_page_mod PG_SIZE_def by (metis div_mult_self4 mult.commute add.assoc div_mult_mod_eq zero_neq_numeral)
    also have "\<dots> \<le> e"
      unfolding e_def using assms(3) by (intro div_le_mono) simp
    finally show ?thesis .
  qed
  ultimately show ?thesis
    using uq g by linarith
qed

lemma cached_read_fast:
  assumes inv: "kvm_inv kvm" "slots_disjoint kvm" "slot_ok s" "in_slot (gpa_gfn gpa) s"
    and s: "gfn_to_memslot kvm (gpa_gfn gpa) = Some s" "flags s AND KVM_MEMSLOT_INVALID = 0"
    and pages: "\<And>i. i < n \<Longrightarrow> unat (gpa_gfn gpa) + (offset_in_page gpa + i) div PG_SIZE < unat (base_gfn s) + unat (npages s)"
    and hva: "hva = gfn_to_hva_memslot s (gpa_gfn gpa) + of_nat (offset_in_page gpa)"
  shows "case rd_bytes (umem kvm) hva n of
           Inl _ \<Rightarrow> fst (read_segments kvm (gpa_gfn gpa) (offset_in_page gpa) n) = - EFAULT
         | Inr bs \<Rightarrow> read_segments kvm (gpa_gfn gpa) (offset_in_page gpa) n = (0, bs)"
proof -
  have b: "guest_byte kvm (gpa_gfn gpa) (offset_in_page gpa + i) = umem kvm (hva + of_nat i)" if "i < n" for i
    using guest_byte_slot [OF inv(1,2) s pages [OF that]] by (simp add: hva ac_simps)
  show ?thesis
    using read_segments_bytes [OF offset_in_page_less, of n kvm "gpa_gfn gpa" gpa] b
    by (simp add: rd_bytes_map cong: map_cong)
qed

section \<open>Properties\<close>

text \<open>Reachable states: memory regions are set, guest memory is written and cleared.\<close>

inductive kvm_reach :: "kvm \<Rightarrow> bool" where
  reach_init: "kvm_reach \<lparr>kvm_slots = kvm_init_memslots_id, umem = m\<rparr>"
| reach_region: "kvm_reach kvm \<Longrightarrow> env_ok env \<Longrightarrow> kvm_reach (snd (kvm_set_memory_region env kvm mem))"
| reach_ioctl: "kvm_reach kvm \<Longrightarrow> env_ok env \<Longrightarrow> kvm_reach (snd (kvm_vm_ioctl_set_memory_region env kvm mem))"
| reach_write: "kvm_reach kvm \<Longrightarrow> kvm_reach (snd (kvm_write_guest kvm gpa bs))"
| reach_clear: "kvm_reach kvm \<Longrightarrow> kvm_reach (snd (kvm_clear_guest kvm gpa len))"
| reach_cached: "kvm_reach kvm \<Longrightarrow> kvm_write_guest_cached kvm ghc bs = Some (Inr ((r, kvm'), ghc')) \<Longrightarrow> kvm_reach kvm'"

lemma kvm_inv_cached:
  "kvm_inv kvm \<Longrightarrow> kvm_write_guest_cached kvm ghc bs = Some (Inr ((r, kvm'), ghc')) \<Longrightarrow> kvm_inv kvm'"
  using kvm_inv_write [of kvm _ bs] kvm_inv_mark_in_slot
  by (auto simp: kvm_write_guest_cached_def split: if_splits option.splits prod.splits) (metis snd_conv)+

text \<open>
  C4. In every state the VM can reach the slot table is consistent: identifiers and index agree,
  slots are sorted by size, no two user slots overlap, no slot wraps around the end of guest
  memory, host addresses are user addresses, and bitmaps cover their slots.
\<close>

theorem kvm_reach_inv: "kvm_reach kvm \<Longrightarrow> kvm_inv kvm"
proof (induction rule: kvm_reach.induct)
  case (reach_cached kvm ghc bs r kvm' ghc')
  then show ?case by (blast intro: kvm_inv_cached)
qed (simp_all add: kvm_initial_inv set_memory_region_inv kvm_vm_ioctl_set_memory_region_def kvm_inv_write
    kvm_clear_guest_def clear_is_write offset_in_page_less kvm_inv_write_segments)

text \<open>
  C12. \<open>kvm_read_guest\<close>, which copies segment by segment, agrees with reading each byte through the
  slot of its own page: it succeeds exactly when all bytes are mapped, and returns those bytes.
\<close>

theorem kvm_read_guest_bytewise:
  "if \<forall>i<unat len. guest_byte kvm (gpa_gfn gpa) (offset_in_page gpa + i) \<noteq> None
   then kvm_read_guest kvm gpa len =
          (0, map (\<lambda>i. the (guest_byte kvm (gpa_gfn gpa) (offset_in_page gpa + i))) [0..<unat len])
   else fst (kvm_read_guest kvm gpa len) = - EFAULT"
  unfolding kvm_read_guest_def by (rule read_segments_bytes [OF offset_in_page_less])

lemma write_then_read:
  assumes "kvm_inv kvm" "pages_apart kvm (gpa_gfn gpa) (offset_in_page gpa + length bs)"
    and "length bs < 2 ^ 64" "kvm_write_guest kvm gpa bs = (0, kvm')"
  shows "kvm_read_guest kvm' gpa (of_nat (length bs)) = (0, bs)"
proof -
  have "written kvm kvm' (gpa_gfn gpa) (offset_in_page gpa) bs"
    using assms by (intro write_segments_written) (simp_all add: kvm_write_guest_def offset_in_page_less kvm_inv_aligned)
  then have b: "guest_byte kvm' (gpa_gfn gpa) (offset_in_page gpa + i) = Some (bs ! i)" if "i < length bs" for i
    using that by (simp add: written_def)
  have "map (\<lambda>i. the (guest_byte kvm' (gpa_gfn gpa) (offset_in_page gpa + i))) [0..<length bs] = bs"
    by (rule nth_equalityI) (simp_all add: b)
  moreover have "unat (of_nat (length bs) :: u64) = length bs"
    using assms(3) by (simp add: unat_of_nat)
  ultimately show ?thesis
    using read_segments_bytes [OF offset_in_page_less, of "length bs" kvm' "gpa_gfn gpa" gpa] b
    by (simp add: kvm_read_guest_def)
qed

text \<open>
  C10. Bytes written to guest memory are read back, when the pages of the range are mapped to
  different host pages.
\<close>

theorem kvm_write_read_guest:
  assumes "kvm_inv kvm" "pages_apart kvm (gpa_gfn gpa) (offset_in_page gpa + length bs)"
    and "length bs < 2 ^ 64" "kvm_write_guest kvm gpa bs = (0, kvm')"
  shows "kvm_read_guest kvm' gpa (of_nat (length bs)) = (0, bs)"
  using assms by (rule write_then_read)

text \<open>
  C21. After a successful write every touched page of a slot with dirty logging is marked dirty,
  and no write, successful or not, clears a mark.
\<close>

theorem kvm_write_marks_dirty:
  assumes "kvm_inv kvm" "kvm_write_guest kvm gpa bs = (r, kvm')"
  shows "(page_dirty kvm g \<longrightarrow> page_dirty kvm' g) \<and>
         (r = 0 \<and> bs \<noteq> [] \<and> p * PG_SIZE < offset_in_page gpa + length bs \<and> page_logged kvm (gpa_gfn gpa + of_nat p) \<longrightarrow>
            page_dirty kvm' (gpa_gfn gpa + of_nat p))"
  using write_segments_monotone [OF assms(1), of g "gpa_gfn gpa" "offset_in_page gpa" bs]
    write_segments_marks [OF offset_in_page_less assms(1), of "gpa_gfn gpa" gpa bs kvm' p] assms(2)
  by (auto simp: kvm_write_guest_def)

text \<open>
  Setting up an address cache returns, in every consistent state and for every region: the
  loop over the slots of the region ends.
\<close>

theorem cache_init_returns:
  assumes "kvm_inv kvm"
  shows "\<exists>ret ghc. kvm_gfn_to_hva_cache_init kvm gpa len = Some (ret, ghc)"
proof -
  obtain r where "verify_pages kvm (gpa_gfn gpa) (gpa_gfn (gpa + len - 1))
      (0, map_option slot_id (gfn_to_memslot kvm (gpa_gfn gpa)),
       fst (gfn_to_hva_many (gfn_to_memslot kvm (gpa_gfn gpa)) (gpa_gfn gpa) True)) = Some r"
    using verify_pages_returns [OF assms] by blast
  then show ?thesis
    by (cases r) (simp add: kvm_gfn_to_hva_cache_init_def Let_def)
qed

text \<open>
  C20. A read through a cache that was set up successfully in the same state returns what
  \<open>kvm_read_guest\<close> returns, when no two slots overlap.
\<close>

theorem cached_read_equiv:
  assumes "kvm_inv kvm" "slots_disjoint kvm" "1 \<le> unat glen" "unat gpa + unat glen \<le> 2 ^ 64" "len \<le> glen"
    and init: "kvm_gfn_to_hva_cache_init kvm gpa glen = Some (0, ghc)"
  shows "\<exists>ret bs. kvm_read_guest_cached kvm ghc len = Some (Inr ((ret, bs), ghc)) \<and>
           ret = fst (kvm_read_guest kvm gpa len) \<and> (ret = 0 \<longrightarrow> bs = snd (kvm_read_guest kvm gpa len))"
proof (cases "ghc_memslot ghc")
  case None
  have "ghc_gpa ghc = gpa" "ghc_len ghc = glen" "ghc_generation ghc = generation (kvm_slots kvm)"
    using init by (auto simp: kvm_gfn_to_hva_cache_init_def Let_def split: if_splits option.splits)
  then show ?thesis
    using None assms(5) by (simp add: kvm_read_guest_cached_def refresh_cache_def prod_eq_iff not_less)
next
  case (Some i)
  obtain s where s: "gfn_to_memslot kvm (gpa_gfn gpa) = Some s" "flags s AND KVM_MEMSLOT_INVALID = 0"
      and hva: "ghc_hva ghc = gfn_to_hva_memslot s (gpa_gfn gpa) + of_nat (offset_in_page gpa)"
      and needed: "gpa_gfn (gpa + glen - 1) - gpa_gfn gpa + 1 \<le> npages s - (gpa_gfn gpa - base_gfn s)"
      and ghc: "ghc_len ghc = glen" "ghc_generation ghc = generation (kvm_slots kvm)"
    using init Some
    by (auto simp: kvm_gfn_to_hva_cache_init_def Let_def gfn_to_hva_many_def split: if_splits option.splits)
  have sm: "slot_ok s" "in_slot (gpa_gfn gpa) s"
    using gfn_to_memslot_SomeD [OF s(1)] kvm_inv_slot_ok [OF assms(1)] by auto
  have "unat (ghc_hva ghc) < 2 ^ 47"
    using unat_hva_memslot(2) [OF sm] offset_in_page_less [of gpa] unfolding hva
    by (subst unat_add_small_u64) (simp_all add: unat_of_nat PG_SIZE_def)
  then have e: "\<not> kvm_is_error_hva (ghc_hva ghc)"
    by (rule user_hva_ok)
  have "case rd_bytes (umem kvm) (ghc_hva ghc) (unat len) of
           Inl _ \<Rightarrow> fst (kvm_read_guest kvm gpa len) = - EFAULT
         | Inr bs \<Rightarrow> kvm_read_guest kvm gpa len = (0, bs)"
    unfolding kvm_read_guest_def
    by (rule cached_read_fast [OF assms(1,2) sm s cache_fast_pages [OF assms(3,4) _ sm needed] hva])
      (use assms(5) in \<open>simp add: word_le_nat_alt\<close>)
  then show ?thesis
    using Some e ghc assms(5)
    by (auto simp: kvm_read_guest_cached_def refresh_cache_def EFAULT_def not_less split: sum.splits)
qed

section \<open>Witnesses\<close>

text \<open>The VM with one region of two pages, backed by zeros.\<close>

definition sample_ram_kvm :: kvm where
  "sample_ram_kvm = sample_kvm\<lparr>umem := (\<lambda>a. if 0x10000 \<le> a \<and> a < 0x12000 then Some 0 else None)\<rparr>"

lemma sample_slots [simp]: "kvm_slots sample_ram_kvm = kvm_slots sample_kvm"
  by (simp add: sample_ram_kvm_def)

lemma sample_umem: "umem sample_ram_kvm a = (if 0x10000 \<le> a \<and> a < 0x12000 then Some 0 else None)"
  by (simp add: sample_ram_kvm_def)

lemma sample_ram_inv: "kvm_inv sample_ram_kvm"
  by (simp add: sample_ram_kvm_def sample_kvm_inv)

lemma sample_other_slots:
  assumes "s \<in> set (memslots (kvm_slots sample_kvm))" "slot_id s \<noteq> 2"
  shows "slot_range s = {}"
proof -
  have t: "table_ok (kvm_slots sample_kvm)"
    using sample_kvm_inv by (simp add: kvm_inv_def)
  have i: "slot_id s < KVM_MEM_SLOTS_NUM"
    by (rule table_ok_id [OF t assms(1)])
  have "id_to_memslot (kvm_slots sample_kvm) (slot_id s) = empty_slot (slot_id s)"
    using set_memory_region_0 [OF host_env_ok new_kvm_inv host_env_mmap sample_kvm_ret i] assms(2)
    by (simp add: region0_def new_kvm_def id_to_memslot_new [OF i])
  then have "s = empty_slot (slot_id s)"
    by (simp only: id_to_memslot_of [OF t assms(1)])
  then have "npages s = 0"
    by (metis empty_slot_def kvm_memory_slot.select_convs(2))
  then show ?thesis by (simp add: slot_range_def)
qed

lemma sample_disjoint: "slots_disjoint sample_ram_kvm"
  unfolding slots_disjoint_def using sample_other_slots by (metis sample_slots inf_bot_left inf_bot_right)

lemma sample_lookup:
  assumes "gfn = 0x100 \<or> gfn = 0x101"
  shows "gfn_to_memslot sample_ram_kvm gfn = Some (id_to_memslot (kvm_slots sample_kvm) 2)"
  using assms sample_kvm_slot2
  by (intro gfn_to_memslot_unique sample_ram_inv sample_disjoint)
    (auto simp: slot_range_def as_requested_def region0_def Let_def drop_bit_eq_div)

lemma sample_hva: "gfn_to_hva sample_ram_kvm 0x100 = 0x10000" "gfn_to_hva sample_ram_kvm 0x101 = 0x11000"
  using sample_kvm_slot2
  by (simp_all add: gfn_to_hva_def gfn_to_hva_many_def sample_lookup as_requested_def region0_def Let_def
      drop_bit_eq_div slot_consts memslot_is_readonly_def gfn_to_hva_memslot_def)

lemma sample_page0:
  "\<exists>k. kvm_write_guest_page sample_ram_kvm 0x100 [1, 2] 0xffe = (0, k) \<and> same_layout sample_ram_kvm k \<and>
     umem k 0x11000 = Some 0 \<and> umem k 0x11001 = Some 0"
proof -
  let ?k = "mark_page_dirty 0x100 (sample_ram_kvm\<lparr>umem := (umem sample_ram_kvm)(0x10ffe \<mapsto> 1, 0x10fff \<mapsto> 2)\<rparr>)"
  have "kvm_write_guest_page sample_ram_kvm 0x100 [1, 2] 0xffe = (0, ?k)"
    by (simp add: kvm_write_guest_page_def sample_hva kvm_is_error_hva_def KVM_HVA_ERR_BAD_def Let_def sample_umem)
  moreover have "same_layout sample_ram_kvm ?k"
    using same_layout_mark [of "sample_ram_kvm\<lparr>umem := (umem sample_ram_kvm)(0x10ffe \<mapsto> 1, 0x10fff \<mapsto> 2)\<rparr>"] by simp
  ultimately show ?thesis
    by (auto simp: sample_umem)
qed

lemma sample_write: "\<exists>k. kvm_write_guest sample_ram_kvm 0x100ffe [1, 2, 3, 4] = (0, k)"
proof -
  obtain k where k: "kvm_write_guest_page sample_ram_kvm 0x100 [1, 2] 0xffe = (0, k)"
      and l: "same_layout sample_ram_kvm k" and m: "umem k 0x11000 = Some 0" "umem k 0x11001 = Some 0"
    using sample_page0 by blast
  have "fst (kvm_write_guest_page k 0x101 [3, 4] 0) = 0"
    using same_layout_hva(1) [OF l] sample_hva m
    by (simp add: kvm_write_guest_page_def kvm_is_error_hva_def KVM_HVA_ERR_BAD_def Let_def)
  moreover have "kvm_write_guest sample_ram_kvm 0x100ffe [1, 2, 3, 4] = kvm_write_guest_page k 0x101 [3, 4] 0"
    using k by (simp add: kvm_write_guest_def gpa_gfn_def offset_in_page_def drop_bit_eq_div write_segments_more
        write_segments_one PG_SIZE_def)
  ultimately show ?thesis by (metis prod.collapse)
qed

lemma sample_apart: "pages_apart sample_ram_kvm 0x100 (0xffe + 4)"
proof -
  have "{p. p * PG_SIZE < 0xffe + 4} = {0, 1}"
    by (auto simp: PG_SIZE_def)
  then show ?thesis
    using sample_hva by (simp add: pages_apart_def)
qed

theorem kvm_reach_inv_witness: "kvm_reach sample_kvm \<and> kvm_inv sample_kvm"
proof -
  have "kvm_reach sample_kvm"
    unfolding sample_kvm_def new_kvm_def by (intro reach_region reach_init host_env_ok)
  then show ?thesis using kvm_reach_inv by blast
qed

theorem kvm_write_read_guest_witness:
  "\<exists>k. kvm_write_guest sample_ram_kvm 0x100ffe [1, 2, 3, 4] = (0, k) \<and> kvm_read_guest k 0x100ffe 4 = (0, [1, 2, 3, 4])"
proof -
  obtain k where k: "kvm_write_guest sample_ram_kvm 0x100ffe [1, 2, 3, 4] = (0, k)"
    using sample_write by blast
  have "kvm_read_guest k 0x100ffe (of_nat (length [1 :: u8, 2, 3, 4])) = (0, [1, 2, 3, 4])"
    using sample_apart
    by (intro kvm_write_read_guest [OF sample_ram_inv _ _ k]) (simp_all add: gpa_gfn_def offset_in_page_def drop_bit_eq_div)
  then show ?thesis using k by auto
qed

theorem kvm_write_marks_dirty_witness:
  "\<exists>k. kvm_write_guest sample_ram_kvm 0x100ffe [1, 2, 3, 4] = (0, k) \<and> page_dirty k 0x101"
proof -
  obtain k where k: "kvm_write_guest sample_ram_kvm 0x100ffe [1, 2, 3, 4] = (0, k)"
    using sample_write by blast
  have "slot_ok (id_to_memslot (kvm_slots sample_kvm) 2)"
    by (rule kvm_inv_slot_ok [OF sample_kvm_inv sample_kvm_slot2(1)])
  then have "page_logged sample_ram_kvm 0x101"
    using sample_kvm_slot2(2)
    by (auto simp: page_logged_def sample_lookup slot_ok_def as_requested_def region0_def Let_def slot_consts
        drop_bit_eq_div split: option.splits)
  then show ?thesis
    using kvm_write_marks_dirty [OF sample_ram_inv k, of 0 1] k
    by (simp add: gpa_gfn_def offset_in_page_def drop_bit_eq_div PG_SIZE_def)
qed

theorem cache_init_returns_witness:
  "kvm_inv sample_ram_kvm \<and> kvm_gfn_to_hva_cache_init sample_ram_kvm 0x100ffe 4 \<noteq> None"
  using cache_init_returns [OF sample_ram_inv, of "0x100ffe" 4] sample_ram_inv by auto

lemma sample_cache:
  "\<exists>ghc. kvm_gfn_to_hva_cache_init sample_ram_kvm 0x100ffe 4 = Some (0, ghc)"
  using sample_kvm_slot2
  by (simp add: kvm_gfn_to_hva_cache_init_def Let_def gpa_gfn_def drop_bit_eq_div sample_lookup gfn_to_hva_many_def
      as_requested_def region0_def slot_consts memslot_is_readonly_def gfn_to_hva_memslot_def kvm_is_error_hva_def KVM_HVA_ERR_BAD_def)

theorem cached_read_equiv_witness:
  "\<exists>ghc ret bs. kvm_gfn_to_hva_cache_init sample_ram_kvm 0x100ffe 4 = Some (0, ghc) \<and>
     kvm_read_guest_cached sample_ram_kvm ghc 4 = Some (Inr ((ret, bs), ghc)) \<and>
     ret = fst (kvm_read_guest sample_ram_kvm 0x100ffe 4)"
proof -
  obtain ghc where g: "kvm_gfn_to_hva_cache_init sample_ram_kvm 0x100ffe 4 = Some (0, ghc)"
    using sample_cache by blast
  then show ?thesis
    using cached_read_equiv [OF sample_ram_inv sample_disjoint _ _ _ g, of 4] by auto
qed

theorem kvm_read_guest_bytewise_witness: "kvm_read_guest sample_ram_kvm 0x100010 2 = (0, [0, 0])"
proof -
  have "gfn_to_hva_prot sample_ram_kvm 0x100 = 0x10000"
    using sample_hva writable_readable [of sample_ram_kvm "0x100"]
    by (simp add: kvm_is_error_hva_def KVM_HVA_ERR_BAD_def)
  then have b: "guest_byte sample_ram_kvm 0x100 (16 + i) = Some 0" if "i < 2" for i
    using that by (auto simp: less_2_cases_iff guest_byte_def PG_SIZE_def kvm_is_error_hva_def KVM_HVA_ERR_BAD_def sample_umem)
  have "map (\<lambda>i. the (guest_byte sample_ram_kvm 0x100 (16 + i))) [0..<2] = [0, 0]"
    by (rule nth_equalityI) (auto simp: b nth_Cons split: nat.splits)
  moreover have "gpa_gfn 0x100010 = 0x100" "offset_in_page 0x100010 = 16"
    by (simp_all add: gpa_gfn_def offset_in_page_def drop_bit_eq_div)
  ultimately show ?thesis
    using kvm_read_guest_bytewise [of 2 sample_ram_kvm "0x100010"] b by simp
qed

end
