(* ===== verification/KvmCrypto.thy ===== *)
theory KvmCrypto
  imports KvmAccess
begin

text \<open>
  The crypto thread pool of the hypervisor, \<open>x86/kvm_crypto.c\<close> and \<open>x86/kvm_crypto.h\<close>, and the
  hypercall that feeds it, \<open>kvm_emulate_hypercall\<close> of \<open>x86/x86.c\<close>. Jobs live on a heap and are
  linked by \<open>next\<close>; virtual CPUs (producers) and the threads of the pool (consumers) interleave
  at the granularity of the queue's mutex. The block cipher of the kernel, allocations and the
  contents of fresh memory are parameters. Signals, which make a producer stop waiting, are left
  out of the steps. The queue is a first-in-first-out queue (\<open>fifo_queue\<close>), every finished job
  carries the cipher text of its input, and every job can be finished.
\<close>

section \<open>The cipher loops\<close>

definition AES_BLOCK_SIZE :: nat where
  "AES_BLOCK_SIZE = 16"

text \<open>
  One loop for \<open>aes_encrypt\<close> and \<open>aes_decrypt\<close>: the blocks of \<open>data\<close> from index \<open>i\<close> on. A block
  that is not wholly inside the buffer is read past its end.
\<close>

function aes_loop :: "(u8 list \<Rightarrow> u8 list) \<Rightarrow> u8 list \<Rightarrow> int \<Rightarrow> int \<Rightarrow> u8 list res" where
  "aes_loop f data i len =
     (if i < len then
        if length data < AES_BLOCK_SIZE then Inl Overflow
        else bindE (aes_loop f (drop AES_BLOCK_SIZE data) (i + int AES_BLOCK_SIZE) len)
               (\<lambda>r. Inr (f (take AES_BLOCK_SIZE data) @ r))
      else Inr [])"
  by pat_completeness auto

termination
  by (relation "measure (\<lambda>(f, data, i, len). nat (len - i))") (auto simp: AES_BLOCK_SIZE_def)

declare aes_loop.simps [simp del]

definition aes_encrypt :: "(u8 list \<Rightarrow> u8 list) \<Rightarrow> u8 list \<Rightarrow> int \<Rightarrow> u8 list res" where
  "aes_encrypt enc pdata len = aes_loop enc pdata 0 len"

definition aes_decrypt :: "(u8 list \<Rightarrow> u8 list) \<Rightarrow> u8 list \<Rightarrow> int \<Rightarrow> u8 list res" where
  "aes_decrypt dec cdata len = aes_loop dec cdata 0 len"

section \<open>Jobs and the queue\<close>

record vm_job =
  input_gpa :: u64
  output_gpa :: u64
  vj_len :: int
  vj_operation :: int

record crypto_job =
  job_id :: int
  job_kvm :: nat
  j_input :: "u8 list"
  j_output :: "u8 list"
  j_len :: int
  j_operation :: int
  j_status :: int
  j_next :: nat

record crypto_queue =
  cq_head :: nat
  cq_tail :: nat
  cq_num :: int
  cq_stop :: int

record crypto_pool =
  cq :: crypto_queue
  jobs :: "nat \<Rightarrow> crypto_job option"
  global_job_id :: int

definition MAX_JOB_ID :: int where "MAX_JOB_ID = 65536"
definition KVM_ENCRYPTION :: int where "KVM_ENCRYPTION = 0"
definition KVM_DECRYPTION :: int where "KVM_DECRYPTION = 1"
definition KTHREAD_POOL_SIZE :: nat where "KTHREAD_POOL_SIZE = 4"

text \<open>\<open>struct vm_job\<close> in memory: two 64-bit and two 32-bit fields.\<close>

definition decode_vm_job :: "u8 list \<Rightarrow> vm_job" where
  "decode_vm_job bs =
     \<lparr>input_gpa = le_word (take 8 bs), output_gpa = le_word (take 8 (drop 8 bs)),
      vj_len = sint (le_word (take 4 (drop 16 bs)) :: u32), vj_operation = sint (le_word (take 4 (drop 20 bs)) :: u32)\<rparr>"

text \<open>
  \<open>crypto_produce_job\<close> up to the read of the input. \<open>alloc\<close> says which sizes can be allocated and
  \<open>fresh\<close> is what the new \<open>struct vm_job\<close> holds. On the left of the result is a memory error of
  the host (writing to a \<open>NULL\<close> buffer, writing past the structure), then the value returned to
  the guest, or the job and its input.
\<close>

definition produce_read ::
    "(int \<Rightarrow> bool) \<Rightarrow> u8 list \<Rightarrow> kvm \<Rightarrow> u64 \<Rightarrow> int \<Rightarrow> (int + vm_job \<times> u8 list) res" where
  "produce_read alloc fresh kvm vjob_gpa vjob_len =
     (if \<not> alloc 24 then Inr (Inl 1)
      else case kvm_read_guest kvm vjob_gpa (word_of_int vjob_len) of
        (ret, bs) \<Rightarrow>
          if 24 < length bs then Inl Overflow
          else if ret \<noteq> 0 then Inr (Inl 1)
          else let vjob = decode_vm_job (bs @ drop (length bs) fresh)
            in if vj_len vjob < 0 \<or> \<not> alloc (vj_len vjob) then Inl Fault
               else case kvm_read_guest kvm (input_gpa vjob) (word_of_int (vj_len vjob)) of
                 (ret, ibuf) \<Rightarrow> if ret \<noteq> 0 then Inr (Inl 1) else Inr (Inr (vjob, ibuf)))"

text \<open>The new job, and its insertion at the tail under the mutex.\<close>

definition new_job :: "nat \<Rightarrow> vm_job \<Rightarrow> u8 list \<Rightarrow> crypto_pool \<Rightarrow> crypto_job" where
  "new_job vm vjob ibuf pool =
     \<lparr>job_id = (if global_job_id pool > MAX_JOB_ID then 0 else global_job_id pool), job_kvm = vm,
      j_input = ibuf, j_output = replicate (nat (vj_len vjob)) 0, j_len = vj_len vjob,
      j_operation = vj_operation vjob, j_status = 0, j_next = 0\<rparr>"

definition next_job_id :: "int \<Rightarrow> int" where
  "next_job_id i = (if i > MAX_JOB_ID then i else i + 1)"

definition crypto_insert :: "nat \<Rightarrow> crypto_job \<Rightarrow> crypto_pool \<Rightarrow> crypto_pool res" where
  "crypto_insert a j pool =
     (let q = cq pool; heap = (jobs pool)(a \<mapsto> j)
      in if cq_num q = 0
         then Inr (pool\<lparr>jobs := heap, cq := q\<lparr>cq_head := a, cq_tail := a, cq_num := cq_num q + 1\<rparr>\<rparr>)
         else case heap (cq_tail q) of
                None \<Rightarrow> Inl Fault
              | Some t \<Rightarrow> Inr (pool\<lparr>jobs := heap(cq_tail q \<mapsto> t\<lparr>j_next := a\<rparr>),
                                     cq := q\<lparr>cq_tail := a, cq_num := cq_num q + 1\<rparr>\<rparr>))"

definition crypto_submit :: "nat \<Rightarrow> vm_job \<Rightarrow> u8 list \<Rightarrow> nat \<Rightarrow> crypto_pool \<Rightarrow> crypto_pool res" where
  "crypto_submit vm vjob ibuf a pool =
     crypto_insert a (new_job vm vjob ibuf pool) (pool\<lparr>global_job_id := next_job_id (global_job_id pool)\<rparr>)"

text \<open>\<open>crypto_consume_job\<close>: the job at the head, 0 for none, and its processing.\<close>

definition crypto_take :: "crypto_pool \<Rightarrow> (nat \<times> crypto_pool) res" where
  "crypto_take pool =
     (let q = cq pool
      in if 0 < cq_num q then
           case jobs pool (cq_head q) of
             None \<Rightarrow> Inl Fault
           | Some j \<Rightarrow>
               Inr (cq_head q,
                 pool\<lparr>jobs := (jobs pool)(cq_head q \<mapsto> j\<lparr>j_next := 0\<rparr>),
                      cq := q\<lparr>cq_head := j_next j, cq_num := cq_num q - 1,
                              cq_tail := (if cq_num q - 1 = 0 then 0 else cq_tail q)\<rparr>\<rparr>)
         else Inr (0, pool))"

definition crypt :: "(u8 list \<Rightarrow> u8 list) \<Rightarrow> (u8 list \<Rightarrow> u8 list) \<Rightarrow> int \<Rightarrow> u8 list \<Rightarrow> int \<Rightarrow> u8 list \<Rightarrow> u8 list res" where
  "crypt enc dec op input len output =
     (if op = KVM_ENCRYPTION then aes_encrypt enc input len
      else if op = KVM_DECRYPTION then aes_decrypt dec input len
      else Inr output)"

definition crypto_process ::
    "(u8 list \<Rightarrow> u8 list) \<Rightarrow> (u8 list \<Rightarrow> u8 list) \<Rightarrow> nat \<Rightarrow> crypto_pool \<Rightarrow> crypto_pool res" where
  "crypto_process enc dec a pool =
     (case jobs pool a of None \<Rightarrow> Inl Fault
      | Some j \<Rightarrow> bindE (crypt enc dec (j_operation j) (j_input j) (j_len j) (j_output j))
                    (\<lambda>out. Inr (pool\<lparr>jobs := (jobs pool)(a \<mapsto> j\<lparr>j_output := out, j_status := 1\<rparr>)\<rparr>)))"

text \<open>The rest of \<open>crypto_produce_job\<close>, once the job is finished.\<close>

definition produce_finish :: "kvm \<Rightarrow> vm_job \<Rightarrow> nat \<Rightarrow> crypto_pool \<Rightarrow> (int \<times> kvm \<times> crypto_pool) res" where
  "produce_finish kvm vjob a pool =
     (case jobs pool a of None \<Rightarrow> Inl Fault
      | Some j \<Rightarrow> (case kvm_write_guest kvm (output_gpa vjob) (j_output j) of
          (ret, kvm') \<Rightarrow> Inr (if ret \<noteq> 0 then 1 else 0, kvm', pool\<lparr>jobs := (jobs pool)(a := None)\<rparr>)))"

definition crypto_pool_initialization :: crypto_pool where
  "crypto_pool_initialization =
     \<lparr>cq = \<lparr>cq_head = 0, cq_tail = 0, cq_num = 0, cq_stop = 0\<rparr>, jobs = Map.empty, global_job_id = 0\<rparr>"

text \<open>Freeing the pending jobs; \<open>n\<close> bounds the rounds.\<close>

fun free_jobs :: "nat \<Rightarrow> nat \<Rightarrow> (nat \<Rightarrow> crypto_job option) \<Rightarrow> (nat \<Rightarrow> crypto_job option) res" where
  "free_jobs n p heap =
     (if p = 0 then Inr heap
      else case n of 0 \<Rightarrow> Inl NoFuel
        | Suc m \<Rightarrow> (case heap p of None \<Rightarrow> Inl Fault | Some j \<Rightarrow> free_jobs m (j_next j) (heap(p := None))))"

declare free_jobs.simps [simp del]

definition crypto_pool_reclaim :: "nat \<Rightarrow> crypto_pool \<Rightarrow> crypto_pool res" where
  "crypto_pool_reclaim n pool =
     bindE (free_jobs n (cq_head (cq pool)) (jobs pool))
       (\<lambda>heap. Inr (pool\<lparr>jobs := heap, cq := \<lparr>cq_head = 0, cq_tail = 0, cq_num = 0, cq_stop = 1\<rparr>\<rparr>))"

section \<open>The hypercall\<close>

record hc_regs =
  rax :: u64
  rbx :: u64
  rcx :: u64

definition KVM_HC_VAPIC_POLL_IRQ :: u64 where "KVM_HC_VAPIC_POLL_IRQ = 1"
definition KVM_HC_KICK_CPU :: u64 where "KVM_HC_KICK_CPU = 5"
definition KVM_HC_CRYPTO :: u64 where "KVM_HC_CRYPTO = 15"
definition KVM_EPERM :: u64 where "KVM_EPERM = 1"
definition KVM_ENOSYS :: u64 where "KVM_ENOSYS = 1000"

datatype hypercall = HcHyperV | HcReturn u64 | HcKick u64 u64 | HcCrypto u64 int

text \<open>Which action a hypercall starts, with its arguments; \<open>vjob_len\<close> is an \<open>int\<close>.\<close>

definition kvm_emulate_hypercall :: "bool \<Rightarrow> bool \<Rightarrow> nat \<Rightarrow> hc_regs \<Rightarrow> hypercall" where
  "kvm_emulate_hypercall hv_enabled long_mode cpl regs =
     (if hv_enabled then HcHyperV
      else let cut = (\<lambda>x. if long_mode then x else x AND 0xFFFFFFFF);
               nr = cut (rax regs); a0 = cut (rbx regs); a1 = cut (rcx regs)
      in if cpl \<noteq> 0 then HcReturn (- KVM_EPERM)
         else if nr = KVM_HC_VAPIC_POLL_IRQ then HcReturn 0
         else if nr = KVM_HC_KICK_CPU then HcKick a0 a1
         else if nr = KVM_HC_CRYPTO then HcCrypto a0 (sint (ucast a1 :: u32))
         else HcReturn (- KVM_ENOSYS))"

section \<open>Producers and consumers\<close>

datatype producer =
    PIdle
  | PReady nat vm_job "u8 list"
  | PWait nat vm_job "u8 list" nat
  | PRet int

datatype worker = WWait | WWork nat | WLoop | WExit

record crypto_sys =
  cpool :: crypto_pool
  vms :: "nat \<Rightarrow> kvm"
  prods :: "nat \<Rightarrow> producer"
  workers :: "nat \<Rightarrow> worker"

inductive crypto_step :: "(u8 list \<Rightarrow> u8 list) \<Rightarrow> (u8 list \<Rightarrow> u8 list) \<Rightarrow> crypto_sys \<Rightarrow> crypto_sys \<Rightarrow> bool"
  for enc dec where
  step_guest: "crypto_step enc dec s (s\<lparr>vms := (vms s)(vm := k)\<rparr>)"
| step_call: "prods s p = PIdle \<Longrightarrow> kvm_emulate_hypercall hv lm cpl regs = HcCrypto gpa len \<Longrightarrow>
    produce_read alloc fresh (vms s vm) gpa len = Inr (Inr (vjob, ibuf)) \<Longrightarrow>
    crypto_step enc dec s (s\<lparr>prods := (prods s)(p := PReady vm vjob ibuf)\<rparr>)"
| step_call_error: "prods s p = PIdle \<Longrightarrow> kvm_emulate_hypercall hv lm cpl regs = HcCrypto gpa len \<Longrightarrow>
    produce_read alloc fresh (vms s vm) gpa len = Inr (Inl r) \<Longrightarrow>
    crypto_step enc dec s (s\<lparr>prods := (prods s)(p := PRet r)\<rparr>)"
| step_submit: "prods s p = PReady vm vjob ibuf \<Longrightarrow> a \<noteq> 0 \<Longrightarrow> jobs (cpool s) a = None \<Longrightarrow>
    crypto_submit vm vjob ibuf a (cpool s) = Inr pool' \<Longrightarrow>
    crypto_step enc dec s (s\<lparr>cpool := pool', prods := (prods s)(p := PWait vm vjob ibuf a)\<rparr>)"
| step_take: "w < KTHREAD_POOL_SIZE \<Longrightarrow> workers s w = WWait \<Longrightarrow> 0 < cq_num (cq (cpool s)) \<or> cq_stop (cq (cpool s)) = 1 \<Longrightarrow>
    crypto_take (cpool s) = Inr (a, pool') \<Longrightarrow>
    crypto_step enc dec s (s\<lparr>cpool := pool', workers := (workers s)(w := (if a = 0 then WLoop else WWork a))\<rparr>)"
| step_process: "workers s w = WWork a \<Longrightarrow> crypto_process enc dec a (cpool s) = Inr pool' \<Longrightarrow>
    crypto_step enc dec s (s\<lparr>cpool := pool', workers := (workers s)(w := WLoop)\<rparr>)"
| step_loop: "workers s w = WLoop \<Longrightarrow>
    crypto_step enc dec s (s\<lparr>workers := (workers s)(w := (if cq_stop (cq (cpool s)) \<noteq> 1 then WWait else WExit))\<rparr>)"
| step_finish: "prods s p = PWait vm vjob ibuf a \<Longrightarrow> jobs (cpool s) a = Some j \<Longrightarrow> j_status j = 1 \<Longrightarrow>
    produce_finish (vms s vm) vjob a (cpool s) = Inr (r, k, pool') \<Longrightarrow>
    crypto_step enc dec s (s\<lparr>cpool := pool', vms := (vms s)(vm := k), prods := (prods s)(p := PRet r)\<rparr>)"
| step_return: "prods s p = PRet r \<Longrightarrow> crypto_step enc dec s (s\<lparr>prods := (prods s)(p := PIdle)\<rparr>)"

definition crypto_init :: "(nat \<Rightarrow> kvm) \<Rightarrow> crypto_sys" where
  "crypto_init k = \<lparr>cpool = crypto_pool_initialization, vms = k, prods = (\<lambda>_. PIdle), workers = (\<lambda>_. WWait)\<rparr>"

inductive crypto_reach :: "(u8 list \<Rightarrow> u8 list) \<Rightarrow> (u8 list \<Rightarrow> u8 list) \<Rightarrow> crypto_sys \<Rightarrow> bool"
  for enc dec where
  crypto_start: "crypto_reach enc dec (crypto_init k)"
| crypto_next: "crypto_reach enc dec s \<Longrightarrow> crypto_step enc dec s s' \<Longrightarrow> crypto_reach enc dec s'"

section \<open>The queue is first-in, first-out\<close>

text \<open>
  What the pool relies on: a state \<open>s\<close> represents the list of waiting jobs, insertion appends to
  it and removal takes from its front.
\<close>

locale fifo_queue =
  fixes repr :: "'s \<Rightarrow> 'a list \<Rightarrow> bool"
    and fresh :: "'a \<Rightarrow> 's \<Rightarrow> bool"
    and enq :: "'a \<Rightarrow> 'b \<Rightarrow> 's \<Rightarrow> 's res"
    and deq :: "'s \<Rightarrow> ('a \<times> 's) res"
    and none :: 'a
  assumes enq_repr: "repr s xs \<Longrightarrow> fresh a s \<Longrightarrow> \<exists>s'. enq a j s = Inr s' \<and> repr s' (xs @ [a])"
    and deq_Nil: "repr s [] \<Longrightarrow> deq s = Inr (none, s)"
    and deq_Cons: "repr s (x # xs) \<Longrightarrow> \<exists>s'. deq s = Inr (x, s') \<and> repr s' xs \<and> x \<noteq> none"
begin

primrec drain :: "nat \<Rightarrow> 's \<Rightarrow> ('a list \<times> 's) res" where
  "drain 0 s = Inr ([], s)"
| "drain (Suc n) s = bindE (deq s) (\<lambda>(x, s'). bindE (drain n s') (\<lambda>(xs, t). Inr (x # xs, t)))"

lemma drain_repr: "repr s (xs @ ys) \<Longrightarrow> \<exists>t. drain (length xs) s = Inr (xs, t) \<and> repr t ys"
proof (induction xs arbitrary: s)
  case Nil
  then show ?case by simp
next
  case (Cons x xs)
  obtain s' where s': "deq s = Inr (x, s')" "repr s' (xs @ ys)"
    using deq_Cons [of s x "xs @ ys"] Cons.prems by auto
  obtain t where "drain (length xs) s' = Inr (xs, t)" "repr t ys"
    using Cons.IH [OF s'(2)] by blast
  then show ?case using s'(1) by simp
qed

lemma enq_drain:
  assumes "repr s xs" "fresh a s"
  shows "\<exists>s' t. enq a j s = Inr s' \<and> drain (length xs + 1) s' = Inr (xs @ [a], t) \<and> repr t []"
proof -
  obtain s' where s': "enq a j s = Inr s'" "repr s' (xs @ [a])"
    using enq_repr [OF assms] by blast
  then obtain t where "drain (length (xs @ [a])) s' = Inr (xs @ [a], t)" "repr t []"
    using drain_repr [of s' "xs @ [a]" "[]"] by auto
  then show ?thesis using s'(1) by auto
qed

end

text \<open>The chain of jobs from a pointer on.\<close>

primrec job_list :: "(nat \<Rightarrow> crypto_job option) \<Rightarrow> nat \<Rightarrow> nat list \<Rightarrow> bool" where
  "job_list heap p [] \<longleftrightarrow> p = 0"
| "job_list heap p (x # xs) \<longleftrightarrow> p = x \<and> x \<noteq> 0 \<and> (\<exists>j. heap x = Some j \<and> job_list heap (j_next j) xs)"

definition queue_repr :: "crypto_pool \<Rightarrow> nat list \<Rightarrow> bool" where
  "queue_repr pool xs \<longleftrightarrow>
     job_list (jobs pool) (cq_head (cq pool)) xs \<and> distinct xs \<and> cq_num (cq pool) = int (length xs) \<and>
     (xs \<noteq> [] \<longrightarrow> cq_tail (cq pool) = last xs)"

definition free_addr :: "nat \<Rightarrow> crypto_pool \<Rightarrow> bool" where
  "free_addr a pool \<longleftrightarrow> a \<noteq> 0 \<and> jobs pool a = None"

lemma job_list_cong:
  "(\<And>x. x \<in> set xs \<Longrightarrow> map_option j_next (heap' x) = map_option j_next (heap x)) \<Longrightarrow>
     job_list heap' p xs = job_list heap p xs"
proof (induction xs arbitrary: p)
  case (Cons a xs)
  have "map_option j_next (heap' a) = map_option j_next (heap a)"
    using Cons.prems by simp
  then show ?case
    using Cons by (cases "heap a"; cases "heap' a") auto
qed simp

lemma job_list_dom: "job_list heap p xs \<Longrightarrow> x \<in> set xs \<Longrightarrow> x \<noteq> 0 \<and> (\<exists>j. heap x = Some j)"
  by (induction xs arbitrary: p) auto

lemma job_list_snoc:
  "job_list heap p xs \<Longrightarrow> xs \<noteq> [] \<Longrightarrow> distinct xs \<Longrightarrow> heap (last xs) = Some t \<Longrightarrow> a \<noteq> 0 \<Longrightarrow> heap a = None \<Longrightarrow>
     j_next j = 0 \<Longrightarrow> job_list (heap(a \<mapsto> j, last xs \<mapsto> t\<lparr>j_next := a\<rparr>)) p (xs @ [a])"
proof (induction xs arbitrary: p)
  case (Cons x xs)
  show ?case
  proof (cases "xs = []")
    case True
    then show ?thesis using Cons.prems by auto
  next
    case False
    obtain jx where jx: "heap x = Some jx" "job_list heap (j_next jx) xs"
      using Cons.prems by auto
    have "x \<noteq> last xs" "x \<noteq> a"
      using False Cons.prems(3,6) jx(1) by auto
    then show ?thesis
      using Cons.IH [OF jx(2) False] Cons.prems False jx by simp
  qed
qed simp

lemma crypto_insert_repr:
  assumes r: "queue_repr pool xs" and a: "free_addr a pool" and j: "j_next j = 0"
  shows "\<exists>pool'. crypto_insert a j pool = Inr pool' \<and> queue_repr pool' (xs @ [a])"
proof (cases "xs = []")
  case True
  then show ?thesis
    using assms by (auto simp: crypto_insert_def Let_def queue_repr_def free_addr_def)
next
  case False
  then obtain t where t: "jobs pool (last xs) = Some t"
    using r job_list_dom [of "jobs pool" _ xs "last xs"] by (auto simp: queue_repr_def)
  have na: "a \<notin> set xs" "a \<noteq> last xs"
    using r a job_list_dom t by (fastforce simp: queue_repr_def free_addr_def)+
  show ?thesis
    using assms False t na job_list_snoc [of "jobs pool" "cq_head (cq pool)" xs t a j]
    by (auto simp: crypto_insert_def Let_def queue_repr_def free_addr_def)
qed

lemma crypto_take_repr:
  assumes "queue_repr pool (x # xs)"
  shows "\<exists>pool'. crypto_take pool = Inr (x, pool') \<and> queue_repr pool' xs \<and> x \<noteq> 0"
proof -
  obtain j where j: "jobs pool x = Some j" "job_list (jobs pool) (j_next j) xs" "cq_head (cq pool) = x" "x \<noteq> 0" "x \<notin> set xs"
    using assms by (auto simp: queue_repr_def)
  then have "job_list ((jobs pool)(x \<mapsto> j\<lparr>j_next := 0\<rparr>)) (j_next j) xs"
    by (subst job_list_cong [where heap = "jobs pool"]) auto
  then show ?thesis
    using assms j by (auto simp: crypto_take_def Let_def queue_repr_def)
qed

definition insert_new :: "nat \<Rightarrow> nat \<times> vm_job \<times> u8 list \<Rightarrow> crypto_pool \<Rightarrow> crypto_pool res" where
  "insert_new a = (\<lambda>(vm, vjob, ibuf). crypto_submit vm vjob ibuf a)"

interpretation cqueue: fifo_queue queue_repr free_addr insert_new crypto_take 0
proof
  fix s xs a and j :: "nat \<times> vm_job \<times> u8 list"
  assume "queue_repr s xs" "free_addr a s"
  then show "\<exists>s'. insert_new a j s = Inr s' \<and> queue_repr s' (xs @ [a])"
    using crypto_insert_repr [of "s\<lparr>global_job_id := next_job_id (global_job_id s)\<rparr>" xs a]
    by (auto simp: insert_new_def crypto_submit_def new_job_def queue_repr_def free_addr_def split: prod.splits)
next
  fix s x xs
  assume "queue_repr s (x # xs)"
  then show "\<exists>s'. crypto_take s = Inr (x, s') \<and> queue_repr s' xs \<and> x \<noteq> 0"
    by (rule crypto_take_repr)
qed (simp add: queue_repr_def crypto_take_def)

section \<open>The cipher block by block\<close>

text \<open>The reference: the buffer cut into blocks.\<close>

function blocks :: "'a list \<Rightarrow> 'a list list" where
  "blocks xs = (if xs = [] then [] else take AES_BLOCK_SIZE xs # blocks (drop AES_BLOCK_SIZE xs))"
  by pat_completeness auto

termination
  by (relation "measure length") (auto simp: AES_BLOCK_SIZE_def)

declare blocks.simps [simp del]

lemma blocks_Nil [simp]: "blocks [] = []"
  by (simp add: blocks.simps)

lemma blocks_append: "length b = AES_BLOCK_SIZE \<Longrightarrow> blocks (b @ xs) = b # blocks xs"
  by (subst blocks.simps) (auto simp: AES_BLOCK_SIZE_def)

lemma aligned_cases:
  assumes "AES_BLOCK_SIZE dvd length xs"
  obtains (empty) "xs = []" | (block) b ys where "xs = b @ ys" "length b = AES_BLOCK_SIZE" "AES_BLOCK_SIZE dvd length ys"
proof (cases "xs = []")
  case False
  then have "AES_BLOCK_SIZE \<le> length xs"
    using assms by (simp add: dvd_imp_le)
  then show ?thesis
    using that(2) [of "take AES_BLOCK_SIZE xs" "drop AES_BLOCK_SIZE xs"] assms by (simp add: dvd_diff_nat)
qed (use that in simp)

lemma aligned_induct [consumes 1, case_names empty block]:
  assumes "AES_BLOCK_SIZE dvd length xs" "P []"
    and "\<And>b ys. length b = AES_BLOCK_SIZE \<Longrightarrow> AES_BLOCK_SIZE dvd length ys \<Longrightarrow> P ys \<Longrightarrow> P (b @ ys)"
  shows "P xs"
  using assms(1)
proof (induction "length xs" arbitrary: xs rule: less_induct)
  case less
  from less.prems show ?case
  proof (cases rule: aligned_cases)
    case (block b ys)
    then show ?thesis using less.hyps [of ys] assms(3) by (simp add: AES_BLOCK_SIZE_def)
  qed (use assms(2) in simp)
qed

lemma aes_loop_blocks:
  "AES_BLOCK_SIZE dvd length data \<Longrightarrow> len - i = int (length data) \<Longrightarrow>
     aes_loop f data i len = Inr (concat (map f (blocks data)))"
proof (induction data arbitrary: i rule: aligned_induct)
  case empty
  then show ?case by (subst aes_loop.simps) simp
next
  case (block b ys)
  have "aes_loop f ys (i + int AES_BLOCK_SIZE) len = Inr (concat (map f (blocks ys)))"
    using block by (intro block.IH) simp
  then show ?case
    using block.prems block.hyps by (subst aes_loop.simps) (simp add: blocks_append AES_BLOCK_SIZE_def)
qed

lemma aes_loop_unaligned:
  "\<not> AES_BLOCK_SIZE dvd length data \<Longrightarrow> len - i = int (length data) \<Longrightarrow> aes_loop f data i len = Inl Overflow"
proof (induction f data i len rule: aes_loop.induct)
  case (1 f data i len)
  have "i < len"
    using 1(2,3) by (cases data) auto
  moreover have "aes_loop f (drop AES_BLOCK_SIZE data) (i + int AES_BLOCK_SIZE) len = Inl Overflow"
    if "\<not> length data < AES_BLOCK_SIZE"
    using 1 that \<open>i < len\<close> by (intro 1(1)) (auto simp: dvd_minus_self)
  ultimately show ?case by (subst aes_loop.simps) simp
qed

lemma blocks_concat_map:
  "AES_BLOCK_SIZE dvd length data \<Longrightarrow> (\<And>b. length b = AES_BLOCK_SIZE \<Longrightarrow> length (f b) = AES_BLOCK_SIZE) \<Longrightarrow>
     blocks (concat (map f (blocks data))) = map f (blocks data) \<and> length (concat (map f (blocks data))) = length data"
  by (induction data rule: aligned_induct) (simp_all add: blocks_append)

lemma concat_blocks: "AES_BLOCK_SIZE dvd length data \<Longrightarrow> concat (blocks data) = data"
  by (induction data rule: aligned_induct) (simp_all add: blocks_append)

lemma length_blocks_elem: "AES_BLOCK_SIZE dvd length data \<Longrightarrow> b \<in> set (blocks data) \<Longrightarrow> length b = AES_BLOCK_SIZE"
  by (induction data rule: aligned_induct) (auto simp: blocks_append)

section \<open>The pool invariant\<close>

text \<open>The job a producer waits for, and the job a thread works on.\<close>

fun waiting_job :: "producer \<Rightarrow> (nat \<times> vm_job \<times> u8 list \<times> nat) option" where
  "waiting_job (PWait vm vjob ibuf a) = Some (vm, vjob, ibuf, a)"
| "waiting_job _ = None"

fun worker_job :: "worker \<Rightarrow> nat option" where
  "worker_job (WWork a) = Some a"
| "worker_job _ = None"

lemma waiting_job_Some: "waiting_job x = Some (vm, vjob, ibuf, a) \<longleftrightarrow> x = PWait vm vjob ibuf a"
  by (cases x) auto

lemma worker_job_Some: "worker_job x = Some a \<longleftrightarrow> x = WWork a"
  by (cases x) auto

text \<open>A waiting producer's job, unprocessed or finished.\<close>

definition job_ok :: "(u8 list \<Rightarrow> u8 list) \<Rightarrow> (u8 list \<Rightarrow> u8 list) \<Rightarrow> nat \<Rightarrow> vm_job \<Rightarrow> u8 list \<Rightarrow> bool \<Rightarrow> crypto_job \<Rightarrow> bool" where
  "job_ok enc dec vm vjob ibuf open j \<longleftrightarrow>
     job_kvm j = vm \<and> j_input j = ibuf \<and> j_len j = vj_len vjob \<and> j_operation j = vj_operation vjob \<and>
     (if open then j_status j = 0 \<and> j_output j = replicate (nat (vj_len vjob)) 0
      else j_status j = 1 \<and>
        crypt enc dec (vj_operation vjob) ibuf (vj_len vjob) (replicate (nat (vj_len vjob)) 0) = Inr (j_output j))"

lemma job_ok_next [simp]: "job_ok enc dec vm vjob ibuf open (j\<lparr>j_next := n\<rparr>) = job_ok enc dec vm vjob ibuf open j"
  by (simp add: job_ok_def)

definition pending :: "nat list \<Rightarrow> (nat \<Rightarrow> nat option) \<Rightarrow> nat \<Rightarrow> bool" where
  "pending xs R a \<longleftrightarrow> a \<in> set xs \<or> Some a \<in> range R"

text \<open>
  The pool with waiting list \<open>xs\<close>, the jobs \<open>W\<close> producers wait for and the jobs \<open>R\<close> threads work
  on: no job is in two places, every job on the heap has exactly one producer waiting for it.
\<close>

definition pool_inv ::
    "(u8 list \<Rightarrow> u8 list) \<Rightarrow> (u8 list \<Rightarrow> u8 list) \<Rightarrow> nat list \<Rightarrow> crypto_pool \<Rightarrow>
     (nat \<Rightarrow> (nat \<times> vm_job \<times> u8 list \<times> nat) option) \<Rightarrow> (nat \<Rightarrow> nat option) \<Rightarrow> bool" where
  "pool_inv enc dec xs P W R \<longleftrightarrow>
     queue_repr P xs \<and> cq_stop (cq P) = 0 \<and>
     (\<forall>w a. R w = Some a \<longrightarrow> a \<notin> set xs \<and> (\<forall>w'. R w' = Some a \<longrightarrow> w' = w)) \<and>
     (\<forall>a. (pending xs R a \<longrightarrow> jobs P a \<noteq> None) \<and>
          (jobs P a \<noteq> None \<longrightarrow> (\<exists>p vm vjob ibuf. W p = Some (vm, vjob, ibuf, a)))) \<and>
     (\<forall>p vm vjob ibuf a. W p = Some (vm, vjob, ibuf, a) \<longrightarrow>
        a \<noteq> 0 \<and> (\<exists>j. jobs P a = Some j \<and> job_ok enc dec vm vjob ibuf (pending xs R a) j) \<and>
        (\<forall>q vm' vjob' ibuf'. W q = Some (vm', vjob', ibuf', a) \<longrightarrow> q = p))"

definition crypto_inv :: "(u8 list \<Rightarrow> u8 list) \<Rightarrow> (u8 list \<Rightarrow> u8 list) \<Rightarrow> nat list \<Rightarrow> crypto_sys \<Rightarrow> bool" where
  "crypto_inv enc dec xs s \<longleftrightarrow>
     pool_inv enc dec xs (cpool s) (waiting_job \<circ> prods s) (worker_job \<circ> workers s) \<and> (\<forall>w. workers s w \<noteq> WExit)"

lemma pool_invD:
  assumes "pool_inv enc dec xs P W R"
  shows inv_repr: "queue_repr P xs" and inv_stop: "cq_stop (cq P) = 0"
    and inv_work: "R w = Some a \<Longrightarrow> a \<notin> set xs \<and> (\<forall>w'. R w' = Some a \<longrightarrow> w' = w)"
    and inv_pending: "pending xs R a \<Longrightarrow> jobs P a \<noteq> None"
    and inv_alloc: "jobs P a \<noteq> None \<Longrightarrow> \<exists>p vm vjob ibuf. W p = Some (vm, vjob, ibuf, a)"
    and inv_wait: "W p = Some (vm, vjob, ibuf, a) \<Longrightarrow>
        a \<noteq> 0 \<and> (\<exists>j. jobs P a = Some j \<and> job_ok enc dec vm vjob ibuf (pending xs R a) j) \<and>
        (\<forall>q vm' vjob' ibuf'. W q = Some (vm', vjob', ibuf', a) \<longrightarrow> q = p)"
  using assms unfolding pool_inv_def by blast+

lemma pool_invI:
  assumes "queue_repr P xs" "cq_stop (cq P) = 0"
    and "\<And>w a. R w = Some a \<Longrightarrow> a \<notin> set xs \<and> (\<forall>w'. R w' = Some a \<longrightarrow> w' = w)"
    and "\<And>a. pending xs R a \<Longrightarrow> jobs P a \<noteq> None"
    and "\<And>a. jobs P a \<noteq> None \<Longrightarrow> \<exists>p vm vjob ibuf. W p = Some (vm, vjob, ibuf, a)"
    and "\<And>p vm vjob ibuf a. W p = Some (vm, vjob, ibuf, a) \<Longrightarrow>
        a \<noteq> 0 \<and> (\<exists>j. jobs P a = Some j \<and> job_ok enc dec vm vjob ibuf (pending xs R a) j) \<and>
        (\<forall>q vm' vjob' ibuf'. W q = Some (vm', vjob', ibuf', a) \<longrightarrow> q = p)"
  shows "pool_inv enc dec xs P W R"
  using assms unfolding pool_inv_def by blast

lemma crypto_inv_init: "crypto_inv enc dec [] (crypto_init k)"
  by (simp add: crypto_inv_def crypto_init_def crypto_pool_initialization_def queue_repr_def pool_inv_def pending_def)

text \<open>Steps that neither submit, take, process nor finish a job.\<close>

lemma crypto_inv_prods:
  "crypto_inv enc dec xs s \<Longrightarrow> waiting_job (prods s p) = waiting_job v \<Longrightarrow>
     crypto_inv enc dec xs (s\<lparr>prods := (prods s)(p := v)\<rparr>)"
  by (simp add: crypto_inv_def fun_upd_comp fun_upd_idem)

lemma crypto_inv_workers:
  "crypto_inv enc dec xs s \<Longrightarrow> worker_job (workers s w) = worker_job v \<Longrightarrow> v \<noteq> WExit \<Longrightarrow>
     crypto_inv enc dec xs (s\<lparr>workers := (workers s)(w := v)\<rparr>)"
  by (simp add: crypto_inv_def fun_upd_comp fun_upd_idem)

lemma crypto_inv_vms [simp]: "crypto_inv enc dec xs (s\<lparr>vms := v\<rparr>) = crypto_inv enc dec xs s"
  by (simp add: crypto_inv_def)

lemma pool_inv_submit:
  assumes inv: "pool_inv enc dec xs P W R" and a: "a \<noteq> 0" "jobs P a = None" and p: "W p = None"
    and sub: "crypto_submit vm vjob ibuf a P = Inr P'"
  shows "pool_inv enc dec (xs @ [a]) P' (W(p \<mapsto> (vm, vjob, ibuf, a))) R"
proof -
  have "free_addr a P"
    using a by (simp add: free_addr_def)
  then obtain P'' where "insert_new a (vm, vjob, ibuf) P = Inr P'' \<and> queue_repr P'' (xs @ [a])"
    using cqueue.enq_repr [OF inv_repr [OF inv]] by blast
  then have repr: "queue_repr P' (xs @ [a])"
    using sub by (simp add: insert_new_def)
  have na: "a \<notin> set xs" "Some a \<notin> range R"
    using a(2) inv_pending [OF inv, of a] by (auto simp: pending_def)
  have nw: "W q \<noteq> Some (vm', vj', ib', a)" for q vm' vj' ib'
    using inv_wait [OF inv, of q] a(2) by fastforce
  have pend: "pending (xs @ [a]) R b \<longleftrightarrow> pending xs R b \<or> b = a" for b
    by (auto simp: pending_def)
  have new: "\<exists>j. jobs P' a = Some j \<and> job_ok enc dec vm vjob ibuf True j" and stop: "cq_stop (cq P') = cq_stop (cq P)"
      and old: "b \<noteq> a \<Longrightarrow> (jobs P' b = None) = (jobs P b = None) \<and>
        (\<forall>j. jobs P b = Some j \<longrightarrow> (\<exists>n. jobs P' b = Some (j\<lparr>j_next := n\<rparr>)))" for b
    using sub a
    by (auto simp: crypto_submit_def crypto_insert_def Let_def new_job_def job_ok_def split: if_splits option.splits)
      (metis crypto_job.surjective crypto_job.update_convs(8))+
  show ?thesis
  proof (rule pool_invI)
    show "queue_repr P' (xs @ [a])" by (rule repr)
    show "cq_stop (cq P') = 0" using stop inv_stop [OF inv] by simp
    show "b \<notin> set (xs @ [a]) \<and> (\<forall>w'. R w' = Some b \<longrightarrow> w' = w)" if "R w = Some b" for w b
    proof (rule conjI)
      have "b \<noteq> a" using rangeI [of R w] na(2) that by auto
      then show "b \<notin> set (xs @ [a])" using conjunct1 [OF inv_work [OF inv that]] by simp
    qed (rule conjunct2 [OF inv_work [OF inv that]])
    show "jobs P' b \<noteq> None" if "pending (xs @ [a]) R b" for b
      using that inv_pending [OF inv, of b] new old [of b] by (auto simp: pend)
    show "\<exists>q vm' vjob' ibuf'. (W(p \<mapsto> (vm, vjob, ibuf, a))) q = Some (vm', vjob', ibuf', b)" if "jobs P' b \<noteq> None" for b
    proof (cases "b = a")
      case False
      then have "jobs P b \<noteq> None" using that old [of b] by simp
      from inv_alloc [OF inv this] show ?thesis using p by (metis fun_upd_apply option.distinct(1))
    qed (auto intro: exI [of _ p])
  next
    fix q vm' vjob' ibuf' b
    assume q: "(W(p \<mapsto> (vm, vjob, ibuf, a))) q = Some (vm', vjob', ibuf', b)"
    show "b \<noteq> 0 \<and> (\<exists>j. jobs P' b = Some j \<and> job_ok enc dec vm' vjob' ibuf' (pending (xs @ [a]) R b) j) \<and>
        (\<forall>q' vm' vjob' ibuf'. (W(p \<mapsto> (vm, vjob, ibuf, a))) q' = Some (vm', vjob', ibuf', b) \<longrightarrow> q' = q)"
    proof (cases "q = p")
      case True
      then have "b = a" "vm' = vm" "vjob' = vjob" "ibuf' = ibuf"
        using q by auto
      then show ?thesis using a(1) new True nw by (auto simp: pend)
    next
      case False
      then have W: "W q = Some (vm', vjob', ibuf', b)" using q by simp
      then have "b \<noteq> a" using nw by auto
      obtain j n where j: "job_ok enc dec vm' vjob' ibuf' (pending xs R b) j" "jobs P' b = Some (j\<lparr>j_next := n\<rparr>)"
        using inv_wait [OF inv W] old [OF \<open>b \<noteq> a\<close>] by blast
      have "q' = q" if "(W(p \<mapsto> (vm, vjob, ibuf, a))) q' = Some (vm'', vjob'', ibuf'', b)" for q' vm'' vjob'' ibuf''
        using that \<open>b \<noteq> a\<close> inv_wait [OF inv W] by (auto split: if_splits)
      then show ?thesis
        using inv_wait [OF inv W] j \<open>b \<noteq> a\<close> by (simp add: pend)
    qed
  qed
qed

lemma pool_inv_take:
  assumes inv: "pool_inv enc dec xs P W R" and n: "0 < cq_num (cq P) \<or> cq_stop (cq P) = 1" and w: "R w = None"
    and take: "crypto_take P = Inr (a, P')"
  shows "\<exists>ys. xs = a # ys \<and> a \<noteq> 0 \<and> pool_inv enc dec ys P' W (R(w \<mapsto> a))"
proof -
  have "xs \<noteq> []"
    using n inv_stop [OF inv] inv_repr [OF inv] by (auto simp: queue_repr_def)
  then obtain ys where xs: "xs = a # ys" and repr: "queue_repr P' ys" "a \<noteq> 0"
    using cqueue.deq_Cons [of P "hd xs" "tl xs"] inv_repr [OF inv] take by (cases xs) auto
  have d: "distinct xs"
    using inv_repr [OF inv] by (simp add: queue_repr_def)
  have heap: "\<exists>n. jobs P' b = map_option (\<lambda>j. j\<lparr>j_next := n j\<rparr>) (jobs P b)" and stop: "cq_stop (cq P') = cq_stop (cq P)" for b
  proof -
    obtain j where j: "jobs P a = Some j" "jobs P' = (jobs P)(a \<mapsto> j\<lparr>j_next := 0\<rparr>)" "cq_stop (cq P') = cq_stop (cq P)"
      using take repr(2) by (auto simp: crypto_take_def Let_def split: if_splits option.splits)
    then have "jobs P' b = map_option (\<lambda>i. i\<lparr>j_next := if b = a then 0 else j_next i\<rparr>) (jobs P b)"
      by (cases "jobs P b") auto
    then show "\<exists>n. jobs P' b = map_option (\<lambda>j. j\<lparr>j_next := n j\<rparr>) (jobs P b)" "cq_stop (cq P') = cq_stop (cq P)"
      using j by (auto intro: exI [of _ "\<lambda>i. if b = a then 0 else j_next i"])
  qed
  have pend: "pending ys (R(w \<mapsto> a)) b = pending xs R b" for b
    using w unfolding pending_def xs by (auto simp: image_iff) (metis option.distinct(1))+
  have "pool_inv enc dec ys P' W (R(w \<mapsto> a))"
  proof (rule pool_invI)
    show "queue_repr P' ys" by (rule repr(1))
    show "cq_stop (cq P') = 0" using stop inv_stop [OF inv] by simp
    show "b \<notin> set ys \<and> (\<forall>w''. (R(w \<mapsto> a)) w'' = Some b \<longrightarrow> w'' = w')" if "(R(w \<mapsto> a)) w' = Some b" for w' b
    proof (cases "w' = w")
      case True
      then have "b = a" using that by simp
      moreover have "R w'' \<noteq> Some a" for w''
        using inv_work [OF inv, of w'' a] xs by auto
      ultimately show ?thesis using True d xs by auto
    next
      case False
      then have Rb: "R w' = Some b" using that by simp
      have "b \<noteq> a" using inv_work [OF inv Rb] xs by auto
      then show ?thesis using inv_work [OF inv Rb] xs by (metis fun_upd_apply option.inject list.set_intros(2))
    qed
    show "jobs P' b \<noteq> None" if "pending ys (R(w \<mapsto> a)) b" for b
      using that inv_pending [OF inv, of b] heap [of b] by (auto simp: pend)
    show "\<exists>p vm vjob ibuf. W p = Some (vm, vjob, ibuf, b)" if "jobs P' b \<noteq> None" for b
      using that inv_alloc [OF inv, of b] heap [of b] by auto
  next
    fix p vm vjob ibuf b
    assume "W p = Some (vm, vjob, ibuf, b)"
    from inv_wait [OF inv this]
    show "b \<noteq> 0 \<and> (\<exists>j. jobs P' b = Some j \<and> job_ok enc dec vm vjob ibuf (pending ys (R(w \<mapsto> a)) b) j) \<and>
        (\<forall>q vm' vjob' ibuf'. W q = Some (vm', vjob', ibuf', b) \<longrightarrow> q = p)"
      using heap [of b] by (auto simp: pend)
  qed
  then show ?thesis using xs repr(2) by blast
qed

lemma pool_inv_process:
  assumes inv: "pool_inv enc dec xs P W R" and w: "R w = Some a" and proc: "crypto_process enc dec a P = Inr P'"
  shows "pool_inv enc dec xs P' W (R(w := None))"
proof -
  obtain j out where j: "jobs P a = Some j"
      and out: "crypt enc dec (j_operation j) (j_input j) (j_len j) (j_output j) = Inr out"
      and P': "P' = P\<lparr>jobs := (jobs P)(a \<mapsto> j\<lparr>j_output := out, j_status := 1\<rparr>)\<rparr>"
    using proc by (auto simp: crypto_process_def bindE_Inr_iff split: option.splits)
  have na: "a \<notin> set xs" "\<And>w'. R w' = Some a \<Longrightarrow> w' = w"
    using inv_work [OF inv w] by auto
  have "Some b \<in> range (R(w := None)) \<longleftrightarrow> Some b \<in> range R \<and> b \<noteq> a" for b
  proof
    assume "Some b \<in> range (R(w := None))"
    then obtain w' where "w' \<noteq> w" "R w' = Some b"
      by (auto split: if_splits)
    then show "Some b \<in> range R \<and> b \<noteq> a"
      using na(2) by (metis rangeI)
  next
    assume "Some b \<in> range R \<and> b \<noteq> a"
    then obtain w' where "R w' = Some b" "w' \<noteq> w"
      using w by (metis imageE option.inject)
    then show "Some b \<in> range (R(w := None))"
      by (metis fun_upd_apply rangeI)
  qed
  then have pend: "pending xs (R(w := None)) b \<longleftrightarrow> pending xs R b \<and> b \<noteq> a" "pending xs R a" for b
    using na(1) rangeI [of R w] w by (auto simp: pending_def)
  have "job_list (jobs P') h xs = job_list (jobs P) h xs" for h
    using j na(1) by (intro job_list_cong) (auto simp: P')
  then have q: "queue_repr P' xs"
    using inv_repr [OF inv] by (auto simp: queue_repr_def P')
  show ?thesis
  proof (rule pool_invI)
    show "queue_repr P' xs" by (rule q)
    show "cq_stop (cq P') = 0" using inv_stop [OF inv] P' by simp
    show "b \<notin> set xs \<and> (\<forall>w''. (R(w := None)) w'' = Some b \<longrightarrow> w'' = w')" if "(R(w := None)) w' = Some b" for w' b
      using that inv_work [OF inv, of w' b] by (metis fun_upd_apply option.distinct(1))
    show "jobs P' b \<noteq> None" if "pending xs (R(w := None)) b" for b
      using that inv_pending [OF inv, of b] by (auto simp: pend P')
    show "\<exists>p vm vjob ibuf. W p = Some (vm, vjob, ibuf, b)" if "jobs P' b \<noteq> None" for b
      using that inv_alloc [OF inv, of b] j by (auto simp: P' split: if_splits)
  next
    fix p vm vjob ibuf b
    assume "W p = Some (vm, vjob, ibuf, b)"
    from inv_wait [OF inv this]
    show "b \<noteq> 0 \<and> (\<exists>j. jobs P' b = Some j \<and> job_ok enc dec vm vjob ibuf (pending xs (R(w := None)) b) j) \<and>
        (\<forall>q vm' vjob' ibuf'. W q = Some (vm', vjob', ibuf', b) \<longrightarrow> q = p)"
      using j out by (auto simp: pend P' job_ok_def)
  qed
qed

lemma pool_inv_finish:
  assumes inv: "pool_inv enc dec xs P W R" and p: "W p = Some (vm, vjob, ibuf, a)"
    and j: "jobs P a = Some j" "j_status j = 1"
  shows "pool_inv enc dec xs (P\<lparr>jobs := (jobs P)(a := None)\<rparr>) (W(p := None)) R"
proof -
  have np: "\<not> pending xs R a"
    using inv_wait [OF inv p] j by (auto simp: job_ok_def split: if_splits)
  then have jl: "job_list ((jobs P)(a := None)) h xs = job_list (jobs P) h xs" for h
    by (intro job_list_cong) (auto simp: pending_def)
  show ?thesis
  proof (rule pool_invI)
    show "queue_repr (P\<lparr>jobs := (jobs P)(a := None)\<rparr>) xs"
      using inv_repr [OF inv] jl by (auto simp: queue_repr_def)
    show "\<exists>q vm vjob ibuf. (W(p := None)) q = Some (vm, vjob, ibuf, b)" if "jobs (P\<lparr>jobs := (jobs P)(a := None)\<rparr>) b \<noteq> None" for b
      using that inv_alloc [OF inv, of b] p by (auto split: if_splits) (metis option.inject prod.inject)
    show "jobs (P\<lparr>jobs := (jobs P)(a := None)\<rparr>) b \<noteq> None" if "pending xs R b" for b
      using inv_pending [OF inv that] np that by auto
  next
    fix q vm' vjob' ibuf' b
    assume q: "(W(p := None)) q = Some (vm', vjob', ibuf', b)"
    then have "W q = Some (vm', vjob', ibuf', b)" "q \<noteq> p"
      by (auto split: if_splits)
    moreover have "b \<noteq> a"
      using inv_wait [OF inv p] calculation by auto
    ultimately show "b \<noteq> 0 \<and> (\<exists>j. jobs (P\<lparr>jobs := (jobs P)(a := None)\<rparr>) b = Some j \<and> job_ok enc dec vm' vjob' ibuf' (pending xs R b) j) \<and>
        (\<forall>q' vm' vjob' ibuf'. (W(p := None)) q' = Some (vm', vjob', ibuf', b) \<longrightarrow> q' = q)"
      using inv_wait [OF inv, of q] by (auto split: if_splits)
  qed (use inv_work [OF inv] inv_stop [OF inv] in simp_all)
qed

section \<open>Steps of the system\<close>

lemma crypto_inv_take:
  assumes inv: "crypto_inv enc dec xs s" and w: "workers s w = WWait"
    and n: "0 < cq_num (cq (cpool s)) \<or> cq_stop (cq (cpool s)) = 1" and take: "crypto_take (cpool s) = Inr (a, P)"
  shows "\<exists>ys. xs = a # ys \<and> a \<noteq> 0 \<and> crypto_inv enc dec ys (s\<lparr>cpool := P, workers := (workers s)(w := WWork a)\<rparr>)"
proof -
  have "pool_inv enc dec xs (cpool s) (waiting_job \<circ> prods s) (worker_job \<circ> workers s)"
    using inv by (simp add: crypto_inv_def)
  from pool_inv_take [OF this n _ take, of w] show ?thesis
    using w inv by (auto simp: crypto_inv_def fun_upd_comp)
qed

lemma crypto_inv_process:
  assumes "crypto_inv enc dec xs s" "workers s w = WWork a" "crypto_process enc dec a (cpool s) = Inr P"
  shows "crypto_inv enc dec xs (s\<lparr>cpool := P, workers := (workers s)(w := WLoop)\<rparr>)"
  using assms pool_inv_process [of enc dec xs "cpool s" "waiting_job \<circ> prods s" "worker_job \<circ> workers s" w a P]
  by (simp add: crypto_inv_def fun_upd_comp)

lemma crypto_step_inv:
  assumes "crypto_step enc dec s s'" "crypto_inv enc dec xs s"
  shows "\<exists>ys. crypto_inv enc dec ys s'"
  using assms
proof (induction rule: crypto_step.induct)
  case (step_submit s p vm vjob ibuf a pool')
  then have "crypto_inv enc dec (xs @ [a]) (s\<lparr>cpool := pool', prods := (prods s)(p := PWait vm vjob ibuf a)\<rparr>)"
    using pool_inv_submit [of enc dec xs "cpool s" "waiting_job \<circ> prods s" "worker_job \<circ> workers s" a p vm vjob ibuf pool']
    by (simp add: crypto_inv_def fun_upd_comp)
  then show ?case by blast
next
  case (step_take w s a pool')
  from crypto_inv_take [OF step_take.prems step_take(2,3,4)] show ?case by auto
next
  case (step_process s w a pool')
  from crypto_inv_process [OF step_process.prems step_process(1,2)] show ?case by blast
next
  case (step_finish s p vm vjob ibuf a j r k pool')
  have P: "pool' = cpool s\<lparr>jobs := (jobs (cpool s))(a := None)\<rparr>"
    using step_finish(2,4) by (auto simp: produce_finish_def split: prod.splits)
  have "pool_inv enc dec xs pool' ((waiting_job \<circ> prods s)(p := None)) (worker_job \<circ> workers s)"
    unfolding P using step_finish by (intro pool_inv_finish [where j = j]) (auto simp: crypto_inv_def)
  then have "crypto_inv enc dec xs (s\<lparr>cpool := pool', vms := (vms s)(vm := k), prods := (prods s)(p := PRet r)\<rparr>)"
    using step_finish.prems by (simp add: crypto_inv_def fun_upd_comp)
  then show ?case by blast
next
  case (step_loop s w)
  then have "cq_stop (cq (cpool s)) = 0"
    by (auto simp: crypto_inv_def dest: inv_stop)
  then show ?case
    using step_loop crypto_inv_workers [of enc dec xs s w WWait] by auto
qed (auto intro!: exI [of _ xs] crypto_inv_prods)

lemma crypto_reach_inv_ex: "crypto_reach enc dec s \<Longrightarrow> \<exists>xs. crypto_inv enc dec xs s"
proof (induction rule: crypto_reach.induct)
  case (crypto_start k)
  then show ?case using crypto_inv_init by blast
qed (auto dest: crypto_step_inv)

text \<open>Progress: a thread that is free takes the job at the head.\<close>

definition can_process :: "(u8 list \<Rightarrow> u8 list) \<Rightarrow> (u8 list \<Rightarrow> u8 list) \<Rightarrow> crypto_sys \<Rightarrow> bool" where
  "can_process enc dec s \<longleftrightarrow>
     (\<forall>a j. jobs (cpool s) a = Some j \<longrightarrow>
        (\<exists>out. crypt enc dec (j_operation j) (j_input j) (j_len j) (j_output j) = Inr out))"

definition job_finished :: "crypto_sys \<Rightarrow> nat \<Rightarrow> bool" where
  "job_finished s a \<longleftrightarrow> (\<exists>j. jobs (cpool s) a = Some j \<and> j_status j = 1)"

text \<open>The states the pool alone can reach, with the producers where they were.\<close>

definition pool_run :: "(u8 list \<Rightarrow> u8 list) \<Rightarrow> (u8 list \<Rightarrow> u8 list) \<Rightarrow> nat list \<Rightarrow> crypto_sys \<Rightarrow> nat list \<Rightarrow> crypto_sys \<Rightarrow> bool" where
  "pool_run enc dec xs s ys s' \<longleftrightarrow>
     (crypto_step enc dec)\<^sup>*\<^sup>* s s' \<and> prods s' = prods s \<and>
     (crypto_inv enc dec xs s \<longrightarrow> crypto_inv enc dec ys s') \<and> (can_process enc dec s \<longrightarrow> can_process enc dec s')"

lemma pool_run_refl: "pool_run enc dec xs s xs s"
  by (simp add: pool_run_def)

lemma pool_run_trans: "pool_run enc dec xs s ys t \<Longrightarrow> pool_run enc dec ys t zs u \<Longrightarrow> pool_run enc dec xs s zs u"
  by (auto simp: pool_run_def)

lemma pending_iff: "pending xs (worker_job \<circ> workers s) a \<longleftrightarrow> a \<in> set xs \<or> (\<exists>w. workers s w = WWork a)"
  by (simp add: pending_def image_iff eq_commute [of "Some a"] worker_job_Some)

lemma process_run:
  assumes inv: "crypto_inv enc dec xs s" and can: "can_process enc dec s" and w: "workers s w = WWork a"
  shows "\<exists>s'. pool_run enc dec xs s xs s' \<and> job_finished s' a \<and> workers s' w = WLoop"
proof -
  have "pending xs (worker_job \<circ> workers s) a"
    using w by (auto simp: pending_iff)
  then have "jobs (cpool s) a \<noteq> None"
    using inv by (auto simp: crypto_inv_def dest: inv_pending)
  then obtain j where j: "jobs (cpool s) a = Some j" by blast
  then obtain out where out: "crypt enc dec (j_operation j) (j_input j) (j_len j) (j_output j) = Inr out"
    using can by (auto simp: can_process_def)
  define P where "P = cpool s\<lparr>jobs := (jobs (cpool s))(a \<mapsto> j\<lparr>j_output := out, j_status := 1\<rparr>)\<rparr>"
  define s' where "s' = s\<lparr>cpool := P, workers := (workers s)(w := WLoop)\<rparr>"
  have proc: "crypto_process enc dec a (cpool s) = Inr P"
    using j out by (simp add: crypto_process_def P_def)
  have "crypto_step enc dec s s'"
    unfolding s'_def by (rule step_process [OF w proc])
  moreover have "can_process enc dec s'"
    using can out by (auto simp: can_process_def s'_def P_def crypt_def)
  ultimately show ?thesis
    using crypto_inv_process [OF inv w proc]
    by (intro exI [of _ s']) (auto simp: pool_run_def job_finished_def s'_def P_def)
qed

lemma loop_run:
  assumes inv: "crypto_inv enc dec xs s" and w: "workers s w = WLoop"
  shows "\<exists>s'. pool_run enc dec xs s xs s' \<and> cpool s' = cpool s \<and> workers s' w = WWait"
proof -
  define s' where "s' = s\<lparr>workers := (workers s)(w := WWait)\<rparr>"
  have "cq_stop (cq (cpool s)) = 0"
    using inv by (auto simp: crypto_inv_def dest: inv_stop)
  then have "crypto_step enc dec s s'"
    using step_loop [OF w, of enc dec] by (simp add: s'_def)
  then show ?thesis
    using crypto_inv_workers [OF inv, of w WWait] w
    by (intro exI [of _ s']) (auto simp: pool_run_def s'_def can_process_def)
qed

text \<open>A thread becomes free, whatever it is doing.\<close>

lemma free_run:
  assumes inv: "crypto_inv enc dec xs s" and can: "can_process enc dec s"
  shows "\<exists>s'. pool_run enc dec xs s xs s' \<and> workers s' w = WWait"
proof -
  have loop: "\<exists>s'. pool_run enc dec xs t xs s' \<and> workers s' w = WWait"
    if "crypto_inv enc dec xs t" "workers t w = WLoop" for t
    using loop_run [OF that] by blast
  show ?thesis
  proof (cases "workers s w")
    case WWait
    then show ?thesis using pool_run_refl by blast
  next
    case (WWork b)
    obtain t where t: "pool_run enc dec xs s xs t" "workers t w = WLoop"
      using process_run [OF inv can WWork] by blast
    then have "crypto_inv enc dec xs t"
      using inv by (simp add: pool_run_def)
    from loop [OF this t(2)] show ?thesis using pool_run_trans [OF t(1)] by blast
  next
    case WLoop
    then show ?thesis using loop [OF inv] by blast
  next
    case WExit
    then show ?thesis using inv by (simp add: crypto_inv_def)
  qed
qed

lemma take_run:
  assumes inv: "crypto_inv enc dec (x # xs) s" and w: "workers s w = WWait" "w < KTHREAD_POOL_SIZE"
  shows "\<exists>s'. pool_run enc dec (x # xs) s xs s' \<and> workers s' w = WWork x"
proof -
  have repr: "queue_repr (cpool s) (x # xs)"
    using inv by (auto simp: crypto_inv_def dest: inv_repr)
  obtain P where P: "crypto_take (cpool s) = Inr (x, P)" "x \<noteq> 0"
    using cqueue.deq_Cons [OF repr] by blast
  have n: "0 < cq_num (cq (cpool s)) \<or> cq_stop (cq (cpool s)) = 1"
    using repr by (simp add: queue_repr_def)
  define s' where "s' = s\<lparr>cpool := P, workers := (workers s)(w := WWork x)\<rparr>"
  have "crypto_step enc dec s s'"
    using step_take [OF w(2,1) n P(1), of enc dec] P(2) by (simp add: s'_def)
  moreover have "crypto_inv enc dec xs s'"
    using crypto_inv_take [OF inv w(1) n P(1)] by (simp add: s'_def)
  moreover have "can_process enc dec s'" if "can_process enc dec s"
  proof -
    obtain j where "jobs (cpool s) x = Some j" "jobs P = (jobs (cpool s))(x \<mapsto> j\<lparr>j_next := 0\<rparr>)"
      using P n by (auto simp: crypto_take_def Let_def split: if_splits option.splits)
    then show ?thesis
      using that by (auto simp: can_process_def s'_def)
  qed
  ultimately show ?thesis
    by (intro exI [of _ s']) (auto simp: pool_run_def s'_def)
qed

lemma queued_job_runs:
  "crypto_inv enc dec xs s \<Longrightarrow> can_process enc dec s \<Longrightarrow> a \<in> set xs \<Longrightarrow>
     \<exists>ys s'. pool_run enc dec xs s ys s' \<and> job_finished s' a"
proof (induction xs arbitrary: s)
  case (Cons x xs)
  obtain t where t: "pool_run enc dec (x # xs) s (x # xs) t" "workers t 0 = WWait"
    using free_run [OF Cons.prems(1,2)] by blast
  then have inv_t: "crypto_inv enc dec (x # xs) t" and can_t: "can_process enc dec t"
    using Cons.prems by (auto simp: pool_run_def)
  obtain u where u: "pool_run enc dec (x # xs) t xs u" "workers u 0 = WWork x"
    using take_run [OF inv_t t(2)] by (auto simp: KTHREAD_POOL_SIZE_def)
  then have inv_u: "crypto_inv enc dec xs u" and can_u: "can_process enc dec u"
    using inv_t can_t by (auto simp: pool_run_def)
  have "\<exists>ys s'. pool_run enc dec xs u ys s' \<and> job_finished s' a"
  proof (cases "x = a")
    case True
    then show ?thesis using process_run [OF inv_u can_u u(2)] by blast
  next
    case False
    then show ?thesis using Cons.IH [OF inv_u can_u] Cons.prems(3) by simp
  qed
  then show ?case
    using pool_run_trans [OF pool_run_trans [OF t(1) u(1)]] by blast
qed simp

lemma free_jobs_list:
  "job_list heap p xs \<Longrightarrow> distinct xs \<Longrightarrow> length xs \<le> n \<Longrightarrow> free_jobs n p heap = Inr (heap |` (- set xs))"
proof (induction xs arbitrary: n p heap)
  case Nil
  then show ?case by (subst free_jobs.simps) (simp add: restrict_map_def)
next
  case (Cons x xs)
  obtain m where n: "n = Suc m" "length xs \<le> m"
    using Cons.prems(3) by (cases n) auto
  obtain j where j: "heap x = Some j" "p = x" "x \<noteq> 0" "job_list heap (j_next j) xs" "x \<notin> set xs" "distinct xs"
    using Cons.prems by auto
  have "job_list (heap(x := None)) (j_next j) xs"
    using j by (subst job_list_cong [where heap = heap]) auto
  from Cons.IH [OF this j(6) n(2)] have "free_jobs m (j_next j) (heap(x := None)) = Inr ((heap(x := None)) |` (- set xs))" .
  moreover have "(heap(x := None)) |` (- set xs) = heap |` (- set (x # xs))"
    by (auto simp: restrict_map_def fun_eq_iff)
  ultimately show ?case
    using j n by (subst free_jobs.simps) simp
qed

section \<open>Properties\<close>




text \<open>
  C19. The job queue is first-in, first-out: submitting a job to a queue with waiting jobs \<open>xs\<close> and
  then taking one job more than there were gives \<open>xs\<close> in order, then the new job, and leaves the
  queue empty.
\<close>

theorem crypto_queue_fifo:
  assumes "queue_repr pool xs" "free_addr a pool"
  shows "\<exists>pool1 pool2. crypto_submit vm vjob ibuf a pool = Inr pool1 \<and>
           cqueue.drain (length xs + 1) pool1 = Inr (xs @ [a], pool2) \<and> queue_repr pool2 []"
  using cqueue.enq_drain [OF assms, of "(vm, vjob, ibuf)"] by (simp add: insert_new_def)

text \<open>
  The cipher loop computes the cipher block by block on a buffer of whole blocks, and reads
  past the end of every other buffer.
\<close>

theorem aes_encrypt_blocks:
  "aes_encrypt enc data (int (length data)) =
     (if AES_BLOCK_SIZE dvd length data then Inr (concat (map enc (blocks data))) else Inl Overflow)"
  by (simp add: aes_encrypt_def aes_loop_blocks aes_loop_unaligned)

text \<open>
  C28. Decrypting an encrypted buffer of whole blocks gives the buffer back, when the cipher's
  decryption of a block undoes its encryption.
\<close>

theorem aes_decrypt_encrypt:
  assumes "AES_BLOCK_SIZE dvd length data"
    and "\<And>b. length b = AES_BLOCK_SIZE \<Longrightarrow> length (enc b) = AES_BLOCK_SIZE \<and> dec (enc b) = b"
  shows "bindE (aes_encrypt enc data (int (length data))) (\<lambda>c. aes_decrypt dec c (int (length c))) = Inr data"
proof -
  let ?c = "concat (map enc (blocks data))"
  have c: "blocks ?c = map enc (blocks data)" "length ?c = length data"
    using blocks_concat_map [OF assms(1), of enc] assms(2) by auto
  have "map dec (map enc (blocks data)) = blocks data"
    using length_blocks_elem [OF assms(1)] assms(2) by (simp add: map_idI)
  then have "aes_loop dec ?c 0 (int (length ?c)) = Inr data"
    using aes_loop_blocks [of ?c "int (length ?c)" 0 dec] assms(1) c concat_blocks [OF assms(1)] by simp
  then show ?thesis
    using aes_loop_blocks [of data "int (length data)" 0 enc] assms(1) by (simp add: aes_encrypt_def aes_decrypt_def)
qed

text \<open>
  Reclaiming the pool frees exactly the jobs that wait in the queue, leaves it empty and tells
  the threads to stop.
\<close>

theorem crypto_pool_reclaim_frees:
  assumes "queue_repr pool xs" "length xs \<le> n"
  shows "\<exists>pool'. crypto_pool_reclaim n pool = Inr pool' \<and> jobs pool' = jobs pool |` (- set xs) \<and>
           queue_repr pool' [] \<and> cq_stop (cq pool') = 1"
  using assms free_jobs_list [of "jobs pool" "cq_head (cq pool)" xs n]
  by (simp add: crypto_pool_reclaim_def queue_repr_def)

section \<open>Witnesses\<close>

text \<open>A guest whose first page starts with a job: encrypt 16 bytes at \<open>0x100100\<close> to \<open>0x100200\<close>.\<close>

definition vjob_bytes :: "u8 list" where
  "vjob_bytes = [0, 1, 0x10, 0, 0, 0, 0, 0,  0, 2, 0x10, 0, 0, 0, 0, 0,  16, 0, 0, 0,  0, 0, 0, 0]"

definition sample_job :: vm_job where
  "sample_job = \<lparr>input_gpa = 0x100100, output_gpa = 0x100200, vj_len = 16, vj_operation = 0\<rparr>"

definition job_kvm0 :: kvm where
  "job_kvm0 = sample_kvm\<lparr>umem := (\<lambda>a. if 0x10000 \<le> a \<and> a < 0x12000
     then Some (if a < 0x10018 then vjob_bytes ! unat (a - 0x10000) else 0) else None)\<rparr>"

definition xor_block :: "u8 list \<Rightarrow> u8 list" where
  "xor_block = map (\<lambda>b. b XOR 0x5A)"

definition sys0 :: crypto_sys where
  "sys0 = crypto_init (\<lambda>_. job_kvm0)"

definition sys1 :: crypto_sys where
  "sys1 = sys0\<lparr>prods := (prods sys0)(0 := PReady 0 sample_job (replicate 16 0))\<rparr>"

definition the_job :: crypto_job where
  "the_job = new_job 0 sample_job (replicate 16 0) crypto_pool_initialization"

definition pool2 :: crypto_pool where
  "pool2 = \<lparr>cq = \<lparr>cq_head = 1, cq_tail = 1, cq_num = 1, cq_stop = 0\<rparr>, jobs = [1 \<mapsto> the_job], global_job_id = 1\<rparr>"

definition sys2 :: crypto_sys where
  "sys2 = sys1\<lparr>cpool := pool2, prods := (prods sys1)(0 := PWait 0 sample_job (replicate 16 0) 1)\<rparr>"

lemma job_kvm0_slots [simp]: "kvm_slots job_kvm0 = kvm_slots sample_kvm"
  by (simp add: job_kvm0_def)

lemma job_kvm0_inv: "kvm_inv job_kvm0"
  by (simp add: job_kvm0_def sample_kvm_inv)

lemma job_kvm0_layout: "same_layout sample_ram_kvm job_kvm0"
  by (simp add: same_layout_def gfn_to_memslot_def)

lemma job_kvm0_hva: "gfn_to_hva job_kvm0 0x100 = 0x10000" "gfn_to_hva_prot job_kvm0 0x100 = 0x10000"
  using sample_hva writable_readable [of sample_ram_kvm "0x100"] same_layout_hva [OF job_kvm0_layout]
  by (simp_all add: kvm_is_error_hva_def KVM_HVA_ERR_BAD_def)

lemma job_kvm0_umem:
  "umem job_kvm0 a = (if 0x10000 \<le> a \<and> a < 0x12000
     then Some (if a < 0x10018 then vjob_bytes ! unat (a - 0x10000) else 0) else None)"
  by (simp add: job_kvm0_def)

lemma job_kvm0_read:
  "offset_in_page gpa + n \<le> PG_SIZE \<Longrightarrow> 0 < n \<Longrightarrow> gpa_gfn gpa = 0x100 \<Longrightarrow>
     kvm_read_guest job_kvm0 gpa (of_nat n) =
       (case rd_bytes (umem job_kvm0) (0x10000 + of_nat (offset_in_page gpa)) n of Inl _ \<Rightarrow> (- EFAULT, []) | Inr bs \<Rightarrow> (0, bs))"
proof -
  assume *: "offset_in_page gpa + n \<le> PG_SIZE" "0 < n" "gpa_gfn gpa = 0x100"
  then have "unat (of_nat n :: u64) = n"
    by (simp add: PG_SIZE_def unat_of_nat)
  then show ?thesis
    using * by (simp add: kvm_read_guest_def read_segments_one offset_in_page_less kvm_read_guest_page_def job_kvm0_hva
        kvm_is_error_hva_def KVM_HVA_ERR_BAD_def Let_def)
qed

lemma length_vjob: "length vjob_bytes = 24"
  by (simp add: vjob_bytes_def)

lemma job_kvm0_vjob: "kvm_read_guest job_kvm0 0x100000 24 = (0, vjob_bytes)"
proof -
  have "rd_bytes (umem job_kvm0) 0x10000 (length vjob_bytes) = Inr vjob_bytes"
  proof (rule rd_bytes_all)
    fix i assume "i < length vjob_bytes"
    then have i: "i < 24" by (simp add: vjob_bytes_def)
    then have u: "unat (0x10000 + of_nat i :: u64) = 0x10000 + i"
      by (subst unat_add_small_u64) (simp_all add: unat_of_nat)
    then show "umem job_kvm0 (0x10000 + of_nat i) = Some (vjob_bytes ! i)"
      using i by (simp add: job_kvm0_umem word_le_nat_alt word_less_nat_alt unat_of_nat)
  qed
  then show ?thesis
    using job_kvm0_read [of "0x100000" 24] unfolding length_vjob
    by (simp add: offset_in_page_def gpa_gfn_def drop_bit_eq_div PG_SIZE_def)
qed

lemma job_kvm0_input: "kvm_read_guest job_kvm0 0x100100 16 = (0, replicate 16 0)"
proof -
  have "rd_bytes (umem job_kvm0) 0x10100 (length (replicate 16 (0 :: u8))) = Inr (replicate 16 0)"
  proof (rule rd_bytes_all)
    fix i assume "i < length (replicate 16 (0 :: u8))"
    then have i: "i < 16" by simp
    then have "unat (0x10100 + of_nat i :: u64) = 0x10100 + i"
      by (subst unat_add_small_u64) (simp_all add: unat_of_nat)
    then show "umem job_kvm0 (0x10100 + of_nat i) = Some (replicate 16 0 ! i)"
      using i by (simp add: job_kvm0_umem word_le_nat_alt word_less_nat_alt)
  qed
  then show ?thesis
    using job_kvm0_read [of "0x100100" 16]
    by (simp add: offset_in_page_def gpa_gfn_def drop_bit_eq_div PG_SIZE_def)
qed

lemma decode_sample: "decode_vm_job (vjob_bytes @ drop (length vjob_bytes) fresh) = sample_job" if "length fresh = 24"
  using that by (simp add: decode_vm_job_def vjob_bytes_def sample_job_def)

lemma sample_produce_read:
  "produce_read (\<lambda>_. True) (replicate 24 0) job_kvm0 0x100000 24 = Inr (Inr (sample_job, replicate 16 0))"
proof -
  have "decode_vm_job vjob_bytes = sample_job" "length vjob_bytes = 24"
    using decode_sample [of "replicate 24 0"] by (simp_all add: length_vjob)
  then show ?thesis
    using job_kvm0_input by (simp add: produce_read_def job_kvm0_vjob sample_job_def)
qed

definition sys3 :: crypto_sys where
  "sys3 = sys2\<lparr>cpool := \<lparr>cq = \<lparr>cq_head = 0, cq_tail = 0, cq_num = 0, cq_stop = 0\<rparr>, jobs = [1 \<mapsto> the_job], global_job_id = 1\<rparr>,
     workers := (workers sys2)(0 := WWork 1)\<rparr>"

definition sys4 :: crypto_sys where
  "sys4 = sys3\<lparr>cpool := \<lparr>cq = \<lparr>cq_head = 0, cq_tail = 0, cq_num = 0, cq_stop = 0\<rparr>,
       jobs = [1 \<mapsto> the_job\<lparr>j_output := replicate 16 0x5A, j_status := 1\<rparr>], global_job_id = 1\<rparr>,
     workers := (workers sys3)(0 := WLoop)\<rparr>"

lemma xor_crypt: "crypt xor_block xor_block 0 (replicate 16 0) 16 out = Inr (replicate 16 0x5A)"
proof -
  have "blocks (replicate 16 (0 :: u8)) = [replicate 16 0]"
    using blocks_append [of "replicate 16 (0 :: u8)" "[]"] by (simp add: AES_BLOCK_SIZE_def)
  then show ?thesis
    using aes_loop_blocks [of "replicate 16 0" 16 0 xor_block]
    by (simp add: crypt_def KVM_ENCRYPTION_def aes_encrypt_def AES_BLOCK_SIZE_def xor_block_def)
qed

lemma the_job_fields:
  "j_operation the_job = 0" "j_input the_job = replicate 16 0" "j_len the_job = 16" "j_next the_job = 0"
  by (simp_all add: the_job_def new_job_def sample_job_def)

lemma sys2_reach: "crypto_reach xor_block xor_block sys2"
proof -
  let ?regs = "\<lparr>rax = 15, rbx = 0x100000, rcx = 24\<rparr>"
  have "kvm_emulate_hypercall False True 0 ?regs = HcCrypto 0x100000 24"
    by (simp add: kvm_emulate_hypercall_def KVM_HC_VAPIC_POLL_IRQ_def KVM_HC_KICK_CPU_def KVM_HC_CRYPTO_def)
  then have "crypto_step xor_block xor_block sys0 sys1"
    using step_call [of sys0 0 False True 0 ?regs "0x100000" 24 "\<lambda>_. True" "replicate 24 0" 0] sample_produce_read
    by (simp add: sys0_def sys1_def crypto_init_def)
  moreover have "crypto_step xor_block xor_block sys1 sys2"
  proof -
    have "crypto_submit 0 sample_job (replicate 16 0) 1 (cpool sys1) = Inr pool2"
      by (simp add: sys1_def sys0_def crypto_init_def crypto_submit_def crypto_insert_def pool2_def the_job_def
          crypto_pool_initialization_def next_job_id_def MAX_JOB_ID_def Let_def)
    then show ?thesis
      using step_submit [of sys1 0 0 sample_job "replicate 16 0" 1 pool2]
      by (simp add: sys2_def sys1_def sys0_def crypto_init_def crypto_pool_initialization_def)
  qed
  ultimately show ?thesis
    unfolding sys0_def by (meson crypto_next crypto_start)
qed

lemma sys4_reach: "crypto_reach xor_block xor_block sys4"
proof -
  have p: "cpool sys2 = pool2" "workers sys2 = (\<lambda>_. WWait)"
    by (simp_all add: sys2_def sys1_def sys0_def crypto_init_def)
  have j: "the_job\<lparr>j_next := 0\<rparr> = the_job"
    by (simp add: the_job_def new_job_def)
  have "crypto_step xor_block xor_block sys2 sys3"
    using step_take [of 0 sys2 1 "cpool sys3"] p
    by (simp add: KTHREAD_POOL_SIZE_def pool2_def crypto_take_def sys3_def the_job_fields(4) j)
  moreover have "crypto_step xor_block xor_block sys3 sys4"
    using step_process [of sys3 0 1 xor_block xor_block "cpool sys4"]
    by (simp add: sys3_def sys4_def crypto_process_def the_job_fields xor_crypt)
  ultimately show ?thesis
    using sys2_reach by (meson crypto_next)
qed

lemma sys2_wait: "prods sys2 0 = PWait 0 sample_job (replicate 16 0) 1"
  by (simp add: sys2_def)

lemma sys2_can_process: "can_process xor_block xor_block sys2"
  by (auto simp: can_process_def sys2_def pool2_def the_job_fields xor_crypt split: if_splits)

lemma sys4_wait: "prods sys4 0 = PWait 0 sample_job (replicate 16 0) 1" "vms sys4 = (\<lambda>_. job_kvm0)" "job_finished sys4 1"
  by (simp_all add: sys4_def sys3_def sys2_def sys1_def sys0_def crypto_init_def job_finished_def)

lemma job_kvm0_store:
  assumes "gpa_gfn gpa = 0x100" "offset_in_page gpa + length bs \<le> PG_SIZE" "bs \<noteq> []"
  shows "\<exists>k. kvm_write_guest job_kvm0 gpa bs = (0, k)"
proof -
  let ?a = "0x10000 + of_nat (offset_in_page gpa) :: u64"
  have "umem job_kvm0 (?a + of_nat i) \<noteq> None" if "i < length bs" for i
  proof -
    have o: "offset_in_page gpa + i < 4096"
      using that assms(2) by (simp add: PG_SIZE_def)
    have "?a + of_nat i = 0x10000 + of_nat (offset_in_page gpa + i)"
      by simp
    then have "unat (?a + of_nat i) = 0x10000 + (offset_in_page gpa + i)"
      using o by (simp only:) (subst unat_add_small_u64, simp_all add: unat_of_nat del: of_nat_add)
    then show ?thesis
      using o by (simp add: job_kvm0_umem word_le_nat_alt word_less_nat_alt)
  qed
  then obtain m where "copy_to_user (umem job_kvm0) ?a bs = (m, 0)"
    using wr_bytes_ok [of bs "umem job_kvm0" ?a] assms(2) by (auto simp: copy_to_user_0 PG_SIZE_def)
  then show ?thesis
    using assms by (simp add: kvm_write_guest_def write_segments_one offset_in_page_less kvm_write_guest_page_def
        job_kvm0_hva kvm_is_error_hva_def KVM_HVA_ERR_BAD_def Let_def)
qed




theorem crypto_queue_fifo_witness:
  "\<exists>pool1 pool2'. crypto_submit 0 sample_job [] 2 pool2 = Inr pool1 \<and>
     cqueue.drain 2 pool1 = Inr ([1, 2], pool2') \<and> queue_repr pool2' []"
proof -
  have "queue_repr pool2 [1]" "free_addr 2 pool2"
    by (simp_all add: queue_repr_def pool2_def the_job_fields free_addr_def)
  from crypto_queue_fifo [OF this, of 0 sample_job "[]"] show ?thesis
    by (simp add: numeral_2_eq_2 del: cqueue.drain.simps)
qed

theorem aes_decrypt_encrypt_witness:
  "bindE (aes_encrypt xor_block (replicate 32 7) 32) (\<lambda>c. aes_decrypt xor_block c (int (length c))) = Inr (replicate 32 7)"
  using aes_decrypt_encrypt [of "replicate 32 7" xor_block xor_block]
  by (simp add: AES_BLOCK_SIZE_def xor_block_def comp_def xor.assoc)

theorem crypto_pool_reclaim_frees_witness:
  "\<exists>pool'. crypto_pool_reclaim 1 pool2 = Inr pool' \<and> jobs pool' = Map.empty \<and> queue_repr pool' [] \<and> cq_stop (cq pool') = 1"
proof -
  have "queue_repr pool2 [1]"
    by (simp add: queue_repr_def pool2_def the_job_fields)
  moreover have "jobs pool2 |` (- {1}) = Map.empty"
    by (auto simp: pool2_def restrict_map_def fun_eq_iff)
  ultimately show ?thesis
    using crypto_pool_reclaim_frees [of pool2 "[1]" 1] by simp
qed

end
