(* ===== verification/CryptoDriver.thy ===== *)
theory CryptoDriver
  imports KvmCrypto
begin

text \<open>
  The guest side of the crypto service, \<open>programs/kvm_crypto_mod\<close>: the character device
  \<open>/dev/kvm-crypto\<close> and \<open>submit_job\<close>, which puts a job into guest memory and issues the hypercall.
  Guest physical memory is a partial map; the allocator's addresses, the copies from and to user
  memory, the device registration and the hypervisor's reaction to \<open>vmcall\<close> are parameters. The
  job the driver writes is the one KvmCrypto decodes.
\<close>

section \<open>Jobs of the driver\<close>

record job_struct =
  js_input :: u64
  js_output :: u64
  js_len :: int

definition encode_vm_job :: "vm_job \<Rightarrow> u8 list" where
  "encode_vm_job v =
     le_bytes 8 (input_gpa v) @ le_bytes 8 (output_gpa v) @
     le_bytes 4 (word_of_int (vj_len v) :: u32) @ le_bytes 4 (word_of_int (vj_operation v) :: u32)"

text \<open>
  The surroundings of a call: the physical addresses of the three allocated buffers, what
  \<open>copy_from_user\<close> delivers from an address (the bytes it could copy), and what \<open>vmcall\<close> does with
  the registers and guest memory.
\<close>

record driver_env =
  vjob_pa :: u64
  input_pa :: u64
  output_pa :: u64
  from_user :: "u64 \<Rightarrow> nat \<Rightarrow> u8 list"
  vmcall :: "hc_regs \<Rightarrow> ram \<Rightarrow> u64 \<times> ram"

text \<open>
  \<open>submit_job\<close>: the return value, the bytes copied to the user's output buffer and guest memory.
  The hypercall's result is stored and not used.
\<close>

definition submit_job :: "driver_env \<Rightarrow> job_struct \<Rightarrow> int \<Rightarrow> ram \<Rightarrow> (int \<times> u8 list \<times> ram) res" where
  "submit_job env js operation mem =
     (let n = nat (js_len js); data = take n (from_user env (js_input js) n) in
      bindE (wr_bytes mem (input_pa env) (replicate n 0)) (\<lambda>mem.
      bindE (wr_bytes mem (output_pa env) (replicate n 0)) (\<lambda>mem.
      bindE (wr_bytes mem (input_pa env) data) (\<lambda>mem.
      bindE (wr_bytes mem (vjob_pa env)
               (encode_vm_job \<lparr>input_gpa = input_pa env, output_gpa = output_pa env,
                               vj_len = js_len js, vj_operation = operation\<rparr>)) (\<lambda>mem.
      case vmcall env \<lparr>rax = 15, rbx = vjob_pa env, rcx = 24\<rparr> mem of
        (ret, mem) \<Rightarrow> bindE (rd_bytes mem (output_pa env) n) (\<lambda>out. Inr (0, out, mem)))))))"

section \<open>The device\<close>

text \<open>\<open>_IOWR(type, nr, size)\<close> of the kernel interface; the structure has 24 bytes.\<close>

definition IOWR :: "nat \<Rightarrow> nat \<Rightarrow> nat \<Rightarrow> u32" where
  "IOWR t nr sz = push_bit 30 3 OR push_bit 16 (of_nat sz) OR push_bit 8 (of_nat t) OR of_nat nr"

definition KC_IO_MAGIC :: nat where "KC_IO_MAGIC = 0xAF"
definition KC_IOENC :: u32 where "KC_IOENC = IOWR KC_IO_MAGIC 0xE1 24"
definition KC_IODEC :: u32 where "KC_IODEC = IOWR KC_IO_MAGIC 0xE2 24"

definition ioctl_dev_ioctl :: "driver_env \<Rightarrow> u32 \<Rightarrow> job_struct \<Rightarrow> ram \<Rightarrow> (int \<times> u8 list \<times> ram) res" where
  "ioctl_dev_ioctl env cmd js mem =
     (if cmd = KC_IOENC then bindE (submit_job env js KVM_ENCRYPTION mem) (\<lambda>(_, out, mem). Inr (0, out, mem))
      else if cmd = KC_IODEC then bindE (submit_job env js KVM_DECRYPTION mem) (\<lambda>(_, out, mem). Inr (0, out, mem))
      else Inr (0, [], mem))"

text \<open>
  The registered device: its major number, and whether the region and the device are registered.
  The results of \<open>register_chrdev_region\<close> and of \<open>alloc_chrdev_region\<close> (with the number) are
  arguments.
\<close>

record chr_dev =
  dev_major :: nat
  region_registered :: bool
  cdev_added :: bool

definition ioctl_dev_install :: "int \<Rightarrow> int \<times> nat \<Rightarrow> chr_dev \<Rightarrow> int \<times> chr_dev" where
  "ioctl_dev_install reg alloc d =
     (let (ret, d) = (if dev_major d \<noteq> 0 then (reg, d) else (fst alloc, d\<lparr>dev_major := snd alloc\<rparr>))
      in if ret < 0 then (ret, d) else (0, d\<lparr>region_registered := True, cdev_added := True\<rparr>))"

definition ioctl_dev_uninstall :: "chr_dev \<Rightarrow> chr_dev" where
  "ioctl_dev_uninstall d = d\<lparr>cdev_added := False, region_registered := False\<rparr>"

section \<open>The job's layout\<close>

lemma le_word_le_bytes32 [simp]: "le_word (le_bytes 4 (w :: u32)) = w"
  by (rule le_word_le_bytes) simp

lemma sint_word_of_int32: "- (2 ^ 31) \<le> x \<Longrightarrow> x < 2 ^ 31 \<Longrightarrow> sint (word_of_int x :: u32) = x"
  by (simp add: sint_sbintrunc' signed_take_bit_int_eq_self)

lemma length_encode_vm_job [simp]: "length (encode_vm_job v) = 24"
  by (simp add: encode_vm_job_def)

lemma decode_encode:
  "- (2 ^ 31) \<le> vj_len v \<Longrightarrow> vj_len v < 2 ^ 31 \<Longrightarrow> - (2 ^ 31) \<le> vj_operation v \<Longrightarrow> vj_operation v < 2 ^ 31 \<Longrightarrow>
     decode_vm_job (encode_vm_job v @ rest) = v"
  by (simp add: decode_vm_job_def encode_vm_job_def sint_word_of_int32)

lemma wr_bytes_at:
  assumes "wr_bytes m a bs = Inr m'" "length bs < 2 ^ 64"
  shows "m' = (\<lambda>x. if unat (x - a) < length bs then Some (bs ! unat (x - a)) else m x)"
  using wr_bytes_ok [OF assms(2), of m a] wr_bytes_mapped [OF assms(1)] assms(1) by simp

lemma rd_wr_bytes:
  assumes w: "wr_bytes m a bs = Inr m'" and l: "length bs < 2 ^ 64"
  shows "rd_bytes m' a (length bs) = Inr bs"
  using l by (intro rd_bytes_all) (simp add: wr_bytes_at [OF w l] unat_of_nat)

lemma rd_wr_bytes_other:
  assumes w: "wr_bytes m a bs = Inr m'" and l: "length bs < 2 ^ 64"
    and apart: "\<And>i j. i < length bs \<Longrightarrow> j < n \<Longrightarrow> a + of_nat i \<noteq> b + of_nat j"
  shows "rd_bytes m' b n = rd_bytes m b n"
proof (rule rd_bytes_cong)
  fix j assume j: "j < n"
  have "\<not> unat (b + of_nat j - a) < length bs"
    using apart [of "unat (b + of_nat j - a)" j] j by auto
  then show "m' (b + of_nat j) = m (b + of_nat j)"
    by (simp add: wr_bytes_at [OF w l])
qed

section \<open>Properties\<close>

text \<open>
  The driver's job and the hypervisor's job have the same layout: decoding an encoded job gives
  it back, for lengths and operations that are 32-bit integers.
\<close>

theorem vm_job_roundtrip:
  assumes "- (2 ^ 31) \<le> vj_len v" "vj_len v < 2 ^ 31" "- (2 ^ 31) \<le> vj_operation v" "vj_operation v < 2 ^ 31"
  shows "decode_vm_job (encode_vm_job v) = v"
  using decode_encode [OF assms, of "[]"] by simp

text \<open>
  When \<open>submit_job\<close> returns, the hypervisor was called with a job in guest memory that names the
  driver's buffers, the input buffer held the user's data at that moment, and the user gets what
  the output buffer holds after the call. It returns 0 whatever the hypervisor answered.
\<close>

theorem submit_job_calls_hypervisor:
  assumes sub: "submit_job env js operation mem = Inr (r, out, mem')"
    and n: "n = nat (js_len js)" "n < 2 ^ 31" "length (from_user env (js_input js) n) = n"
    and apart: "\<And>i j. i < 24 \<Longrightarrow> j < n \<Longrightarrow> vjob_pa env + of_nat i \<noteq> input_pa env + of_nat j"
  shows "r = 0 \<and>
    (\<exists>mem1 ret. vmcall env \<lparr>rax = 15, rbx = vjob_pa env, rcx = 24\<rparr> mem1 = (ret, mem') \<and>
       rd_bytes mem1 (vjob_pa env) 24 =
         Inr (encode_vm_job \<lparr>input_gpa = input_pa env, output_gpa = output_pa env, vj_len = js_len js, vj_operation = operation\<rparr>) \<and>
       rd_bytes mem1 (input_pa env) n = Inr (from_user env (js_input js) n) \<and>
       rd_bytes mem' (output_pa env) n = Inr out)"
proof -
  let ?v = "\<lparr>input_gpa = input_pa env, output_gpa = output_pa env, vj_len = js_len js, vj_operation = operation\<rparr>"
  obtain m2 m3 m4 where w3: "wr_bytes m2 (input_pa env) (from_user env (js_input js) n) = Inr m3"
      and w4: "wr_bytes m3 (vjob_pa env) (encode_vm_job ?v) = Inr m4"
      and call: "snd (vmcall env \<lparr>rax = 15, rbx = vjob_pa env, rcx = 24\<rparr> m4) = mem'"
      and out: "rd_bytes mem' (output_pa env) n = Inr out" "r = 0"
    using sub n by (auto simp: submit_job_def Let_def bindE_Inr_iff case_prod_beta)
  have "rd_bytes m4 (vjob_pa env) 24 = Inr (encode_vm_job ?v)"
    using rd_wr_bytes [OF w4] by simp
  moreover have "rd_bytes m4 (input_pa env) n = Inr (from_user env (js_input js) n)"
    using rd_wr_bytes_other [OF w4, of n "input_pa env"] apart rd_wr_bytes [OF w3] n by simp
  ultimately show ?thesis
    using call out by (metis prod.collapse)
qed


section \<open>Witnesses\<close>

theorem vm_job_roundtrip_witness: "decode_vm_job (encode_vm_job sample_job) = sample_job"
  by (rule vm_job_roundtrip) (simp_all add: sample_job_def)

definition env0 :: driver_env where
  "env0 = \<lparr>vjob_pa = 0x100, input_pa = 0x200, output_pa = 0x300, from_user = (\<lambda>a n. replicate n 7),
     vmcall = (\<lambda>regs m. (1, m))\<rparr>"

definition js0 :: job_struct where
  "js0 = \<lparr>js_input = 0, js_output = 0, js_len = 1\<rparr>"

definition mem0 :: ram where
  "mem0 = (\<lambda>a. if a < 0x1000 then Some 0 else None)"

lemma mapped_wr: "(\<And>x. x < 0x1000 \<Longrightarrow> m x \<noteq> None) \<Longrightarrow> unat a + length bs \<le> 0x1000 \<Longrightarrow>
    \<exists>m'. wr_bytes m a bs = Inr m' \<and> (\<forall>x < 0x1000. m' x \<noteq> None)"
proof -
  assume m: "\<And>x. x < 0x1000 \<Longrightarrow> m x \<noteq> None" and l: "unat a + length bs \<le> 0x1000"
  have "m (a + of_nat i) \<noteq> None" if "i < length bs" for i
  proof (rule m)
    have "unat (a + of_nat i) = unat a + i"
      using that l by (subst unat_add_small_u64) (simp_all add: unat_of_nat)
    then show "a + of_nat i < 0x1000"
      using that l by (simp add: word_less_nat_alt)
  qed
  then show ?thesis
    using wr_bytes_ok [of bs m a] l m by auto
qed

lemma sample_submit: "\<exists>out m. submit_job env0 js0 0 mem0 = Inr (0, out, m)"
proof -
  let ?v = "\<lparr>input_gpa = 0x200, output_gpa = 0x300, vj_len = 1, vj_operation = 0\<rparr>"
  have m0: "\<And>x. x < 0x1000 \<Longrightarrow> mem0 x \<noteq> None" by (simp add: mem0_def)
  obtain m1 where m1: "wr_bytes mem0 0x200 [0] = Inr m1" "\<forall>x < 0x1000. m1 x \<noteq> None"
    using mapped_wr [of mem0 "0x200" "[0]"] m0 by auto
  obtain m2 where m2: "wr_bytes m1 0x300 [0] = Inr m2" "\<forall>x < 0x1000. m2 x \<noteq> None"
    using mapped_wr [of m1 "0x300" "[0]"] m1(2) by auto
  obtain m3 where m3: "wr_bytes m2 0x200 [7] = Inr m3" "\<forall>x < 0x1000. m3 x \<noteq> None"
    using mapped_wr [of m2 "0x200" "[7]"] m2(2) by auto
  obtain m4 where m4: "wr_bytes m3 0x100 (encode_vm_job ?v) = Inr m4" "\<forall>x < 0x1000. m4 x \<noteq> None"
    using mapped_wr [of m3 "0x100" "encode_vm_job ?v"] m3(2) by auto
  obtain b where "m4 0x300 = Some b"
    using m4(2) [rule_format, of "0x300"] by auto
  then show ?thesis
    using m1(1) m2(1) m3(1) m4(1) by (simp add: submit_job_def env0_def js0_def Let_def rd8_def del: wr_bytes.simps)
qed

theorem submit_job_calls_hypervisor_witness:
  "\<exists>out m mem1. submit_job env0 js0 0 mem0 = Inr (0, out, m) \<and> rd_bytes mem1 0x200 1 = Inr [7] \<and> rd_bytes m 0x300 1 = Inr out"
proof -
  obtain out m where s: "submit_job env0 js0 0 mem0 = Inr (0, out, m)"
    using sample_submit by blast
  have "vjob_pa env0 + of_nat i \<noteq> input_pa env0 + of_nat j" if "i < 24" "j < 1" for i j
  proof
    assume "vjob_pa env0 + of_nat i = input_pa env0 + of_nat j"
    then have "(of_nat i :: u64) = 0x100"
      using that(2) by (simp add: env0_def)
    then have "unat (of_nat i :: u64) = 0x100" by simp
    then show False using that(1) by (simp add: unat_of_nat)
  qed
  then show ?thesis
    using submit_job_calls_hypervisor [OF s, of 1] s by (auto simp: env0_def js0_def)
qed


end
