(* ===== verification/Xbzrle.thy ===== *)
theory Xbzrle
  imports GuestRam
begin

text \<open>
  Page compression of live migration, \<open>xbzrle.c\<close> with the number format of \<open>util/cutils.c\<close>: the
  difference of two versions of a page is a sequence of runs of equal bytes (only their length) and
  runs of different bytes (length and bytes). The encoder looks at eight bytes at a time, with a bit
  trick that finds an equal byte in a word; it is proved to stop where a byte-wise scan stops, and
  decoding onto the old page gives the new one. Buffers are aligned byte lists.
\<close>

section \<open>Numbers\<close>

definition uleb128_encode_small :: "nat \<Rightarrow> u8 list res" where
  "uleb128_encode_small n =
     (if 0x3fff < n then Inl Abort
      else if n < 0x80 then Inr [of_nat n]
      else Inr [(of_nat n AND 0x7f) OR 0x80, of_nat (n div 128)])"

text \<open>The number and the bytes it takes; \<open>None\<close> for a number of more than 14 bits.\<close>

definition uleb128_decode_small :: "u8 \<Rightarrow> u8 \<Rightarrow> (nat \<times> nat) option" where
  "uleb128_decode_small b0 b1 =
     (if b0 AND 0x80 = 0 then Some (unat b0, 1)
      else if b1 AND 0x80 \<noteq> 0 then None
      else Some (unat (b0 AND 0x7f) + 128 * unat b1, 2))"

section \<open>The encoder\<close>

definition long_size :: nat where
  "long_size = 8"

definition word_at :: "u8 list \<Rightarrow> nat \<Rightarrow> u64" where
  "word_at buf i = le_word (take long_size (drop i buf))"

text \<open>\<open>while (res && old_buf[i] == new_buf[i])\<close>, or \<open>!=\<close>: the new index and what is left of \<open>res\<close>.\<close>

fun scan_res :: "(u8 \<Rightarrow> u8 \<Rightarrow> bool) \<Rightarrow> u8 list \<Rightarrow> u8 list \<Rightarrow> nat \<Rightarrow> nat \<Rightarrow> nat \<times> nat" where
  "scan_res P old new i 0 = (i, 0)"
| "scan_res P old new i (Suc r) = (if P (old ! i) (new ! i) then scan_res P old new (Suc i) r else (i, Suc r))"

text \<open>
  Words while they are equal, and bytes while they satisfy \<open>P\<close>. The inner loop that looks for the end
  of a run of differences has no bound of its own in the code: it runs in a word that holds an equal
  byte (lemma \<open>words_have_equal_byte\<close>), so that the bound here is never what stops it.
\<close>

function scan_words :: "u8 list \<Rightarrow> u8 list \<Rightarrow> nat \<Rightarrow> nat" where
  "scan_words old new i =
     (if i < length old \<and> word_at old i = word_at new i then scan_words old new (i + long_size) else i)"
  by pat_completeness auto

termination
  by (relation "measure (\<lambda>(old, new, i). length old - i)") (auto simp: long_size_def)

function scan_bytes :: "(u8 \<Rightarrow> u8 \<Rightarrow> bool) \<Rightarrow> u8 list \<Rightarrow> u8 list \<Rightarrow> nat \<Rightarrow> nat" where
  "scan_bytes P old new i =
     (if i < length old \<and> P (old ! i) (new ! i) then scan_bytes P old new (Suc i) else i)"
  by pat_completeness auto

termination
  by (relation "measure (\<lambda>(P, old, new, i). length old - i)") auto

definition zrun_end :: "u8 list \<Rightarrow> u8 list \<Rightarrow> nat \<Rightarrow> nat" where
  "zrun_end old new i =
     (case scan_res (=) old new i ((length old - i) mod long_size) of
        (i, res) \<Rightarrow> if res = 0 then scan_bytes (=) old new (scan_words old new i) else i)"

definition xbzrle_mask :: u64 where
  "xbzrle_mask = 0x0101010101010101"

text \<open>Whether a byte of the word is zero.\<close>

definition has_zero :: "u64 \<Rightarrow> bool" where
  "has_zero x \<longleftrightarrow> (x - xbzrle_mask) AND NOT x AND push_bit 7 xbzrle_mask \<noteq> 0"

function scan_diff_words :: "u8 list \<Rightarrow> u8 list \<Rightarrow> nat \<Rightarrow> nat" where
  "scan_diff_words old new i =
     (if i < length old then
        if has_zero (word_at old i XOR word_at new i) then scan_bytes (\<noteq>) old new i
        else scan_diff_words old new (i + long_size)
      else i)"
  by pat_completeness auto

termination
  by (relation "measure (\<lambda>(old, new, i). length old - i)") (auto simp: long_size_def)

definition nzrun_end :: "u8 list \<Rightarrow> u8 list \<Rightarrow> nat \<Rightarrow> nat" where
  "nzrun_end old new i =
     (case scan_res (\<noteq>) old new i ((length old - i) mod long_size) of
        (i, res) \<Rightarrow> if res = 0 then scan_diff_words old new i else i)"

declare scan_words.simps [simp del] scan_bytes.simps [simp del] scan_diff_words.simps [simp del]

text \<open>
  The main loop, with the output so far; \<open>n\<close> bounds the rounds. The result is the return value with
  the bytes stored: -1 when they do not fit into \<open>dlen\<close> bytes.
\<close>

primrec encode_loop :: "nat \<Rightarrow> u8 list \<Rightarrow> u8 list \<Rightarrow> nat \<Rightarrow> nat \<Rightarrow> u8 list \<Rightarrow> (int \<times> u8 list) res" where
  "encode_loop 0 old new dlen i out = Inl NoFuel"
| "encode_loop (Suc n) old new dlen i out =
     (if \<not> i < length old then Inr (int (length out), out)
      else if dlen < length out + 2 then Inr (-1, out)
      else let z = zrun_end old new i
      in if z - i = length old then Inr (0, out)
         else if z = length old then Inr (int (length out), out)
         else bindE (uleb128_encode_small (z - i)) (\<lambda>b1.
           let out = out @ b1
           in if dlen < length out + 2 then Inr (-1, out)
              else let e = nzrun_end old new z
              in bindE (uleb128_encode_small (e - z)) (\<lambda>b2.
                let out = out @ b2
                in if dlen < length out + (e - z) then Inr (-1, out)
                   else encode_loop n old new dlen e (out @ take (e - z) (drop z new)))))"

definition xbzrle_encode_buffer :: "u8 list \<Rightarrow> u8 list \<Rightarrow> nat \<Rightarrow> (int \<times> u8 list) res" where
  "xbzrle_encode_buffer old new dlen =
     (if length old mod long_size \<noteq> 0 then Inl Abort
      else encode_loop (Suc (length old)) old new dlen 0 [])"

section \<open>The decoder\<close>

definition put_bytes :: "nat \<Rightarrow> u8 list \<Rightarrow> u8 list \<Rightarrow> u8 list" where
  "put_bytes d bs dst = take d dst @ bs @ drop (d + length bs) dst"

text \<open>The return value and the destination; \<open>n\<close> bounds the rounds.\<close>

primrec decode_loop :: "nat \<Rightarrow> u8 list \<Rightarrow> nat \<Rightarrow> nat \<Rightarrow> u8 list \<Rightarrow> (int \<times> u8 list) res" where
  "decode_loop 0 src i d dst = Inl NoFuel"
| "decode_loop (Suc n) src i d dst =
     (if \<not> i < length src then Inr (int d, dst)
      else if length src - i < 2 then Inr (-1, dst)
      else case uleb128_decode_small (src ! i) (src ! (i + 1)) of
        None \<Rightarrow> Inr (-1, dst)
      | Some (count, ret) \<Rightarrow>
          if i \<noteq> 0 \<and> count = 0 then Inr (-1, dst)
          else let i = i + ret; d = d + count
          in if length dst < d then Inr (-1, dst)
             else if length src - i < 2 then Inr (-1, dst)
             else case uleb128_decode_small (src ! i) (src ! (i + 1)) of
               None \<Rightarrow> Inr (-1, dst)
             | Some (count, ret) \<Rightarrow>
                 if count = 0 then Inr (-1, dst)
                 else let i = i + ret
                 in if length dst < d + count \<or> length src < i + count then Inr (-1, dst)
                    else decode_loop n src (i + count) (d + count) (put_bytes d (take count (drop i src)) dst))"

definition xbzrle_decode_buffer :: "u8 list \<Rightarrow> u8 list \<Rightarrow> (int \<times> u8 list) res" where
  "xbzrle_decode_buffer src dst = decode_loop (Suc (length src)) src 0 0 dst"

section \<open>The bit trick\<close>

text \<open>Numbers as lists of bytes, least significant first.\<close>

primrec ival :: "int list \<Rightarrow> int" where
  "ival [] = 0"
| "ival (b # bs) = b + 256 * ival bs"

lemma and_split:
  assumes "0 \<le> a" "a < 256" "0 \<le> c" "c < 256"
  shows "(a + 256 * p) AND (c + 256 * q) = (a AND c) + 256 * (p AND q :: int)"
proof -
  have eq: "x + 256 * y = concat_bit 8 x y" if "0 \<le> x" "x < 256" for x y :: int
    using that by (simp add: concat_bit_eq take_bit_int_eq_self push_bit_eq_mult)
  have "concat_bit 8 a p AND concat_bit 8 c q = concat_bit 8 (a AND c) (p AND q)"
    by (rule bit_eqI) (auto simp: bit_concat_bit_iff bit_and_iff)
  moreover have "0 \<le> a AND c" "a AND c < 256"
    using assms AND_upper1 [of a c] by auto
  ultimately show ?thesis
    using assms by (simp add: eq)
qed

lemma not_split: "NOT (a + 256 * p) = (255 - a) + 256 * (NOT p :: int)"
  by (simp add: not_int_def)

lemma bit_7_less: "0 \<le> x \<Longrightarrow> x < 128 \<Longrightarrow> \<not> bit (x :: int) 7"
  by (simp add: bit_iff_odd)

lemma byte_no_zero:
  assumes "1 \<le> b" "b < (256 :: int)"
  shows "(b - 1) AND ((255 - b) AND 128) = 0"
proof -
  have "\<not> (bit (b - 1) 7 \<and> bit (255 - b) 7)"
    using bit_7_less [of "b - 1"] bit_7_less [of "255 - b"] assms by (cases "b < 128") auto
  then have "((b - 1) AND (255 - b)) AND 2 ^ 7 = 0"
    by (simp only: and_exp_eq_0_iff_not_bit bit_and_iff) simp
  then show ?thesis by (simp add: and.assoc)
qed

lemma has_zero_int:
  "\<forall>b\<in>set bs. 0 \<le> b \<and> b < 256 \<Longrightarrow>
     (ival bs - ival (replicate (length bs) 1)) AND (NOT (ival bs) AND ival (replicate (length bs) 128)) \<noteq> 0
       \<longleftrightarrow> 0 \<in> set bs"
proof (induction bs)
  case (Cons b bs)
  define D where "D = ival bs - ival (replicate (length bs) 1)"
  define N where "N = NOT (ival bs) AND ival (replicate (length bs) 128)"
  have b: "0 \<le> b" "b < 256" using Cons.prems by auto
  have high: "NOT (ival (b # bs)) AND ival (replicate (length (b # bs)) 128) = ((255 - b) AND 128) + 256 * N"
    using b by (simp add: not_split and_split N_def)
  have r: "0 \<le> (255 - b) AND 128" "(255 - b) AND 128 < 256"
    using b AND_upper1 [of "255 - b" 128] by (auto intro: le_less_trans)
  show ?case
  proof (cases "b = 0")
    case True
    have low: "ival (b # bs) - ival (replicate (length (b # bs)) 1) = 255 + 256 * (D - 1)"
      using True by (simp add: D_def)
    have top: "(255 - b) AND 128 = 128"
      using True by simp
    have "(255 + 256 * (D - 1)) AND (128 + 256 * N) = 128 + 256 * ((D - 1) AND N)"
      by (subst and_split) simp_all
    moreover have "128 + 256 * ((D - 1) AND N) \<noteq> 0"
      by presburger
    ultimately have "(ival (b # bs) - ival (replicate (length (b # bs)) 1)) AND
        (NOT (ival (b # bs)) AND ival (replicate (length (b # bs)) 128)) \<noteq> 0"
      unfolding high low top by (simp only: not_False_eq_True)
    then show ?thesis using True by simp
  next
    case False
    have low: "ival (b # bs) - ival (replicate (length (b # bs)) 1) = (b - 1) + 256 * D"
      by (simp add: D_def)
    have "(ival (b # bs) - ival (replicate (length (b # bs)) 1)) AND (NOT (ival (b # bs)) AND ival (replicate (length (b # bs)) 128))
        = 256 * (D AND N)"
      unfolding high low using b r False byte_no_zero [of b] by (subst and_split) simp_all
    then show ?thesis
      using Cons.IH Cons.prems False by (simp add: D_def N_def)
  qed
qed simp

lemma ival_le_bytes: "ival (map uint (le_bytes n (x :: u64))) = take_bit (8 * n) (uint x)"
proof (induction n arbitrary: x)
  case (Suc n)
  have "uint (ucast x :: u8) = uint x mod 256"
    by (simp add: unsigned_ucast_eq take_bit_eq_mod)
  moreover have "uint (drop_bit 8 x) = uint x div 256"
    by (simp add: uint_div drop_bit_eq_div)
  moreover have "take_bit (8 * Suc n) (uint x) = uint x mod (256 * 2 ^ (8 * n))"
    by (simp add: take_bit_eq_mod power_add)
  ultimately show ?case
    using Suc.IH [of "drop_bit 8 x"] by (simp add: take_bit_eq_mod zmod_zmult2_eq)
qed simp

lemma uint_le_bytes: "uint (x :: u64) = ival (map uint (le_bytes 8 x))"
  using uint_lt2p [of x] by (simp add: ival_le_bytes take_bit_int_eq_self)

lemma has_zero_iff: "has_zero x \<longleftrightarrow> 0 \<in> set (le_bytes 8 x)"
proof -
  let ?bs = "map uint (le_bytes 8 x)"
  have eight: "replicate 8 a = [a, a, a, a, a, a, a, a]" for a :: int
    by (simp add: numeral_eq_Suc)
  have m: "uint xbzrle_mask = ival (replicate 8 1)" and h: "uint (push_bit 7 xbzrle_mask) = ival (replicate 8 128)"
    unfolding eight by (simp_all add: xbzrle_mask_def push_bit_eq_mult)
  define z where "z = (uint x - uint xbzrle_mask) AND (NOT (uint x) AND ival (replicate 8 128))"
  have "uint ((x - xbzrle_mask) AND NOT x AND push_bit 7 xbzrle_mask) = take_bit 64 z"
  proof -
    have "uint (x - xbzrle_mask) = take_bit 64 (uint x - uint xbzrle_mask)"
      by (simp add: uint_word_ariths take_bit_eq_mod)
    moreover have "uint (NOT x) = take_bit 64 (NOT (uint x))"
      by (simp add: unsigned_not_eq)
    moreover have "uint (push_bit 7 xbzrle_mask) = take_bit 64 (ival (replicate 8 128))"
      unfolding h [symmetric] using uint_lt2p [of "push_bit 7 xbzrle_mask"] by (simp add: take_bit_int_eq_self)
    ultimately show ?thesis
      by (simp only: uint_and z_def take_bit_and and.assoc)
  qed
  moreover have "take_bit 64 z = z"
  proof (rule take_bit_int_eq_self)
    have H: "0 \<le> ival (replicate 8 128)" "ival (replicate 8 128) < 2 ^ 64"
      unfolding eight by simp_all
    have "z = ival (replicate 8 128) AND (NOT (uint x) AND (uint x - uint xbzrle_mask))"
      by (simp add: z_def ac_simps)
    then show "0 \<le> z" "z < 2 ^ 64"
      using H AND_lower [OF H(1)] AND_upper1 [OF H(1)] by (auto intro: le_less_trans)
  qed
  ultimately have "has_zero x \<longleftrightarrow> z \<noteq> 0"
    unfolding has_zero_def by (metis uint_0_iff)
  also have "\<dots> \<longleftrightarrow> 0 \<in> set ?bs"
    using has_zero_int [of ?bs] uint_lt2p [where x = "b :: u8" for b] unfolding z_def m uint_le_bytes [of x] by simp
  also have "\<dots> \<longleftrightarrow> 0 \<in> set (le_bytes 8 x)"
    by (auto simp: image_iff uint_0_iff intro!: bexI [of _ 0])
  finally show ?thesis .
qed

section \<open>Scanning words is scanning bytes\<close>

lemma le_bytes_le_word:
  assumes "length bs = 8"
  shows "le_bytes 8 (le_word bs :: u64) = bs"
proof (rule nth_equalityI)
  fix i assume "i < length (le_bytes 8 (le_word bs :: u64))"
  then have i: "i < 8" by simp
  show "le_bytes 8 (le_word bs :: u64) ! i = bs ! i"
  proof (rule bit_word_eqI)
    fix k assume k: "k < LENGTH(8)"
    then have "(8 * i + k) div 8 = i" "(8 * i + k) mod 8 = k" "8 * i + k < 64"
      using i by auto
    then show "bit (le_bytes 8 (le_word bs :: u64) ! i) k = bit (bs ! i) k"
      using i k assms by (simp add: nth_le_bytes bit_ucast_iff bit_drop_bit_eq bit_le_word)
  qed
qed (simp add: assms)

lemma word_at_bytes:
  assumes "i + 8 \<le> length buf"
  shows "le_bytes 8 (word_at buf i) = take 8 (drop i buf)"
  using assms by (simp add: word_at_def long_size_def le_bytes_le_word)

lemma ucast_xor_u8: "(ucast (x XOR y :: u64) :: u8) = ucast x XOR ucast y"
  by (rule bit_word_eqI) (auto simp: bit_simps)

lemma le_bytes_xor: "le_bytes n (x XOR y) = map2 (XOR) (le_bytes n x) (le_bytes n (y :: u64))"
  by (induction n arbitrary: x y) (simp_all add: drop_bit_xor ucast_xor_u8)

lemma xor_zero_iff: "x XOR y = 0 \<longleftrightarrow> x = (y :: u8)"
  by (metis xor.assoc xor_self_eq xor.left_neutral xor.right_neutral)

lemma words_equal:
  assumes "i + 8 \<le> length old" "i + 8 \<le> length new"
  shows "word_at old i = word_at new i \<longleftrightarrow> (\<forall>k<8. old ! (i + k) = new ! (i + k))"
proof -
  have "word_at old i = word_at new i \<longleftrightarrow> take 8 (drop i old) = take 8 (drop i new)"
    using word_at_bytes [OF assms(1)] word_at_bytes [OF assms(2)] by (metis le_word_le_bytes64)
  then show ?thesis
    using assms by (simp add: list_eq_iff_nth_eq)
qed

lemma words_have_equal_byte:
  assumes "i + 8 \<le> length old" "i + 8 \<le> length new"
  shows "has_zero (word_at old i XOR word_at new i) \<longleftrightarrow> (\<exists>k<8. old ! (i + k) = new ! (i + k))"
proof -
  let ?xs = "map2 (XOR) (take 8 (drop i old)) (take 8 (drop i new))"
  have l: "length ?xs = 8"
    using assms by simp
  have n: "?xs ! k = old ! (i + k) XOR new ! (i + k)" if "k < 8" for k
    using assms that by simp
  have "0 \<in> set ?xs \<longleftrightarrow> (\<exists>k<8. ?xs ! k = 0)"
    unfolding in_set_conv_nth l by blast
  then show ?thesis
    using assms n by (auto simp: has_zero_iff le_bytes_xor word_at_bytes xor_zero_iff)
qed

lemma scan_bytes_skip:
  "(\<And>k. k < n \<Longrightarrow> i + k < length old \<and> P (old ! (i + k)) (new ! (i + k))) \<Longrightarrow>
     scan_bytes P old new i = scan_bytes P old new (i + n)"
proof (induction n arbitrary: i)
  case (Suc n)
  have "scan_bytes P old new i = scan_bytes P old new (Suc i)"
    using Suc.prems [of 0] by (subst scan_bytes.simps) simp
  also have "\<dots> = scan_bytes P old new (Suc i + n)"
  proof (rule Suc.IH)
    fix k assume "k < n"
    then show "Suc i + k < length old \<and> P (old ! (Suc i + k)) (new ! (Suc i + k))"
      using Suc.prems [of "Suc k"] by simp
  qed
  finally show ?case by simp
qed simp

lemma scan_res_bytes:
  "scan_res P old new i r = (j, r') \<Longrightarrow> i + r \<le> length old \<Longrightarrow>
     scan_bytes P old new i = scan_bytes P old new j \<and> j + r' = i + r \<and> (r' \<noteq> 0 \<longrightarrow> scan_bytes P old new j = j)"
proof (induction P old new i r rule: scan_res.induct)
  case (2 P old new i r)
  then show ?case
    by (cases "P (old ! i) (new ! i)") (auto simp: scan_bytes.simps [of P old new i] scan_bytes.simps [of P old new j])
qed simp

lemma scan_words_bytes:
  "8 dvd length old - i \<Longrightarrow> length new = length old \<Longrightarrow>
     scan_bytes (=) old new (scan_words old new i) = scan_bytes (=) old new i"
proof (induction old new i rule: scan_words.induct)
  case (1 old new i)
  show ?case
  proof (cases "i < length old \<and> word_at old i = word_at new i")
    case True
    then have l: "i + 8 \<le> length old"
      using 1(2) by (auto dest: dvd_imp_le)
    have "scan_bytes (=) old new (i + 8) = scan_bytes (=) old new i"
      using True words_equal [of i old new] l 1(3) by (intro scan_bytes_skip [symmetric]) auto
    moreover have "8 dvd length old - (i + 8)"
      using 1(2) l by (metis diff_diff_left dvd_minus_self le_diff_conv2 add_leD1 add.commute)
    ultimately show ?thesis
      using 1(1) True 1(3) by (subst scan_words.simps) (simp add: long_size_def)
  qed (auto simp: scan_words.simps [of old new i])
qed

lemma scan_diff_words_bytes:
  "8 dvd length old - i \<Longrightarrow> length new = length old \<Longrightarrow> scan_diff_words old new i = scan_bytes (\<noteq>) old new i"
proof (induction old new i rule: scan_diff_words.induct)
  case (1 old new i)
  show ?case
  proof (cases "i < length old \<and> \<not> has_zero (word_at old i XOR word_at new i)")
    case True
    then have l: "i + 8 \<le> length old"
      using 1(2) by (auto dest: dvd_imp_le)
    have "scan_bytes (\<noteq>) old new (i + 8) = scan_bytes (\<noteq>) old new i"
      using True words_have_equal_byte [of i old new] l 1(3) by (intro scan_bytes_skip [symmetric]) auto
    moreover have "8 dvd length old - (i + 8)"
      using 1(2) l by (metis diff_diff_left dvd_minus_self le_diff_conv2 add_leD1 add.commute)
    ultimately show ?thesis
      using 1(1) True 1(3) by (subst scan_diff_words.simps) (simp add: long_size_def)
  next
    case False
    then show ?thesis
      by (subst scan_diff_words.simps) (auto simp: scan_bytes.simps [of _ old new i])
  qed
qed

lemma res_aligned: "i \<le> (n :: nat) \<Longrightarrow> i + (n - i) mod 8 \<le> n \<and> 8 dvd n - (i + (n - i) mod 8)"
  by (metis add_leD1 diff_diff_left dvd_minus_mod le_add_diff_inverse mod_less_eq_dividend nat_add_left_cancel_le)

lemma zrun_end_bytes:
  assumes "length new = length old" "i \<le> length old"
  shows "zrun_end old new i = scan_bytes (=) old new i"
proof -
  obtain j r where s: "scan_res (=) old new i ((length old - i) mod 8) = (j, r)"
    by fastforce
  have "scan_bytes (=) old new (scan_words old new j) = scan_bytes (=) old new j" if "r = 0"
    using scan_res_bytes [OF s] res_aligned [OF assms(2)] that assms(1) by (intro scan_words_bytes) auto
  then show ?thesis
    using scan_res_bytes [OF s] res_aligned [OF assms(2)] s by (auto simp: zrun_end_def long_size_def)
qed

lemma nzrun_end_bytes:
  assumes "length new = length old" "i \<le> length old"
  shows "nzrun_end old new i = scan_bytes (\<noteq>) old new i"
proof -
  obtain j r where s: "scan_res (\<noteq>) old new i ((length old - i) mod 8) = (j, r)"
    by fastforce
  have "scan_diff_words old new j = scan_bytes (\<noteq>) old new j" if "r = 0"
    using scan_res_bytes [OF s] res_aligned [OF assms(2)] that assms(1) by (intro scan_diff_words_bytes) auto
  then show ?thesis
    using scan_res_bytes [OF s] res_aligned [OF assms(2)] s by (auto simp: nzrun_end_def long_size_def)
qed

text \<open>Where a byte-wise scan stops.\<close>

lemma scan_bytes_stop:
  assumes "i \<le> length old"
  shows "i \<le> scan_bytes P old new i \<and> scan_bytes P old new i \<le> length old \<and>
         (\<forall>k. i \<le> k \<and> k < scan_bytes P old new i \<longrightarrow> P (old ! k) (new ! k)) \<and>
         (scan_bytes P old new i < length old \<longrightarrow>
            \<not> P (old ! scan_bytes P old new i) (new ! scan_bytes P old new i))"
  using assms
proof (induction P old new i rule: scan_bytes.induct)
  case (1 P old new i)
  show ?case
  proof (cases "i < length old \<and> P (old ! i) (new ! i)")
    case True
    then have e: "scan_bytes P old new i = scan_bytes P old new (Suc i)"
      by (subst scan_bytes.simps) simp
    show ?thesis
      using 1(1) True unfolding e by (metis Suc_leI le_antisym not_less_eq_eq Suc_leD)
  next
    case False
    then have "scan_bytes P old new i = i"
      by (subst scan_bytes.simps) auto
    then show ?thesis using False 1(2) by auto
  qed
qed

section \<open>Decoding what was encoded\<close>

lemma uleb128_lengths: "uleb128_encode_small n = Inr bs \<Longrightarrow> length bs = 1 \<or> length bs = 2"
  by (auto simp: uleb128_encode_small_def split: if_splits)

lemma byte_high_bit: "(x :: u8) AND 0x80 = 0 \<longleftrightarrow> unat x < 128"
proof -
  have "x AND 0x80 = 0 \<longleftrightarrow> \<not> bit x 7"
    using and_exp_eq_0_iff_not_bit [of x 7] by simp
  also have "bit x 7 \<longleftrightarrow> odd (unat x div 128)"
  proof -
    have "bit x 7 \<longleftrightarrow> bit (unat x) 7"
      by (simp add: bit_unsigned_iff)
    then show ?thesis
      by (simp add: bit_iff_odd [of "unat x"])
  qed
  also have "\<not> odd (unat x div 128) \<longleftrightarrow> unat x < 128"
  proof -
    have "unat x < 2 ^ LENGTH(8)"
      by (rule unsigned_less)
    then have "unat x div 128 < 2"
      by (simp add: less_mult_imp_div_less)
    then have "unat x div 128 = 0 \<or> unat x div 128 = 1" by linarith
    then show ?thesis by (auto simp: div_eq_0_iff)
  qed
  finally show ?thesis .
qed

lemma byte_low_bits: "unat (((of_nat n AND 0x7f) OR 0x80 :: u8) AND 0x7f) = n mod 128"
proof -
  have "((of_nat n AND 0x7f) OR 0x80 :: u8) AND 0x7f = take_bit 7 (of_nat n)"
    by (simp add: bit.conj_disj_distrib2 and.assoc take_bit_eq_mask mask_eq_exp_minus_1)
  then show ?thesis
    by (simp only: unsigned_take_bit_eq unat_of_nat) (simp add: take_bit_eq_mod mod_mod_cancel)
qed

lemma byte_set_high: "((x AND 0x7f) OR 0x80 :: u8) AND 0x80 \<noteq> 0"
  by (simp add: bit.conj_disj_distrib2 and.assoc)

lemma uleb128_roundtrip:
  assumes "uleb128_encode_small n = Inr bs"
  shows "uleb128_decode_small ((bs @ xs) ! 0) ((bs @ xs) ! 1) = Some (n, length bs)"
proof (cases "n < 128")
  case True
  then have bs: "bs = [of_nat n]"
    using assms by (simp add: uleb128_encode_small_def)
  have u: "unat (of_nat n :: u8) = n"
    using True by (simp add: unat_of_nat take_bit_nat_eq_self)
  have "(of_nat n :: u8) AND 0x80 = 0"
    using True u by (simp add: byte_high_bit)
  then show ?thesis
    using bs u by (simp add: uleb128_decode_small_def)
next
  case False
  have n: "n \<le> 0x3fff" and bs: "bs = [(of_nat n AND 0x7f) OR 0x80, of_nat (n div 128)]"
    using assms False by (simp_all add: uleb128_encode_small_def split: if_splits)
  have u: "unat (of_nat (n div 128) :: u8) = n div 128"
    using n by (simp add: unat_of_nat take_bit_nat_eq_self)
  have h: "(of_nat (n div 128) :: u8) AND 0x80 = 0"
    using n u by (simp add: byte_high_bit)
  show ?thesis
    using bs u h by (simp add: uleb128_decode_small_def byte_low_bits byte_set_high)
qed

lemma decode_round:
  assumes "uleb128_encode_small c = Inr b1" "uleb128_encode_small k = Inr b2"
    and "src = out @ b1 @ b2 @ seg @ rest" "length seg = k" "0 < k" "out = [] \<or> 0 < c"
    and "d + c + k \<le> length dst"
  shows "decode_loop (Suc m) src (length out) d dst =
         decode_loop m src (length (out @ b1 @ b2 @ seg)) (d + c + k) (put_bytes (d + c) seg dst)"
proof -
  have n1: "src ! length out = (b1 @ b2 @ seg @ rest) ! 0" "src ! (length out + 1) = (b1 @ b2 @ seg @ rest) ! 1"
    using assms(3) by (simp_all add: nth_append)
  have n2: "src ! (length out + length b1) = (b2 @ seg @ rest) ! 0"
    "src ! (length out + length b1 + 1) = (b2 @ seg @ rest) ! 1"
    using assms(3) by (simp_all add: nth_append)
  show ?thesis
    using assms(3-) uleb128_lengths [OF assms(1)] uleb128_lengths [OF assms(2)]
    unfolding decode_loop.simps n1 uleb128_roundtrip [OF assms(1)] option.case prod.case Let_def n2
      uleb128_roundtrip [OF assms(2)]
    by auto
qed

text \<open>Equal bytes need not be copied, and the bytes of a run of differences are.\<close>

lemma zrun_content:
  assumes "length new = length old" "i \<le> z" "z \<le> length old" "\<forall>k. i \<le> k \<and> k < z \<longrightarrow> old ! k = new ! k"
  shows "take i new @ drop i old = take z new @ drop z old"
  using assms by (intro nth_equalityI) (auto simp: nth_append)

lemma nzrun_content:
  assumes "length new = length old" "z \<le> e" "e \<le> length old"
  shows "put_bytes z (take (e - z) (drop z new)) (take z new @ drop z old) = take e new @ drop e old"
  using assms unfolding put_bytes_def by (intro nth_equalityI) (auto simp: nth_append)

text \<open>The two runs of a round.\<close>

lemma runs:
  assumes "length new = length old" "i \<le> length old"
  obtains z e where "zrun_end old new i = z" "nzrun_end old new z = e" "i \<le> z" "z \<le> e" "e \<le> length old"
    and "\<forall>k. i \<le> k \<and> k < z \<longrightarrow> old ! k = new ! k" "z < length old \<longrightarrow> z < e \<and> old ! z \<noteq> new ! z"
    and "e < length old \<longrightarrow> old ! e = new ! e"
proof -
  define z where "z = scan_bytes (=) old new i"
  define e where "e = scan_bytes (\<noteq>) old new z"
  have z: "i \<le> z" "z \<le> length old" "\<forall>k. i \<le> k \<and> k < z \<longrightarrow> old ! k = new ! k"
    "z < length old \<longrightarrow> old ! z \<noteq> new ! z"
    using scan_bytes_stop [OF assms(2), of "(=)" new] unfolding z_def by auto
  have e: "z \<le> e" "e \<le> length old" "e < length old \<longrightarrow> old ! e = new ! e"
    using scan_bytes_stop [OF z(2), of "(\<noteq>)" new] unfolding e_def by auto
  have "z < length old \<longrightarrow> z < e"
    using z(4) e(1,3) by (cases "z = e") auto
  then show ?thesis
    using that [OF zrun_end_bytes [OF assms, folded z_def] nzrun_end_bytes [OF assms(1) z(2), folded e_def] z(1) e(1,2)]
      z e by blast
qed

lemma encode_loop_decodes:
  assumes "encode_loop n old new dlen i out = Inr (r, out')" "r \<noteq> -1"
    and "length new = length old" "i \<le> length old"
    and "out = [] \<longleftrightarrow> i = 0" "out \<noteq> [] \<and> i < length old \<longrightarrow> old ! i = new ! i"
  shows "r = int (length out') \<and> length out \<le> length out' \<and> take (length out) out' = out \<and>
         (\<forall>m. length out' - length out < m \<longrightarrow>
            (\<exists>d. decode_loop m out' (length out) i (take i new @ drop i old) = Inr (int d, new)))"
  using assms
proof (induction n arbitrary: i out)
  case (Suc n)
  obtain z e where w: "zrun_end old new i = z" "nzrun_end old new z = e"
    and z: "i \<le> z" and e: "z \<le> e" "e \<le> length old"
    and eq: "\<forall>k. i \<le> k \<and> k < z \<longrightarrow> old ! k = new ! k" and zs: "z < length old \<longrightarrow> z < e \<and> old ! z \<noteq> new ! z"
    and es: "e < length old \<longrightarrow> old ! e = new ! e"
    using runs [OF Suc.prems(3,4)] .
  have zc: "take i new @ drop i old = take z new @ drop z old"
    using zrun_content [OF Suc.prems(3) z _ eq] e by simp
  have fin: "decode_loop m out (length out) i (take i new @ drop i old) = Inr (int i, new)"
    if "0 < m" "z = length old" for m
    using that zc Suc.prems(3) by (cases m) auto
  consider "z = length old" | "z < length old" using e by linarith
  then show ?case
  proof cases
    case 1
    then have "r = int (length out')" "out' = out"
      using Suc.prems w(1) by (auto simp: Let_def split: if_splits)
    then show ?thesis using fin 1 by fastforce
  next
    case 2
    let ?seg = "take (e - z) (drop z new)"
    have iz: "out = [] \<or> 0 < z - i"
      using Suc.prems(6) zs 2 z by (cases "z = i") auto
    obtain b1 b2 where b: "uleb128_encode_small (z - i) = Inr b1" "uleb128_encode_small (e - z) = Inr b2"
      and l: "encode_loop n old new dlen e (out @ b1 @ b2 @ ?seg) = Inr (r, out')"
      using Suc.prems 2 z by (auto simp: w Let_def bindE_Inr_iff split: if_splits)
    have IH: "r = int (length out') \<and> length (out @ b1 @ b2 @ ?seg) \<le> length out' \<and>
         take (length (out @ b1 @ b2 @ ?seg)) out' = out @ b1 @ b2 @ ?seg \<and>
         (\<forall>m. length out' - length (out @ b1 @ b2 @ ?seg) < m \<longrightarrow>
            (\<exists>d. decode_loop m out' (length (out @ b1 @ b2 @ ?seg)) e (take e new @ drop e old) = Inr (int d, new)))"
      using Suc.prems(2,3) e(2) es zs 2 uleb128_lengths [OF b(1)] by (intro Suc.IH [OF l]) auto
    then obtain rest where o: "out' = out @ b1 @ b2 @ ?seg @ rest"
      by (metis append.assoc append_take_drop_id)
    have step: "decode_loop (Suc m) out' (length out) i (take i new @ drop i old) =
        decode_loop m out' (length (out @ b1 @ b2 @ ?seg)) e (take e new @ drop e old)" for m
      using decode_round [OF b o _ _ iz, of i "take i new @ drop i old" m] Suc.prems(3,4) z e zs 2
        nzrun_content [OF Suc.prems(3) e(1,2)] unfolding zc by simp
    have "\<exists>d. decode_loop m out' (length out) i (take i new @ drop i old) = Inr (int d, new)"
      if "length out' - length out < m" for m
    proof (cases m)
      case (Suc k)
      then have "length out' - length (out @ b1 @ b2 @ ?seg) < k"
        using that o uleb128_lengths [OF b(1)] by auto
      then show ?thesis
        using IH unfolding Suc step by blast
    qed (use that in simp)
    then show ?thesis
      using IH o by simp
  qed
qed simp

lemma uleb128_encode_small_ok:
  "n \<le> 0x3fff \<Longrightarrow> \<exists>bs. uleb128_encode_small n = Inr bs \<and> bs \<noteq> [] \<and> length bs \<le> 2 \<and> length bs \<le> max 1 n"
  by (auto simp: uleb128_encode_small_def)

lemma encode_loop_returns:
  assumes "length new = length old" "length old \<le> 0x3fff" "i \<le> length old" "length old - i < n"
    and "out = [] \<longleftrightarrow> i = 0" "out \<noteq> [] \<and> i < length old \<longrightarrow> old ! i = new ! i"
    and "length out \<le> dlen" "length out \<le> 2 * i + 1"
  shows "\<exists>r out'. encode_loop n old new dlen i out = Inr (r, out') \<and> length out' \<le> dlen \<and>
           (2 * length old + 3 \<le> dlen \<longrightarrow> r \<noteq> -1)"
  using assms
proof (induction n arbitrary: i out)
  case (Suc n)
  obtain z e where w: "zrun_end old new i = z" "nzrun_end old new z = e"
    and z: "i \<le> z" and e: "z \<le> e" "e \<le> length old"
    and zs: "z < length old \<longrightarrow> z < e \<and> old ! z \<noteq> new ! z" and es: "e < length old \<longrightarrow> old ! e = new ! e"
    using runs [OF Suc.prems(1,3)] .
  obtain b1 b2 where b: "uleb128_encode_small (z - i) = Inr b1" "uleb128_encode_small (e - z) = Inr b2"
    and l: "b1 \<noteq> []" "length b1 \<le> 2" "length b1 \<le> max 1 (z - i)" "length b2 \<le> 2" "length b2 \<le> max 1 (e - z)"
    using uleb128_encode_small_ok [of "z - i"] uleb128_encode_small_ok [of "e - z"] Suc.prems(2) e by fastforce
  let ?out = "out @ b1 @ b2 @ take (e - z) (drop z new)"
  show ?case
  proof (cases "z < length old \<and> length out + 2 \<le> dlen \<and> length (out @ b1) + 2 \<le> dlen \<and> length ?out \<le> dlen")
    case True
    have iz: "i = 0 \<or> i < z"
      using Suc.prems(5,6) zs True z by (cases "z = i") auto
    then have "length ?out \<le> 2 * e + 1"
      using Suc.prems(1,5,8) l zs True z e by (auto simp: max_def split: if_splits)
    then have "\<exists>r out'. encode_loop n old new dlen e ?out = Inr (r, out') \<and> length out' \<le> dlen \<and>
        (2 * length old + 3 \<le> dlen \<longrightarrow> r \<noteq> -1)"
      using Suc.prems(1,2,4) e es zs l(1) z True by (intro Suc.IH) auto
    then show ?thesis
      using True Suc.prems(1) z e by (auto simp: w b Let_def)
  next
    case False
    then show ?thesis
      using Suc.prems(1,5-8) z e l zs by (auto simp: w b Let_def max_def split: if_splits)
  qed
qed simp

text \<open>
  C8. The codec is lossless. On a page of a multiple of eight bytes, at most 16383 of them, the encoder
  returns and never stores more than \<open>dlen\<close> bytes; unless it gave up with -1, which it does not with
  room for two bytes for each of the page and three more, it returns how many it stored, and decoding
  them onto the old page gives the new one.
\<close>

theorem xbzrle_roundtrip:
  assumes "length new = length old" "length old mod 8 = 0" "length old \<le> 0x3fff"
  shows "\<exists>r out. xbzrle_encode_buffer old new dlen = Inr (r, out) \<and> length out \<le> dlen \<and>
           (2 * length old + 3 \<le> dlen \<longrightarrow> r \<noteq> -1) \<and>
           (r \<noteq> -1 \<longrightarrow> r = int (length out) \<and> (\<exists>d. xbzrle_decode_buffer out old = Inr (int d, new)))"
proof -
  have e: "xbzrle_encode_buffer old new dlen = encode_loop (Suc (length old)) old new dlen 0 []"
    using assms(2) by (simp add: xbzrle_encode_buffer_def long_size_def)
  then obtain r out where o: "encode_loop (Suc (length old)) old new dlen 0 [] = Inr (r, out)" "length out \<le> dlen"
    "2 * length old + 3 \<le> dlen \<longrightarrow> r \<noteq> -1"
    using encode_loop_returns [OF assms(1,3), of 0 "Suc (length old)" "[]" dlen] by auto
  have "r = int (length out) \<and> (\<exists>d. xbzrle_decode_buffer out old = Inr (int d, new))" if "r \<noteq> -1"
    using encode_loop_decodes [OF o(1) that assms(1)] by (simp add: xbzrle_decode_buffer_def del: decode_loop.simps)
  then show ?thesis
    using o e by auto
qed

theorem xbzrle_roundtrip_witness:
  "\<exists>r out. xbzrle_encode_buffer (replicate 8 0) [0, 0, 1, 2, 0, 0, 0, 3] 19 = Inr (r, out) \<and> r \<noteq> -1 \<and>
     r = int (length out) \<and> (\<exists>d. xbzrle_decode_buffer out (replicate 8 0) = Inr (int d, [0, 0, 1, 2, 0, 0, 0, 3]))"
  using xbzrle_roundtrip [of "[0, 0, 1, 2, 0, 0, 0, 3]" "replicate 8 0" 19] by auto

end
