(* ===== verification/Pic.thy ===== *)
theory Pic
  imports VmiPrelude
begin

text \<open>
  The interrupt controller KVM emulates in the kernel, \<open>x86/i8259.c\<close> with its state of \<open>x86/irq.h\<close>: a
  master and a slave chip, the ports the guest programs them through, and the two calls of the host,
  one that moves an input line and one that acknowledges the pending interrupt. Proved are the
  priority rule, that the output line follows the pending interrupts, the way of an interrupt from
  line to vector, and an invariant of the registers.

  \<open>pic_clear_isr\<close> drops the lock to tell the acknowledgement notifiers. What they do to the controller,
  and what others do to it before the lock is taken again, is the parameter \<open>ack\<close>. The unused members
  \<open>isr_ack\<close>, \<open>pending_acks\<close> and \<open>ack_notifier\<close> are left out, and so are the trace points.
\<close>

section \<open>State\<close>

datatype chip = Pic0 | Pic1

record kvm_kpic_state =
  last_irr :: u8
  irr :: u8
  imr :: u8
  isr :: u8
  priority_add :: u8
  irq_base :: u8
  read_reg_select :: u8
  poll :: u8
  special_mask :: u8
  init_state :: u8
  auto_eoi :: u8
  rotate_on_auto_eoi :: u8
  special_fully_nested_mode :: u8
  init4 :: u8
  elcr :: u8
  elcr_mask :: u8

text \<open>What the code looks at in a virtual CPU.\<close>

record pic_vcpu =
  apic_hw_enabled :: bool
  apic_lvt0 :: u32

text \<open>Calls out of the controller: a CPU is woken, notifiers are told of an acknowledged or a masked line.\<close>

datatype pic_event = Kick nat | Acked nat nat | MaskChanged nat nat bool

record kvm_pic =
  wakeup_needed :: bool
  pics :: "chip \<Rightarrow> kvm_kpic_state"
  pic_output :: bool
  irq_states :: "u64 list"
  pic_vcpus :: "pic_vcpu list"
  pic_events :: "pic_event list"

type_synonym ack = "nat \<Rightarrow> kvm_pic \<Rightarrow> kvm_pic"

definition PIC_NUM_PINS :: nat where
  "PIC_NUM_PINS = 16"

definition SELECT_PIC :: "nat \<Rightarrow> nat" where
  "SELECT_PIC irq = (if irq < 8 then 0 else 1)"

definition pic_number :: "nat \<Rightarrow> chip" where
  "pic_number i = (if i = 0 then Pic0 else Pic1)"

definition upd_pic :: "chip \<Rightarrow> (kvm_kpic_state \<Rightarrow> kvm_kpic_state) \<Rightarrow> kvm_pic \<Rightarrow> kvm_pic" where
  "upd_pic c f s = s\<lparr>pics := (pics s)(c := f (pics s c))\<rparr>"

definition log_event :: "pic_event \<Rightarrow> kvm_pic \<Rightarrow> kvm_pic" where
  "log_event e s = s\<lparr>pic_events := pic_events s @ [e]\<rparr>"

section \<open>Wake-up and acknowledgement\<close>

text \<open>An unmasked local interrupt 0 in delivery mode ExtINT lets the controller through.\<close>

definition kvm_apic_accept_pic_intr :: "pic_vcpu \<Rightarrow> bool" where
  "kvm_apic_accept_pic_intr v \<longleftrightarrow>
     \<not> apic_hw_enabled v \<or> (\<not> bit (apic_lvt0 v) 16 \<and> drop_bit 8 (apic_lvt0 v) AND 7 = 7)"

fun first_accepting :: "nat \<Rightarrow> pic_vcpu list \<Rightarrow> nat option" where
  "first_accepting i [] = None"
| "first_accepting i (v # vs) = (if kvm_apic_accept_pic_intr v then Some i else first_accepting (Suc i) vs)"

definition pic_unlock :: "kvm_pic \<Rightarrow> kvm_pic" where
  "pic_unlock s =
     (let wakeup = wakeup_needed s; s = s\<lparr>wakeup_needed := False\<rparr>
      in if wakeup then
           case first_accepting 0 (pic_vcpus s) of
             None \<Rightarrow> s
           | Some i \<Rightarrow> log_event (Kick i) s
         else s)"

definition pic_clear_isr :: "ack \<Rightarrow> chip \<Rightarrow> nat \<Rightarrow> kvm_pic \<Rightarrow> kvm_pic" where
  "pic_clear_isr ack c irq s =
     (let s = upd_pic c (\<lambda>k. k\<lparr>isr := unset_bit irq (isr k)\<rparr>) s;
          irq = (if c = Pic0 then irq else irq + 8);
          s = pic_unlock s
      in ack irq (log_event (Acked (SELECT_PIC irq) irq) s))"

section \<open>Lines and priorities\<close>

text \<open>The result is -1 for a masked line, 0 when the interrupt was pending already, else 1.\<close>

definition pic_set_irq1 :: "nat \<Rightarrow> bool \<Rightarrow> kvm_kpic_state \<Rightarrow> int \<times> kvm_kpic_state" where
  "pic_set_irq1 irq level k =
     (case (if bit (elcr k) irq then
              if level then
                (if bit (irr k) irq then 0 else 1, k\<lparr>irr := set_bit irq (irr k), last_irr := set_bit irq (last_irr k)\<rparr>)
              else (1, k\<lparr>irr := unset_bit irq (irr k), last_irr := unset_bit irq (last_irr k)\<rparr>)
            else if level then
              if \<not> bit (last_irr k) irq then
                (if bit (irr k) irq then 0 else 1, k\<lparr>irr := set_bit irq (irr k), last_irr := set_bit irq (last_irr k)\<rparr>)
              else (1, k\<lparr>last_irr := set_bit irq (last_irr k)\<rparr>)
            else (1, k\<lparr>last_irr := unset_bit irq (last_irr k)\<rparr>)) of
        (ret, k) \<Rightarrow> (if bit (imr k) irq then -1 else ret, k))"

text \<open>
  The loop over priorities. A mask that is not zero has a bit among the eight, so that the bound on \<open>p\<close>,
  which the code does not have, is never what stops it (lemma \<open>get_priority_least\<close>).
\<close>

function priority_loop :: "u8 \<Rightarrow> u8 \<Rightarrow> nat \<Rightarrow> nat" where
  "priority_loop msk add p =
     (if p < 8 \<and> \<not> bit msk ((p + unat add) mod 8) then priority_loop msk add (Suc p) else p)"
  by pat_completeness auto

termination
  by (relation "measure (\<lambda>(msk, add, p). 8 - p)") auto

definition get_priority :: "kvm_kpic_state \<Rightarrow> u8 \<Rightarrow> nat" where
  "get_priority k msk = (if msk = 0 then 8 else priority_loop msk (priority_add k) 0)"

definition pic_get_irq :: "chip \<Rightarrow> kvm_kpic_state \<Rightarrow> nat option" where
  "pic_get_irq c k =
     (let priority = get_priority k (irr k AND NOT (imr k))
      in if priority = 8 then None
         else let msk = (if special_fully_nested_mode k \<noteq> 0 \<and> c = Pic0 then unset_bit 2 (isr k) else isr k);
                  cur_priority = get_priority k msk
              in if priority < cur_priority then Some ((priority + unat (priority_add k)) mod 8) else None)"

definition pic_irq_request :: "bool \<Rightarrow> kvm_pic \<Rightarrow> kvm_pic" where
  "pic_irq_request level s =
     (let s = (if \<not> pic_output s then s\<lparr>wakeup_needed := True\<rparr> else s) in s\<lparr>pic_output := level\<rparr>)"

definition pic_update_irq :: "kvm_pic \<Rightarrow> kvm_pic" where
  "pic_update_irq s =
     (let irq2 = pic_get_irq Pic1 (pics s Pic1);
          s = (if irq2 \<noteq> None then
                 upd_pic Pic0 (snd \<circ> pic_set_irq1 2 False) (upd_pic Pic0 (snd \<circ> pic_set_irq1 2 True) s)
               else s);
          irq = pic_get_irq Pic0 (pics s Pic0)
      in pic_irq_request (irq \<noteq> None) s)"

definition kvm_pic_update_irq :: "kvm_pic \<Rightarrow> kvm_pic" where
  "kvm_pic_update_irq s = pic_unlock (pic_update_irq s)"

text \<open>Bit numbers past the word are a store outside of it.\<close>

definition kvm_irq_line_state :: "u64 \<Rightarrow> nat \<Rightarrow> bool \<Rightarrow> (bool \<times> u64) res" where
  "kvm_irq_line_state irq_state irq_source_id level =
     (if 64 \<le> irq_source_id then Inl Overflow
      else let st = (if level then set_bit irq_source_id irq_state else unset_bit irq_source_id irq_state)
           in Inr (st \<noteq> 0, st))"

definition kvm_pic_set_irq :: "nat \<Rightarrow> nat \<Rightarrow> bool \<Rightarrow> kvm_pic \<Rightarrow> (int \<times> kvm_pic) res" where
  "kvm_pic_set_irq irq irq_source_id level s =
     (if PIC_NUM_PINS \<le> irq then Inl Abort
      else bindE (kvm_irq_line_state (irq_states s ! irq) irq_source_id level) (\<lambda>(irq_level, st).
        let s = s\<lparr>irq_states := (irq_states s)[irq := st]\<rparr>;
            c = pic_number (irq div 8);
            (ret, k) = pic_set_irq1 (irq mod 8) irq_level (pics s c)
        in Inr (ret, pic_unlock (pic_update_irq (upd_pic c (\<lambda>_. k) s)))))"

definition kvm_pic_clear_all :: "nat \<Rightarrow> kvm_pic \<Rightarrow> kvm_pic res" where
  "kvm_pic_clear_all irq_source_id s =
     (if 64 \<le> irq_source_id then Inl Overflow
      else Inr (pic_unlock (s\<lparr>irq_states := map (unset_bit irq_source_id) (irq_states s)\<rparr>)))"

definition pic_intack :: "ack \<Rightarrow> chip \<Rightarrow> nat \<Rightarrow> kvm_pic \<Rightarrow> kvm_pic" where
  "pic_intack ack c irq s =
     (let s = upd_pic c (\<lambda>k. k\<lparr>isr := set_bit irq (isr k)\<rparr>) s;
          s = (if \<not> bit (elcr (pics s c)) irq then upd_pic c (\<lambda>k. k\<lparr>irr := unset_bit irq (irr k)\<rparr>) s else s)
      in if auto_eoi (pics s c) \<noteq> 0 then
           let s = (if rotate_on_auto_eoi (pics s c) \<noteq> 0
                    then upd_pic c (\<lambda>k. k\<lparr>priority_add := of_nat ((irq + 1) mod 8)\<rparr>) s else s)
           in pic_clear_isr ack c irq s
         else s)"

text \<open>The vector of the acknowledged interrupt.\<close>

definition kvm_pic_read_irq :: "ack \<Rightarrow> kvm_pic \<Rightarrow> nat \<times> kvm_pic" where
  "kvm_pic_read_irq ack s =
     (let s = s\<lparr>pic_output := False\<rparr>;
          (intno, s) =
            (case pic_get_irq Pic0 (pics s Pic0) of
               Some irq \<Rightarrow>
                 let s = pic_intack ack Pic0 irq s
                 in if irq = 2 then
                      let (irq2, s) = (case pic_get_irq Pic1 (pics s Pic1) of
                                         Some irq2 \<Rightarrow> (irq2, pic_intack ack Pic1 irq2 s)
                                       | None \<Rightarrow> (7, s))
                      in (unat (irq_base (pics s Pic1)) + irq2, s)
                    else (unat (irq_base (pics s Pic0)) + irq, s)
             | None \<Rightarrow> (unat (irq_base (pics s Pic0)) + 7, s))
      in (intno, pic_unlock (pic_update_irq s)))"

section \<open>Ports\<close>

definition kvm_pic_reset :: "ack \<Rightarrow> chip \<Rightarrow> kvm_pic \<Rightarrow> kvm_pic" where
  "kvm_pic_reset ack c s =
     (let edge_irr = irr (pics s c) AND NOT (elcr (pics s c));
          s = upd_pic c (\<lambda>k. k\<lparr>last_irr := 0, irr := irr k AND elcr k, imr := 0, priority_add := 0,
                                special_mask := 0, read_reg_select := 0\<rparr>) s;
          s = (if init4 (pics s c) = 0
               then upd_pic c (\<lambda>k. k\<lparr>special_fully_nested_mode := 0, auto_eoi := 0\<rparr>) s else s);
          s = upd_pic c (\<lambda>k. k\<lparr>init_state := 1\<rparr>) s
      in if first_accepting 0 (pic_vcpus s) = None then s
         else fold (\<lambda>irq s. if bit edge_irr irq then pic_clear_isr ack c irq s else s)
                [0..<PIC_NUM_PINS div 2] s)"

text \<open>The three kinds of command words on the even port: initialisation, OCW3 and OCW2.\<close>

definition write_ocw3 :: "u32 \<Rightarrow> kvm_kpic_state \<Rightarrow> kvm_kpic_state" where
  "write_ocw3 val k =
     (let k = (if bit val 2 then k\<lparr>poll := 1\<rparr> else k);
          k = (if bit val 1 then k\<lparr>read_reg_select := ucast (val AND 1)\<rparr> else k)
      in if bit val 6 then k\<lparr>special_mask := ucast (drop_bit 5 val AND 1)\<rparr> else k)"

definition write_ocw2 :: "ack \<Rightarrow> chip \<Rightarrow> u32 \<Rightarrow> kvm_pic \<Rightarrow> kvm_pic" where
  "write_ocw2 ack c val s =
     (let cmd = drop_bit 5 val
      in if cmd = 0 \<or> cmd = 4 then upd_pic c (\<lambda>k. k\<lparr>rotate_on_auto_eoi := ucast (drop_bit 2 cmd)\<rparr>) s
         else if cmd = 1 \<or> cmd = 5 then
           let priority = get_priority (pics s c) (isr (pics s c))
           in if priority \<noteq> 8 then
                let irq = (priority + unat (priority_add (pics s c))) mod 8;
                    s = (if cmd = 5 then upd_pic c (\<lambda>k. k\<lparr>priority_add := of_nat ((irq + 1) mod 8)\<rparr>) s else s)
                in pic_update_irq (pic_clear_isr ack c irq s)
              else s
         else if cmd = 3 then pic_update_irq (pic_clear_isr ack c (unat (val AND 7)) s)
         else if cmd = 6 then pic_update_irq (upd_pic c (\<lambda>k. k\<lparr>priority_add := ucast ((val + 1) AND 7)\<rparr>) s)
         else if cmd = 7 then
           let irq = unat (val AND 7);
               s = upd_pic c (\<lambda>k. k\<lparr>priority_add := of_nat ((irq + 1) mod 8)\<rparr>) s
           in pic_update_irq (pic_clear_isr ack c irq s)
         else s)"

text \<open>The odd port: the mask in normal operation, else the next word of the initialisation.\<close>

definition write_imr :: "chip \<Rightarrow> u32 \<Rightarrow> kvm_pic \<Rightarrow> kvm_pic" where
  "write_imr c val s =
     (let imr_diff = imr (pics s c) XOR ucast val;
          off = (if c = Pic0 then 0 else 8);
          s = upd_pic c (\<lambda>k. k\<lparr>imr := ucast val\<rparr>) s;
          s = fold (\<lambda>irq s. if bit imr_diff irq
                            then log_event (MaskChanged (SELECT_PIC (irq + off)) (irq + off) (bit (imr (pics s c)) irq)) s
                            else s) [0..<PIC_NUM_PINS div 2] s
      in pic_update_irq s)"

definition write_odd :: "chip \<Rightarrow> u32 \<Rightarrow> kvm_pic \<Rightarrow> kvm_pic" where
  "write_odd c val s =
     (let st = init_state (pics s c)
      in if st = 0 then write_imr c val s
         else if st = 1 then upd_pic c (\<lambda>k. k\<lparr>irq_base := ucast (val AND 0xf8), init_state := 2\<rparr>) s
         else if st = 2 then upd_pic c (\<lambda>k. k\<lparr>init_state := (if init4 k \<noteq> 0 then 3 else 0)\<rparr>) s
         else if st = 3 then
           upd_pic c (\<lambda>k. k\<lparr>special_fully_nested_mode := ucast (drop_bit 4 val AND 1),
                             auto_eoi := ucast (drop_bit 1 val AND 1), init_state := 0\<rparr>) s
         else s)"

definition pic_ioport_write :: "ack \<Rightarrow> chip \<Rightarrow> u32 \<Rightarrow> u32 \<Rightarrow> kvm_pic \<Rightarrow> kvm_pic" where
  "pic_ioport_write ack c addr val s =
     (if addr AND 1 = 0 then
        if bit val 4 then kvm_pic_reset ack c (upd_pic c (\<lambda>k. k\<lparr>init4 := ucast (val AND 1)\<rparr>) s)
        else if bit val 3 then upd_pic c (write_ocw3 val) s
        else write_ocw2 ack c val s
      else write_odd c val s)"

definition pic_poll_read :: "ack \<Rightarrow> chip \<Rightarrow> u32 \<Rightarrow> kvm_pic \<Rightarrow> u32 \<times> kvm_pic" where
  "pic_poll_read ack c addr1 s =
     (case pic_get_irq c (pics s c) of
        Some ret \<Rightarrow>
          let s = (if drop_bit 7 addr1 \<noteq> 0
                   then upd_pic Pic0 (\<lambda>k. k\<lparr>isr := unset_bit 2 (isr k), irr := unset_bit 2 (irr k)\<rparr>) s else s);
              s = upd_pic c (\<lambda>k. k\<lparr>irr := unset_bit ret (irr k)\<rparr>) s;
              s = pic_clear_isr ack c ret s
          in (of_nat ret, if drop_bit 7 addr1 \<noteq> 0 \<or> ret \<noteq> 2 then pic_update_irq s else s)
      | None \<Rightarrow> (7, pic_update_irq s))"

definition pic_ioport_read :: "ack \<Rightarrow> chip \<Rightarrow> u32 \<Rightarrow> kvm_pic \<Rightarrow> u32 \<times> kvm_pic" where
  "pic_ioport_read ack c addr1 s =
     (if poll (pics s c) \<noteq> 0 then
        let (ret, s) = pic_poll_read ack c addr1 s in (ret, upd_pic c (\<lambda>k. k\<lparr>poll := 0\<rparr>) s)
      else if addr1 AND 1 = 0 then
        (ucast (if read_reg_select (pics s c) \<noteq> 0 then isr (pics s c) else irr (pics s c)), s)
      else (ucast (imr (pics s c)), s))"

definition elcr_ioport_write :: "chip \<Rightarrow> u32 \<Rightarrow> kvm_pic \<Rightarrow> kvm_pic" where
  "elcr_ioport_write c val s = upd_pic c (\<lambda>k. k\<lparr>elcr := ucast val AND elcr_mask k\<rparr>) s"

definition elcr_ioport_read :: "chip \<Rightarrow> kvm_pic \<Rightarrow> u32" where
  "elcr_ioport_read c s = ucast (elcr (pics s c))"

definition picdev_in_range :: "u64 \<Rightarrow> bool" where
  "picdev_in_range addr \<longleftrightarrow> addr \<in> {0x20, 0x21, 0xa0, 0xa1, 0x4d0, 0x4d1}"

definition EOPNOTSUPP :: int where
  "EOPNOTSUPP = 95"

text \<open>\<open>data\<close> is the first byte of the value.\<close>

definition picdev_write :: "ack \<Rightarrow> u64 \<Rightarrow> int \<Rightarrow> u8 \<Rightarrow> kvm_pic \<Rightarrow> int \<times> kvm_pic" where
  "picdev_write ack addr len data s =
     (if \<not> picdev_in_range addr then (- EOPNOTSUPP, s)
      else if len \<noteq> 1 then (0, s)
      else (0, pic_unlock
        (if addr \<in> {0x20, 0x21, 0xa0, 0xa1}
         then pic_ioport_write ack (pic_number (unat (drop_bit 7 addr))) (ucast addr) (ucast data) s
         else elcr_ioport_write (pic_number (unat (addr AND 1))) (ucast data) s)))"

text \<open>The result holds the byte that is stored, if one is.\<close>

definition picdev_read :: "ack \<Rightarrow> u64 \<Rightarrow> int \<Rightarrow> kvm_pic \<Rightarrow> int \<times> u8 option \<times> kvm_pic" where
  "picdev_read ack addr len s =
     (if \<not> picdev_in_range addr then (- EOPNOTSUPP, None, s)
      else if len \<noteq> 1 then (0, None, s)
      else let (data, s) =
             (if addr \<in> {0x20, 0x21, 0xa0, 0xa1}
              then pic_ioport_read ack (pic_number (unat (drop_bit 7 addr))) (ucast addr) s
              else (elcr_ioport_read (pic_number (unat (addr AND 1))) s, s))
           in (0, Some (ucast data), pic_unlock s))"

text \<open>A controller as \<open>kvm_create_pic\<close> sets it up: everything zero but the pins that may be level triggered.\<close>

definition zero_kpic :: kvm_kpic_state where
  "zero_kpic = \<lparr>last_irr = 0, irr = 0, imr = 0, isr = 0, priority_add = 0, irq_base = 0, read_reg_select = 0,
     poll = 0, special_mask = 0, init_state = 0, auto_eoi = 0, rotate_on_auto_eoi = 0,
     special_fully_nested_mode = 0, init4 = 0, elcr = 0, elcr_mask = 0\<rparr>"

definition new_pic :: "pic_vcpu list \<Rightarrow> kvm_pic" where
  "new_pic vcpus = \<lparr>wakeup_needed = False,
     pics = (\<lambda>c. zero_kpic\<lparr>elcr_mask := (case c of Pic0 \<Rightarrow> 0xf8 | Pic1 \<Rightarrow> 0xde)\<rparr>),
     pic_output = False, irq_states = replicate PIC_NUM_PINS 0, pic_vcpus = vcpus, pic_events = []\<rparr>"

declare priority_loop.simps [simp del]

section \<open>The priority rule\<close>

text \<open>The rank of a line: 0 is the highest priority, which rotates with \<open>priority_add\<close>.\<close>

definition rank :: "kvm_kpic_state \<Rightarrow> nat \<Rightarrow> nat" where
  "rank k irq = (irq + 8 - unat (priority_add k) mod 8) mod 8"

lemma rank_less: "rank k irq < 8"
  by (simp add: rank_def)

lemma add_mod_8: "q < 8 \<Longrightarrow> (q + u) mod 8 = (if q + u mod 8 < 8 then q + u mod 8 else q + u mod 8 - 8)" for q u :: nat
proof -
  assume q: "q < 8"
  define a where "a = u mod 8"
  have "a < 8" by (simp add: a_def)
  have "(q + u) mod 8 = (q + a) mod 8"
    unfolding a_def by (rule mod_add_right_eq [symmetric])
  then show ?thesis
    using q \<open>a < 8\<close> unfolding a_def [symmetric] by (simp add: mod_if [of "q + a"])
qed

lemma rank_cases:
  "j < 8 \<Longrightarrow> rank k j = (if unat (priority_add k) mod 8 \<le> j then j - unat (priority_add k) mod 8
                        else j + 8 - unat (priority_add k) mod 8)"
proof -
  assume j: "j < 8"
  define a where "a = unat (priority_add k) mod 8"
  have "a < 8" by (simp add: a_def)
  then show ?thesis
    using j unfolding rank_def a_def [symmetric] by (simp add: mod_if [of "j + 8 - a"])
qed

lemma rank_inverse: "j < 8 \<Longrightarrow> (rank k j + unat (priority_add k)) mod 8 = j"
proof -
  assume j: "j < 8"
  define a where "a = unat (priority_add k) mod 8"
  have "a < 8" by (simp add: a_def)
  then show ?thesis
    using j rank_cases [OF j, of k] rank_less [of k j] unfolding add_mod_8 [OF rank_less] a_def [symmetric]
    by (auto split: if_splits)
qed

lemma rank_line: "q < 8 \<Longrightarrow> rank k ((q + unat (priority_add k)) mod 8) = q"
proof -
  assume q: "q < 8"
  define a where "a = unat (priority_add k) mod 8"
  have "a < 8" by (simp add: a_def)
  then show ?thesis
    using q rank_cases [of "(q + unat (priority_add k)) mod 8" k] unfolding add_mod_8 [OF q] a_def [symmetric]
    by (auto split: if_splits)
qed

lemma rank_inj: "i < 8 \<Longrightarrow> j < 8 \<Longrightarrow> rank k i = rank k j \<longleftrightarrow> i = j"
  by (metis rank_inverse)

lemma priority_loop_least:
  assumes "p \<le> q" "q < 8" "bit msk ((q + unat add) mod 8)"
  shows "bit msk ((priority_loop msk add p + unat add) mod 8) \<and> priority_loop msk add p \<le> q \<and>
         (\<forall>i. p \<le> i \<and> i < priority_loop msk add p \<longrightarrow> \<not> bit msk ((i + unat add) mod 8))"
  using assms
proof (induction msk add p rule: priority_loop.induct)
  case (1 msk add p)
  show ?case
  proof (cases "bit msk ((p + unat add) mod 8)")
    case True
    then have "priority_loop msk add p = p"
      by (simp add: priority_loop.simps [of msk add p])
    then show ?thesis using True 1(2) by auto
  next
    case False
    then have "p \<noteq> q" using 1(4) by auto
    then have q: "Suc p \<le> q" "p < 8" using 1(2,3) by simp_all
    have e: "priority_loop msk add p = priority_loop msk add (Suc p)"
      using False q by (simp add: priority_loop.simps [of msk add p])
    have "\<not> bit msk ((i + unat add) mod 8)" if "p \<le> i" "i < priority_loop msk add (Suc p)" for i
      using 1(1) q 1(3,4) False that by (cases "i = p") auto
    then show ?thesis
      using 1(1) q 1(3,4) False unfolding e by blast
  qed
qed

text \<open>The loop finds the line of least rank.\<close>

lemma get_priority_least:
  assumes "j < 8" "bit msk j"
  shows "\<exists>i<8. bit msk i \<and> get_priority k msk = rank k i \<and> (\<forall>j<8. bit msk j \<longrightarrow> rank k i \<le> rank k j)"
proof -
  let ?p = "priority_loop msk (priority_add k) 0"
  let ?i = "(?p + unat (priority_add k)) mod 8"
  have least: "bit msk ?i \<and> ?p \<le> rank k l" if "l < 8" "bit msk l" for l
    using priority_loop_least [of 0 "rank k l" msk "priority_add k"] that by (simp add: rank_less rank_inverse)
  have p: "?p < 8" using least [OF assms] rank_less [of k j] by linarith
  have "get_priority k msk = ?p"
    using assms(2) by (auto simp: get_priority_def)
  then show ?thesis
    using least [OF assms] least p by (intro exI [of _ ?i]) (simp add: rank_line)
qed

lemma byte_zero_iff: "(msk :: u8) = 0 \<longleftrightarrow> (\<forall>j<8. \<not> bit msk j)"
  by (simp add: bit_eq_iff [of msk])

lemma get_priority_None: "get_priority k msk = 8 \<longleftrightarrow> msk = 0"
proof (cases "msk = 0")
  case False
  then obtain j where "j < 8" "bit msk j"
    by (auto simp: byte_zero_iff)
  then show ?thesis
    using get_priority_least [of j msk k] rank_less [of k] False by (metis less_irrefl)
qed (simp add: get_priority_def)

lemma get_priority_above:
  "i < 8 \<Longrightarrow> rank k i < get_priority k msk \<longleftrightarrow> (\<forall>j<8. bit msk j \<longrightarrow> rank k i < rank k j)"
proof (cases "msk = 0")
  case False
  then obtain j where "j < 8" "bit msk j"
    by (auto simp: byte_zero_iff)
  from get_priority_least [OF this] obtain l where
    l: "l < 8" "bit msk l" "get_priority k msk = rank k l" "\<forall>j<8. bit msk j \<longrightarrow> rank k l \<le> rank k j"
    by blast
  show ?thesis
  proof
    assume "rank k i < get_priority k msk"
    then show "\<forall>j<8. bit msk j \<longrightarrow> rank k i < rank k j"
      unfolding l(3) using l(4) order_less_le_trans by blast
  qed (simp add: l)
qed (simp add: get_priority_def rank_less)

lemma get_priority_eq:
  assumes "i < 8"
  shows "get_priority k msk = rank k i \<longleftrightarrow> bit msk i \<and> (\<forall>j<8. bit msk j \<longrightarrow> rank k i \<le> rank k j)"
proof (cases "msk = 0")
  case True
  then show ?thesis using rank_less [of k i] by (simp add: get_priority_def)
next
  case False
  then obtain j where "j < 8" "bit msk j"
    by (auto simp: byte_zero_iff)
  from get_priority_least [OF this] obtain l where
    l: "l < 8" "bit msk l" "get_priority k msk = rank k l" "\<forall>j<8. bit msk j \<longrightarrow> rank k l \<le> rank k j"
    by blast
  show ?thesis
  proof
    assume "get_priority k msk = rank k i"
    then have "l = i" using l(1,3) assms rank_inj by metis
    then show "bit msk i \<and> (\<forall>j<8. bit msk j \<longrightarrow> rank k i \<le> rank k j)" using l by blast
  next
    assume "bit msk i \<and> (\<forall>j<8. bit msk j \<longrightarrow> rank k i \<le> rank k j)"
    then show "get_priority k msk = rank k i"
      unfolding l(3) using l(1,2,4) assms by (simp add: order_antisym)
  qed
qed

text \<open>The lines in service that count, and the rule itself.\<close>

definition serviced :: "chip \<Rightarrow> kvm_kpic_state \<Rightarrow> nat \<Rightarrow> bool" where
  "serviced c k j \<longleftrightarrow> bit (isr k) j \<and> \<not> (special_fully_nested_mode k \<noteq> 0 \<and> c = Pic0 \<and> j = 2)"

definition requested :: "kvm_kpic_state \<Rightarrow> nat \<Rightarrow> bool" where
  "requested k j \<longleftrightarrow> bit (irr k) j \<and> \<not> bit (imr k) j"

lemma pic_get_irq_iff:
  "pic_get_irq c k = Some irq \<longleftrightarrow>
     irq < 8 \<and> requested k irq \<and> (\<forall>j<8. requested k j \<longrightarrow> rank k irq \<le> rank k j) \<and>
     (\<forall>j<8. serviced c k j \<longrightarrow> rank k irq < rank k j)"
proof -
  let ?m = "irr k AND NOT (imr k)"
  let ?b = "if special_fully_nested_mode k \<noteq> 0 \<and> c = Pic0 then unset_bit 2 (isr k) else isr k"
  have m: "bit ?m j \<longleftrightarrow> requested k j" if "j < 8" for j
    using that by (auto simp: requested_def bit_simps)
  have b: "bit ?b j \<longleftrightarrow> serviced c k j" for j
    by (auto simp: serviced_def bit_simps)
  have "pic_get_irq c k = Some irq \<longleftrightarrow>
      (\<exists>i<8. irq = i \<and> get_priority k ?m = rank k i \<and> rank k i < get_priority k ?b)"
  proof (cases "?m = 0")
    case True
    then show ?thesis
      using rank_less [of k irq] by (auto simp: pic_get_irq_def get_priority_def)
  next
    case False
    then obtain j where "j < 8" "bit ?m j"
      by (auto simp: byte_zero_iff)
    from get_priority_least [OF this] obtain i where i: "i < 8" "get_priority k ?m = rank k i" by blast
    then show ?thesis
      using rank_less [of k i] by (auto simp: pic_get_irq_def Let_def rank_inverse rank_inj)
  qed
  then show ?thesis
    using get_priority_eq [of irq k ?m] get_priority_above [of irq k ?b] m b by auto
qed

text \<open>
  C22. The interrupt a chip asks for is the requested and unmasked line of highest priority, in the order
  that starts after the line rotation put last, provided that it outranks every line in service; in
  special fully nested mode the master does not count its cascade line there. No interrupt is asked
  for exactly when there is no such line.
\<close>

theorem pic_priority_rule:
  "case pic_get_irq c k of
     Some irq \<Rightarrow> irq < 8 \<and> bit (irr k) irq \<and> \<not> bit (imr k) irq \<and>
       (\<forall>j<8. j \<noteq> irq \<and> bit (irr k) j \<and> \<not> bit (imr k) j \<longrightarrow> rank k irq < rank k j) \<and>
       (\<forall>j<8. serviced c k j \<longrightarrow> rank k irq < rank k j)
   | None \<Rightarrow> \<forall>irq<8. bit (irr k) irq \<and> \<not> bit (imr k) irq \<longrightarrow>
       (\<exists>j<8. bit (irr k) j \<and> \<not> bit (imr k) j \<and> rank k j < rank k irq \<or> serviced c k j \<and> rank k j \<le> rank k irq)"
proof (cases "pic_get_irq c k")
  case None
  show ?thesis
    unfolding None option.case
  proof (intro allI impI)
    fix irq :: nat assume "irq < 8" "bit (irr k) irq \<and> \<not> bit (imr k) irq"
    then show "\<exists>j<8. bit (irr k) j \<and> \<not> bit (imr k) j \<and> rank k j < rank k irq \<or> serviced c k j \<and> rank k j \<le> rank k irq"
      using pic_get_irq_iff [of c k irq] None unfolding requested_def by (metis not_less option.distinct(1))
  qed
next
  case (Some irq)
  then show ?thesis
    using pic_get_irq_iff [of c k irq] rank_inj [of irq _ k]
    by (simp add: requested_def) (metis nat_less_le)
qed

section \<open>An invariant of the registers\<close>

definition flag :: "u8 \<Rightarrow> bool" where
  "flag w \<longleftrightarrow> w = 0 \<or> w = 1"

definition kpic_ok :: "chip \<Rightarrow> kvm_kpic_state \<Rightarrow> bool" where
  "kpic_ok c k \<longleftrightarrow>
     unat (priority_add k) < 8 \<and> unat (init_state k) \<le> 3 \<and> irq_base k AND 7 = 0 \<and>
     elcr k AND NOT (elcr_mask k) = 0 \<and> elcr_mask k = (case c of Pic0 \<Rightarrow> 0xf8 | Pic1 \<Rightarrow> 0xde) \<and>
     flag (read_reg_select k) \<and> flag (poll k) \<and> flag (special_mask k) \<and> flag (auto_eoi k) \<and>
     flag (rotate_on_auto_eoi k) \<and> flag (special_fully_nested_mode k) \<and> flag (init4 k)"

definition regs_ok :: "kvm_pic \<Rightarrow> bool" where
  "regs_ok s \<longleftrightarrow> (\<forall>c. kpic_ok c (pics s c)) \<and> length (irq_states s) = PIC_NUM_PINS"

text \<open>Outside of the lock no wake-up is left to be done.\<close>

definition pic_inv :: "kvm_pic \<Rightarrow> bool" where
  "pic_inv s \<longleftrightarrow> regs_ok s \<and> \<not> wakeup_needed s"

definition ack_ok :: "ack \<Rightarrow> bool" where
  "ack_ok ack \<longleftrightarrow> (\<forall>irq s. pic_inv s \<longrightarrow> pic_inv (ack irq s))"

text \<open>The calls that enter the controller, each under its lock.\<close>

inductive pic_step :: "ack \<Rightarrow> kvm_pic \<Rightarrow> kvm_pic \<Rightarrow> bool" for ack where
  line: "kvm_pic_set_irq irq src level s = Inr (ret, s') \<Longrightarrow> pic_step ack s s'"
| clear_all: "kvm_pic_clear_all src s = Inr s' \<Longrightarrow> pic_step ack s s'"
| update: "pic_step ack s (kvm_pic_update_irq s)"
| read_irq: "kvm_pic_read_irq ack s = (intno, s') \<Longrightarrow> pic_step ack s s'"
| port_write: "picdev_write ack addr len data s = (r, s') \<Longrightarrow> pic_step ack s s'"
| port_read: "picdev_read ack addr len s = (r, d, s') \<Longrightarrow> pic_step ack s s'"

inductive pic_reach :: "ack \<Rightarrow> pic_vcpu list \<Rightarrow> kvm_pic \<Rightarrow> bool" for ack vcpus where
  create: "pic_reach ack vcpus (new_pic vcpus)"
| step: "pic_reach ack vcpus s \<Longrightarrow> pic_step ack s s' \<Longrightarrow> pic_reach ack vcpus s'"

named_theorems pic_intro \<open>the registers stay well formed\<close>

lemma ucast_and_u8: "(ucast (x AND y :: u32) :: u8) = ucast x AND ucast y"
  by (rule bit_word_eqI) (auto simp: bit_simps)

lemma ucast_u8_u32 [simp]: "(ucast (ucast (d :: u8) :: u32) :: u8) = d"
  by (rule bit_word_eqI) (auto simp: bit_simps)

lemma flag_ucast [simp]: "flag (ucast (x AND 1 :: u32))"
proof -
  have "(ucast (x AND 1) :: u8) = of_bool (bit x 0)"
    by (rule bit_word_eqI) (auto simp: bit_simps)
  then show ?thesis by (simp add: flag_def)
qed

lemma flag_simps [simp]: "flag 0" "flag 1"
  by (simp_all add: flag_def)

lemma low_bits_less: "unat (ucast (x AND 7 :: u32) :: u8) < 8"
proof -
  have "unat (x AND 7) \<le> 7"
    using word_and_le1 [of x 7] by (simp add: word_le_nat_alt)
  then show ?thesis
    by (simp add: unsigned_ucast_eq unsigned_take_bit_eq take_bit_eq_mod)
qed

lemma line_number_less [simp]: "unat (of_nat (n mod 8) :: u8) < 8"
  by (simp add: unat_of_nat take_bit_eq_mod)

lemma base_aligned [simp]: "(ucast (x AND 0xf8 :: u32) :: u8) AND 7 = 0"
  by (simp add: ucast_and_u8 and.assoc)

lemma elcr_masked [simp]: "(x AND m) AND NOT m = (0 :: u8)"
  by (rule bit_word_eqI) (auto simp: bit_simps)

lemma pics_upd_pic [simp]: "pics (upd_pic c f s) = (pics s)(c := f (pics s c))"
  by (simp add: upd_pic_def)

lemma upd_pic_simps [simp]:
  "irq_states (upd_pic c f s) = irq_states s" "wakeup_needed (upd_pic c f s) = wakeup_needed s"
  "pic_output (upd_pic c f s) = pic_output s" "pic_vcpus (upd_pic c f s) = pic_vcpus s"
  "pic_events (upd_pic c f s) = pic_events s"
  by (simp_all add: upd_pic_def)

lemma log_event_simps [simp]:
  "pics (log_event e s) = pics s" "irq_states (log_event e s) = irq_states s"
  "wakeup_needed (log_event e s) = wakeup_needed s" "pic_output (log_event e s) = pic_output s"
  "pic_vcpus (log_event e s) = pic_vcpus s" "pic_events (log_event e s) = pic_events s @ [e]"
  by (simp_all add: log_event_def)

lemma pic_unlock_simps [simp]:
  "pics (pic_unlock s) = pics s" "irq_states (pic_unlock s) = irq_states s" "\<not> wakeup_needed (pic_unlock s)"
  "pic_output (pic_unlock s) = pic_output s" "pic_vcpus (pic_unlock s) = pic_vcpus s"
  "pic_events (pic_unlock s) = pic_events s @
     (if wakeup_needed s then case first_accepting 0 (pic_vcpus s) of None \<Rightarrow> [] | Some i \<Rightarrow> [Kick i] else [])"
  by (auto simp: pic_unlock_def Let_def split: option.splits)

lemma regs_ok_cong: "pics s' = pics s \<Longrightarrow> irq_states s' = irq_states s \<Longrightarrow> regs_ok s' = regs_ok s"
  by (simp add: regs_ok_def)

lemma regs_ok_upd [pic_intro]: "regs_ok s \<Longrightarrow> (kpic_ok c (pics s c) \<Longrightarrow> kpic_ok c (f (pics s c))) \<Longrightarrow> regs_ok (upd_pic c f s)"
  by (simp add: regs_ok_def)

lemma regs_ok_unlock [pic_intro]: "regs_ok s \<Longrightarrow> regs_ok (pic_unlock s)"
  by (simp add: regs_ok_def)

lemma regs_ok_log [pic_intro]: "regs_ok s \<Longrightarrow> regs_ok (log_event e s)"
  by (simp add: regs_ok_def)

lemma regs_ok_request [pic_intro]: "regs_ok s \<Longrightarrow> regs_ok (pic_irq_request l s)"
  by (simp add: regs_ok_def pic_irq_request_def Let_def)

lemma kpic_ok_set_irq1 [pic_intro]: "kpic_ok c k \<Longrightarrow> kpic_ok c (snd (pic_set_irq1 irq l k))"
  by (auto simp: kpic_ok_def pic_set_irq1_def)

lemma regs_ok_update [pic_intro]: "regs_ok s \<Longrightarrow> regs_ok (pic_update_irq s)"
  by (auto simp: pic_update_irq_def Let_def intro!: pic_intro)

lemma regs_ok_clear_isr [pic_intro]:
  assumes "ack_ok ack" "regs_ok s"
  shows "regs_ok (pic_clear_isr ack c irq s)"
proof -
  have "pic_inv (log_event e (pic_unlock (upd_pic c (\<lambda>k. k\<lparr>isr := unset_bit irq (isr k)\<rparr>) s)))" for e
    using assms(2) by (auto simp: pic_inv_def kpic_ok_def intro!: pic_intro)
  then show ?thesis
    using assms(1) unfolding pic_clear_isr_def Let_def ack_ok_def pic_inv_def by blast
qed

lemma regs_ok_intack [pic_intro]: "ack_ok ack \<Longrightarrow> regs_ok s \<Longrightarrow> regs_ok (pic_intack ack c irq s)"
  by (auto simp: pic_intack_def Let_def kpic_ok_def intro!: pic_intro)

lemma regs_ok_fold [pic_intro]: "regs_ok s \<Longrightarrow> (\<And>x s. regs_ok s \<Longrightarrow> regs_ok (f x s)) \<Longrightarrow> regs_ok (fold f xs s)"
  by (induction xs arbitrary: s) auto

lemma regs_ok_reset [pic_intro]: "ack_ok ack \<Longrightarrow> regs_ok s \<Longrightarrow> regs_ok (kvm_pic_reset ack c s)"
  by (auto simp: kvm_pic_reset_def Let_def kpic_ok_def intro!: pic_intro)

lemma kpic_ok_ocw3 [pic_intro]: "kpic_ok c k \<Longrightarrow> kpic_ok c (write_ocw3 val k)"
  by (auto simp: kpic_ok_def write_ocw3_def Let_def)

lemma regs_ok_ocw2 [pic_intro]: "ack_ok ack \<Longrightarrow> regs_ok s \<Longrightarrow> regs_ok (write_ocw2 ack c val s)"
  by (auto simp: write_ocw2_def Let_def kpic_ok_def low_bits_less simp del: drop_bit_drop_bit intro!: pic_intro)

lemma regs_ok_write_odd [pic_intro]: "regs_ok s \<Longrightarrow> regs_ok (write_odd c val s)"
  by (auto simp: write_odd_def write_imr_def Let_def kpic_ok_def intro!: pic_intro)

lemma regs_ok_ioport_write [pic_intro]: "ack_ok ack \<Longrightarrow> regs_ok s \<Longrightarrow> regs_ok (pic_ioport_write ack c addr val s)"
  by (auto simp: pic_ioport_write_def kpic_ok_def intro!: pic_intro)

lemma regs_ok_ioport_read [pic_intro]: "ack_ok ack \<Longrightarrow> regs_ok s \<Longrightarrow> regs_ok (snd (pic_ioport_read ack c addr s))"
  by (auto simp: pic_ioport_read_def pic_poll_read_def Let_def kpic_ok_def case_prod_beta intro!: pic_intro split: option.splits)

lemma new_pic_inv: "pic_inv (new_pic vcpus)"
  by (auto simp: pic_inv_def regs_ok_def new_pic_def kpic_ok_def zero_kpic_def split: chip.split)

lemma read_irq_inv: "ack_ok ack \<Longrightarrow> regs_ok s \<Longrightarrow> pic_inv (snd (kvm_pic_read_irq ack s))"
proof -
  assume a: "ack_ok ack" "regs_ok s"
  have "regs_ok (s\<lparr>pic_output := False\<rparr>)"
    using a(2) by (simp add: regs_ok_def)
  then show ?thesis
    using a(1) unfolding pic_inv_def kvm_pic_read_irq_def Let_def
    by (auto simp: case_prod_beta split: option.split intro!: pic_intro)
qed

lemma pic_step_inv: "pic_step ack s s' \<Longrightarrow> ack_ok ack \<Longrightarrow> pic_inv s \<Longrightarrow> pic_inv s'"
proof (induction rule: pic_step.induct)
  case (line irq src level s ret s')
  then have r: "regs_ok s" by (simp add: pic_inv_def)
  have "regs_ok (s\<lparr>irq_states := xs\<rparr>)" if "length xs = length (irq_states s)" for xs
    using r that by (simp add: regs_ok_def)
  moreover have "kpic_ok c (snd (pic_set_irq1 i l (pics s c)))" for c i l
    using r by (auto simp: regs_ok_def intro: kpic_ok_set_irq1)
  ultimately show ?case
    using line.hyps
    by (auto simp: kvm_pic_set_irq_def Let_def bindE_Inr_iff case_prod_beta pic_inv_def split: if_splits intro!: pic_intro)
next
  case (clear_all src s s')
  then show ?case
    by (auto simp: kvm_pic_clear_all_def pic_inv_def regs_ok_def split: if_splits)
next
  case (update s)
  then show ?case
    by (auto simp: kvm_pic_update_irq_def pic_inv_def intro!: pic_intro)
next
  case (read_irq s intno s')
  then show ?case
    using read_irq_inv [of ack s] by (auto simp: pic_inv_def)
next
  case (port_write addr len data s r s')
  then show ?case
    by (auto simp: picdev_write_def elcr_ioport_write_def pic_inv_def kpic_ok_def split: if_splits intro!: pic_intro)
next
  case (port_read addr len s r d s')
  then show ?case
    by (auto simp: picdev_read_def pic_inv_def case_prod_beta Let_def split: if_splits intro!: pic_intro)
qed


section \<open>From line to vector\<close>

text \<open>What a line needs to get through a chip once it is requested.\<close>

definition wins :: "chip \<Rightarrow> kvm_kpic_state \<Rightarrow> nat \<Rightarrow> bool" where
  "wins c k i \<longleftrightarrow> i < 8 \<and> \<not> bit (imr k) i \<and> (\<forall>j<8. j \<noteq> i \<and> requested k j \<longrightarrow> rank k i < rank k j) \<and>
     (\<forall>j<8. serviced c k j \<longrightarrow> rank k i < rank k j)"

lemma pic_get_irq_wins: "pic_get_irq c k = Some i \<longleftrightarrow> bit (irr k) i \<and> wins c k i"
proof -
  have "(\<forall>j<8. requested k j \<longrightarrow> rank k i \<le> rank k j) \<longleftrightarrow> (\<forall>j<8. j \<noteq> i \<and> requested k j \<longrightarrow> rank k i < rank k j)"
    if "i < 8"
    using that by (metis order_less_imp_le order_refl order_neq_le_trans rank_inj)
  then show ?thesis
    unfolding pic_get_irq_iff wins_def by (auto simp: requested_def)
qed

definition rise :: "nat \<Rightarrow> kvm_kpic_state \<Rightarrow> kvm_kpic_state" where
  "rise i k = k\<lparr>irr := set_bit i (irr k), last_irr := set_bit i (last_irr k)\<rparr>"

lemma set_irq1_rise:
  "bit (elcr k) i \<or> \<not> bit (last_irr k) i \<Longrightarrow>
     pic_set_irq1 i True k = (if bit (imr k) i then -1 else if bit (irr k) i then 0 else 1, rise i k)"
  by (auto simp: pic_set_irq1_def rise_def)

lemma wins_cong:
  assumes "imr k' = imr k" "isr k' = isr k" "priority_add k' = priority_add k"
    and "special_fully_nested_mode k' = special_fully_nested_mode k" "\<forall>j<8. j \<noteq> i \<longrightarrow> bit (irr k') j = bit (irr k) j"
  shows "wins c k' i = wins c k i"
  using assms by (auto simp: wins_def requested_def serviced_def rank_def)

lemma wins_rise [simp]: "wins c (rise i k) i = wins c k i"
  by (rule wins_cong) (auto simp: rise_def bit_simps)

lemma master_edge: "kpic_ok Pic0 k \<Longrightarrow> \<not> bit (elcr k) 2"
proof
  assume k: "kpic_ok Pic0 k" "bit (elcr k) 2"
  then have "bit (elcr k AND NOT 0xf8) 2"
    by (simp add: bit_simps)
  then show False
    using k(1) by (auto simp: kpic_ok_def)
qed

text \<open>The slave's request makes the cascade line of the master rise and fall.\<close>

definition cascade :: "kvm_kpic_state \<Rightarrow> kvm_kpic_state" where
  "cascade k = k\<lparr>irr := (if bit (last_irr k) 2 then irr k else set_bit 2 (irr k)), last_irr := unset_bit 2 (last_irr k)\<rparr>"

lemma cascade_pulse:
  "kpic_ok Pic0 k \<Longrightarrow> snd (pic_set_irq1 2 False (snd (pic_set_irq1 2 True k))) = cascade k"
proof -
  assume "kpic_ok Pic0 k"
  then have "\<not> bit (elcr k) 2" by (rule master_edge)
  moreover have "unset_bit 2 (set_bit 2 (last_irr k)) = unset_bit 2 (last_irr k)"
    by (rule bit_word_eqI) (auto simp: bit_simps)
  ultimately show ?thesis
    by (simp add: pic_set_irq1_def cascade_def)
qed

lemma update_simps:
  assumes "regs_ok s"
  shows "pics (pic_update_irq s) =
      (if pic_get_irq Pic1 (pics s Pic1) = None then pics s else (pics s)(Pic0 := cascade (pics s Pic0)))"
    and "pic_output (pic_update_irq s) \<longleftrightarrow> pic_get_irq Pic0 (pics (pic_update_irq s) Pic0) \<noteq> None"
    and "wakeup_needed (pic_update_irq s) \<longleftrightarrow> wakeup_needed s \<or> \<not> pic_output s"
    and "pic_vcpus (pic_update_irq s) = pic_vcpus s" "pic_events (pic_update_irq s) = pic_events s"
  using assms cascade_pulse [of "pics s Pic0"]
  by (auto simp: pic_update_irq_def pic_irq_request_def Let_def regs_ok_def)

lemma cascade_simps [simp]:
  "isr (cascade k) = isr k" "imr (cascade k) = imr k" "auto_eoi (cascade k) = auto_eoi k" "elcr (cascade k) = elcr k"
  "irq_base (cascade k) = irq_base k" "priority_add (cascade k) = priority_add k"
  "special_fully_nested_mode (cascade k) = special_fully_nested_mode k"
  by (simp_all add: cascade_def)

lemma rise_simps [simp]:
  "isr (rise i k) = isr k" "imr (rise i k) = imr k" "auto_eoi (rise i k) = auto_eoi k" "elcr (rise i k) = elcr k"
  "irq_base (rise i k) = irq_base k" "priority_add (rise i k) = priority_add k"
  "special_fully_nested_mode (rise i k) = special_fully_nested_mode k"
  by (simp_all add: rise_def)

lemma kpic_ok_rise: "kpic_ok c (rise i k) = kpic_ok c k"
  by (simp add: kpic_ok_def rise_def)

lemma wins_cascade: "wins Pic0 (cascade k) 2 = wins Pic0 k 2"
  by (rule wins_cong) (auto simp: cascade_def bit_simps)

lemma wins_cascade_other:
  "wins Pic0 k i \<Longrightarrow> i \<noteq> 2 \<Longrightarrow> rank k i < rank k 2 \<Longrightarrow> wins Pic0 (cascade k) i"
  by (auto simp: wins_def requested_def serviced_def rank_def cascade_def bit_simps split: if_splits)

lemma get_irq_cascade:
  assumes "pic_get_irq Pic0 k = Some i" "i \<noteq> 2" "rank k i < rank k 2"
  shows "pic_get_irq Pic0 (cascade k) = Some i"
proof -
  have "bit (irr (cascade k)) i"
    using assms(1) by (auto simp: cascade_def bit_simps pic_get_irq_wins)
  then show ?thesis
    using assms by (simp add: pic_get_irq_wins wins_cascade_other)
qed

lemma get_irq_cascade_2: "wins Pic0 k 2 \<Longrightarrow> \<not> bit (last_irr k) 2 \<Longrightarrow> pic_get_irq Pic0 (cascade k) = Some 2"
  by (simp add: pic_get_irq_wins wins_cascade) (simp add: cascade_def bit_simps)

lemma rank_rise [simp]: "rank (rise i k) = rank k"
  by (simp add: rank_def fun_eq_iff)

text \<open>Acknowledging without automatic end of interrupt.\<close>

definition in_service :: "nat \<Rightarrow> kvm_kpic_state \<Rightarrow> kvm_kpic_state" where
  "in_service i k = k\<lparr>isr := set_bit i (isr k), irr := (if bit (elcr k) i then irr k else unset_bit i (irr k))\<rparr>"

lemma in_service_simps [simp]:
  "isr (in_service i k) = set_bit i (isr k)" "imr (in_service i k) = imr k" "elcr (in_service i k) = elcr k"
  "irq_base (in_service i k) = irq_base k" "priority_add (in_service i k) = priority_add k"
  "auto_eoi (in_service i k) = auto_eoi k"
  "special_fully_nested_mode (in_service i k) = special_fully_nested_mode k"
  by (simp_all add: in_service_def)

lemma upd_pic_twice: "upd_pic c f (upd_pic c g s) = upd_pic c (f \<circ> g) s"
  by (simp add: upd_pic_def)

lemma pic_intack_normal: "auto_eoi (pics s c) = 0 \<Longrightarrow> pic_intack ack c i s = upd_pic c (in_service i) s"
  by (simp add: pic_intack_def Let_def upd_pic_def in_service_def fun_eq_iff)

lemma kpic_ok_in_service: "kpic_ok c k \<Longrightarrow> kpic_ok c (in_service i k)"
  by (auto simp: kpic_ok_def in_service_def)

lemma regs_ok_output [simp]: "regs_ok (s\<lparr>pic_output := l\<rparr>) = regs_ok s"
  by (simp add: regs_ok_def)

lemma read_irq_master:
  assumes "regs_ok s" "pic_get_irq Pic0 (pics s Pic0) = Some i" "i \<noteq> 2" "auto_eoi (pics s Pic0) = 0"
  shows "\<exists>s'. kvm_pic_read_irq ack s = (unat (irq_base (pics s Pic0)) + i, s') \<and>
           isr (pics s' Pic0) = set_bit i (isr (pics s Pic0)) \<and> isr (pics s' Pic1) = isr (pics s Pic1) \<and>
           priority_add (pics s' Pic0) = priority_add (pics s Pic0)"
proof -
  let ?s = "upd_pic Pic0 (in_service i) (s\<lparr>pic_output := False\<rparr>)"
  have "regs_ok ?s"
    using assms(1) by (auto intro!: pic_intro kpic_ok_in_service)
  then show ?thesis
    using assms(2-) update_simps(1) [of ?s] by (simp add: kvm_pic_read_irq_def pic_intack_normal)
qed

lemma read_irq_slave:
  assumes "regs_ok s" "pic_get_irq Pic0 (pics s Pic0) = Some 2" "pic_get_irq Pic1 (pics s Pic1) = Some j"
    and "auto_eoi (pics s Pic0) = 0" "auto_eoi (pics s Pic1) = 0"
  shows "\<exists>s'. kvm_pic_read_irq ack s = (unat (irq_base (pics s Pic1)) + j, s') \<and>
           isr (pics s' Pic0) = set_bit 2 (isr (pics s Pic0)) \<and> isr (pics s' Pic1) = set_bit j (isr (pics s Pic1))"
proof -
  let ?s = "upd_pic Pic1 (in_service j) (upd_pic Pic0 (in_service 2) (s\<lparr>pic_output := False\<rparr>))"
  have "regs_ok ?s"
    using assms(1) by (auto intro!: pic_intro kpic_ok_in_service)
  then show ?thesis
    using assms(2-) update_simps(1) [of ?s] by (simp add: kvm_pic_read_irq_def pic_intack_normal)
qed

text \<open>The state after a line went up.\<close>

lemma set_irq_rise:
  assumes "pic_inv s" "irq < 16" "src < 64" "c = pic_number (irq div 8)" "wins c (pics s c) (irq mod 8)"
    and "bit (elcr (pics s c)) (irq mod 8) \<or> \<not> bit (last_irr (pics s c)) (irq mod 8)"
  shows "\<exists>s1. kvm_pic_set_irq irq src True s =
           Inr (if bit (irr (pics s c)) (irq mod 8) then 0 else 1, pic_unlock (pic_update_irq s1)) \<and>
           regs_ok s1 \<and> pics s1 = (pics s)(c := rise (irq mod 8) (pics s c)) \<and> pic_output s1 = pic_output s \<and>
           pic_vcpus s1 = pic_vcpus s"
proof -
  let ?s = "upd_pic c (\<lambda>_. rise (irq mod 8) (pics s c)) (s\<lparr>irq_states := (irq_states s)[irq := set_bit src (irq_states s ! irq)]\<rparr>)"
  have "set_bit src (irq_states s ! irq) \<noteq> 0"
  proof
    assume z: "set_bit src (irq_states s ! irq) = 0"
    have "bit (set_bit src (irq_states s ! irq)) src"
      using assms(3) by (simp add: bit_simps)
    then show False unfolding z by simp
  qed
  moreover have "regs_ok ?s"
    using assms(1) by (simp add: pic_inv_def regs_ok_def kpic_ok_rise)
  moreover have "\<not> bit (imr (pics s c)) (irq mod 8)"
    using assms(5) by (simp add: wins_def)
  ultimately show ?thesis
    using assms(2,3,4) set_irq1_rise [OF assms(6)]
    by (intro exI [of _ ?s]) (simp add: kvm_pic_set_irq_def PIC_NUM_PINS_def kvm_irq_line_state_def Let_def)
qed

text \<open>
  C7. An interrupt finds its way. Let a line go up that is not masked and outranks what is requested and in
  service on its chip, and on the master chip too when it comes from the slave. Then the output goes up,
  a CPU that takes interrupts from the controller is woken if the output was down, and the next
  acknowledgement gets the vector of that line and puts the line in service.
\<close>

theorem pic_delivers:
  assumes "pic_inv s" "irq < 16" "irq \<noteq> 2" "src < 64" "c = pic_number (irq div 8)"
    and "wins c (pics s c) (irq mod 8)" "\<forall>c. auto_eoi (pics s c) = 0"
    and "bit (elcr (pics s c)) (irq mod 8) \<or> \<not> bit (last_irr (pics s c)) (irq mod 8)"
    and "if irq < 8 then pic_get_irq Pic1 (pics s Pic1) = None \<or> rank (pics s Pic0) irq < rank (pics s Pic0) 2
         else wins Pic0 (pics s Pic0) 2 \<and> \<not> bit (last_irr (pics s Pic0)) 2"
  shows "\<exists>ret s1 s2. kvm_pic_set_irq irq src True s = Inr (ret, s1) \<and> pic_output s1 \<and>
           (\<forall>i. first_accepting 0 (pic_vcpus s) = Some i \<and> \<not> pic_output s \<longrightarrow> Kick i \<in> set (pic_events s1)) \<and>
           kvm_pic_read_irq ack s1 = (unat (irq_base (pics s c)) + irq mod 8, s2) \<and>
           bit (isr (pics s2 c)) (irq mod 8)"
proof -
  obtain ret s1 where set: "kvm_pic_set_irq irq src True s = Inr (ret, pic_unlock (pic_update_irq s1))"
    and r: "regs_ok s1" and p: "pics s1 = (pics s)(c := rise (irq mod 8) (pics s c))"
    and o: "pic_output s1 = pic_output s" "pic_vcpus s1 = pic_vcpus s"
    using set_irq_rise [OF assms(1,2,4,5,6,8)] by blast
  let ?t = "pic_unlock (pic_update_irq s1)"
  have rt: "regs_ok ?t" using r by (intro pic_intro)
  have out: "pic_output ?t \<longleftrightarrow> pic_get_irq Pic0 (pics ?t Pic0) \<noteq> None"
    using update_simps(2) [OF r] by simp
  have kick: "\<forall>i. first_accepting 0 (pic_vcpus s) = Some i \<and> \<not> pic_output s \<longrightarrow> Kick i \<in> set (pic_events ?t)"
    using update_simps(3-5) [OF r] o by auto
  have wr: "pic_get_irq c (rise (irq mod 8) (pics s c)) = Some (irq mod 8)"
    using assms(6) by (simp add: pic_get_irq_wins) (simp add: rise_def bit_simps wins_def)
  show ?thesis
  proof (cases "irq < 8")
    case True
    then have c: "c = Pic0" "irq mod 8 = irq" using assms(5) by (simp_all add: pic_number_def)
    have "pic_get_irq Pic0 (pics ?t Pic0) = Some irq"
      using wr True assms(3,9) get_irq_cascade [of "rise irq (pics s Pic0)" irq] update_simps(1) [OF r]
      unfolding p c by auto
    moreover have "auto_eoi (pics ?t Pic0) = 0" "irq_base (pics ?t Pic0) = irq_base (pics s Pic0)"
      using update_simps(1) [OF r] assms(7) unfolding p c by auto
    ultimately obtain s2 where s2: "kvm_pic_read_irq ack ?t = (unat (irq_base (pics s Pic0)) + irq, s2)"
      "isr (pics s2 Pic0) = set_bit irq (isr (pics ?t Pic0))" "pic_output ?t"
      using read_irq_master [OF rt, of irq ack] assms(3) out by auto
    moreover have "bit (isr (pics s2 Pic0)) irq"
      unfolding s2(2) using True by (simp add: bit_set_bit_iff)
    ultimately show ?thesis
      using set kick unfolding c by blast
  next
    case False
    then have c: "c = Pic1" using assms(2,5) by (simp add: pic_number_def div_eq_0_iff)
    have "pic_get_irq Pic0 (pics ?t Pic0) = Some 2" "pic_get_irq Pic1 (pics ?t Pic1) = Some (irq mod 8)"
      using wr False assms(9) get_irq_cascade_2 update_simps(1) [OF r] unfolding p c by auto
    moreover have "auto_eoi (pics ?t a) = 0" "irq_base (pics ?t Pic1) = irq_base (pics s Pic1)" for a
      using update_simps(1) [OF r] assms(7) unfolding p c by (cases a; simp)+
    ultimately obtain s2 where s2: "kvm_pic_read_irq ack ?t = (unat (irq_base (pics s Pic1)) + irq mod 8, s2)"
      "isr (pics s2 Pic1) = set_bit (irq mod 8) (isr (pics ?t Pic1))" "pic_output ?t"
      using read_irq_slave [OF rt, of "irq mod 8" ack] out by auto
    moreover have "bit (isr (pics s2 Pic1)) (irq mod 8)"
      unfolding s2(2) by (simp add: bit_set_bit_iff)
    ultimately show ?thesis
      using set kick unfolding c by blast
  qed
qed

section \<open>Commands of the guest\<close>

text \<open>Notifiers that only move lines: requests may change, nothing else does.\<close>

definition setup_of :: "kvm_kpic_state \<Rightarrow> kvm_kpic_state" where
  "setup_of k = k\<lparr>irr := 0, last_irr := 0\<rparr>"

definition lines_only :: "ack \<Rightarrow> bool" where
  "lines_only ack \<longleftrightarrow> (\<forall>irq s c. setup_of (pics (ack irq s) c) = setup_of (pics s c))"

definition pic_port :: "chip \<Rightarrow> u64" where
  "pic_port c = (case c of Pic0 \<Rightarrow> 0x20 | Pic1 \<Rightarrow> 0xa0)"

lemma setup_fields:
  assumes "setup_of k = setup_of k'"
  shows "isr k = isr k'" "imr k = imr k'" "init_state k = init_state k'" "init4 k = init4 k'"
    "auto_eoi k = auto_eoi k'" "special_fully_nested_mode k = special_fully_nested_mode k'"
    "priority_add k = priority_add k'" "irq_base k = irq_base k'"
  using arg_cong [OF assms, of isr] arg_cong [OF assms, of imr] arg_cong [OF assms, of init_state]
    arg_cong [OF assms, of init4] arg_cong [OF assms, of auto_eoi] arg_cong [OF assms, of priority_add]
    arg_cong [OF assms, of special_fully_nested_mode] arg_cong [OF assms, of irq_base]
  by (simp_all add: setup_of_def)

lemma setup_poll:
  assumes "setup_of k = setup_of k'"
  shows "poll k = poll k'"
  using arg_cong [OF assms, of poll] by (simp add: setup_of_def)

lemma fold_pics: "(\<And>i s. pics (f i s) = pics s) \<Longrightarrow> pics (fold f xs s) = pics s"
  by (induction xs arbitrary: s) simp_all

lemma setup_set_irq1: "setup_of (snd (pic_set_irq1 i l k)) = setup_of k"
  by (simp add: pic_set_irq1_def setup_of_def)

lemma setup_update: "setup_of (pics (pic_update_irq s) c) = setup_of (pics s c)"
  by (simp add: pic_update_irq_def pic_irq_request_def Let_def setup_set_irq1)

lemma setup_clear_isr:
  "lines_only ack \<Longrightarrow> setup_of (pics (pic_clear_isr ack c i s) d) =
     (if d = c then setup_of ((pics s c)\<lparr>isr := unset_bit i (isr (pics s c))\<rparr>) else setup_of (pics s d))"
  by (simp add: pic_clear_isr_def Let_def lines_only_def)

lemma port_write:
  "picdev_write ack (pic_port c) 1 d s = (0, pic_unlock (pic_ioport_write ack c (ucast (pic_port c)) (ucast d) s))"
  "picdev_write ack (pic_port c + 1) 1 d s = (0, pic_unlock (write_odd c (ucast d) s))"
  by (cases c; simp add: picdev_write_def picdev_in_range_def pic_port_def pic_number_def pic_ioport_write_def)+

lemma eoi_command:
  "snd (picdev_write ack (pic_port c) 1 0x20 s) =
     pic_unlock (let p = get_priority (pics s c) (isr (pics s c))
       in if p \<noteq> 8 then pic_update_irq (pic_clear_isr ack c ((p + unat (priority_add (pics s c))) mod 8) s) else s)"
  unfolding port_write pic_ioport_write_def by (cases c) (simp_all add: pic_port_def write_ocw2_def Let_def)


text \<open>Initialisation also clears lines in service.\<close>

definition config :: "kvm_kpic_state \<Rightarrow> kvm_kpic_state" where
  "config k = (setup_of k)\<lparr>isr := 0\<rparr>"

lemma config_fields:
  assumes "config k = config k'"
  shows "imr k = imr k'" "init_state k = init_state k'" "init4 k = init4 k'" "priority_add k = priority_add k'"
  using arg_cong [OF assms, of imr] arg_cong [OF assms, of init_state]
    arg_cong [OF assms, of init4] arg_cong [OF assms, of priority_add]
  by (simp_all add: config_def setup_of_def)

lemma config_clear_isr: "lines_only ack \<Longrightarrow> config (pics (pic_clear_isr ack c i s) d) = config (pics s d)"
  by (simp add: config_def setup_clear_isr) (simp add: setup_of_def)

lemma config_fold_clear:
  "lines_only ack \<Longrightarrow>
     config (pics (fold (\<lambda>i s. if P i then pic_clear_isr ack c i s else s) xs s) d) = config (pics s d)"
  by (induction xs arbitrary: s) (simp_all add: config_clear_isr)

lemma config_reset:
  "lines_only ack \<Longrightarrow> config (pics (kvm_pic_reset ack c s) c) =
     config ((pics s c)\<lparr>imr := 0, priority_add := 0, special_mask := 0, read_reg_select := 0, init_state := 1,
       special_fully_nested_mode := (if init4 (pics s c) = 0 then 0 else special_fully_nested_mode (pics s c)),
       auto_eoi := (if init4 (pics s c) = 0 then 0 else auto_eoi (pics s c))\<rparr>)"
  by (simp add: kvm_pic_reset_def Let_def config_fold_clear) (simp add: config_def setup_of_def)

lemma odd_write:
  "init_state (pics s c) = 1 \<Longrightarrow>
     write_odd c val s = upd_pic c (\<lambda>k. k\<lparr>irq_base := ucast (val AND 0xf8), init_state := 2\<rparr>) s"
  "init_state (pics s c) = 2 \<Longrightarrow> init4 (pics s c) = 1 \<Longrightarrow>
     write_odd c val s = upd_pic c (\<lambda>k. k\<lparr>init_state := (if init4 k \<noteq> 0 then 3 else 0)\<rparr>) s"
  "init_state (pics s c) = 3 \<Longrightarrow>
     write_odd c val s = upd_pic c (\<lambda>k. k\<lparr>special_fully_nested_mode := ucast (drop_bit 4 val AND 1),
                                          auto_eoi := ucast (drop_bit 1 val AND 1), init_state := 0\<rparr>) s"
  by (simp_all add: write_odd_def)

text \<open>
  C31. The initialisation sequence, four command words with the first asking for the fourth: afterwards the
  chip is in normal operation with all lines unmasked and unrotated priorities, its vector base is the
  second word without the low three bits, and the modes are the bits of the fourth word.
\<close>

theorem pic_initialisation:
  assumes "lines_only ack"
  shows "let w = (\<lambda>a d s. snd (picdev_write ack a 1 d s));
             k = pics (w (pic_port c + 1) icw4 (w (pic_port c + 1) icw3 (w (pic_port c + 1) icw2 (w (pic_port c) 0x11 s)))) c
         in init_state k = 0 \<and> irq_base k = icw2 AND 0xf8 \<and> imr k = 0 \<and> priority_add k = 0 \<and>
            auto_eoi k = of_bool (bit icw4 1) \<and> special_fully_nested_mode k = of_bool (bit icw4 4)"
proof -
  let ?s1 = "kvm_pic_reset ack c (upd_pic c (\<lambda>k. k\<lparr>init4 := 1\<rparr>) s)"
  have w1: "snd (picdev_write ack (pic_port c) 1 0x11 s) = pic_unlock ?s1"
    unfolding port_write pic_ioport_write_def by (cases c) (simp_all add: pic_port_def)
  have s1: "init_state (pics ?s1 c) = 1" "init4 (pics ?s1 c) = 1" "imr (pics ?s1 c) = 0" "priority_add (pics ?s1 c) = 0"
    using config_fields [OF config_reset [OF assms(1), of c "upd_pic c (\<lambda>k. k\<lparr>init4 := 1\<rparr>) s"]] by simp_all
  have base: "(ucast (ucast icw2 AND 0xf8 :: u32) :: u8) = icw2 AND 0xf8"
    by (simp add: ucast_and_u8)
  have mode: "(ucast (drop_bit n (ucast icw4) AND 1 :: u32) :: u8) = of_bool (bit icw4 n)" if "n < 8" for n
    using that by (intro bit_word_eqI) (auto simp: bit_simps)
  let ?t1 = "pic_unlock ?s1"
  have e1: "write_odd c (ucast icw2) ?t1 = upd_pic c (\<lambda>k. k\<lparr>irq_base := icw2 AND 0xf8, init_state := 2\<rparr>) ?t1" (is "_ = ?t2")
    using odd_write(1) [of ?t1 c "ucast icw2"] s1(1) unfolding base by simp
  have e2: "write_odd c (ucast icw3) (pic_unlock ?t2) = upd_pic c (\<lambda>k. k\<lparr>init_state := (if init4 k \<noteq> 0 then 3 else 0)\<rparr>) (pic_unlock ?t2)"
    (is "_ = ?t3")
    using s1(2) by (intro odd_write(2)) simp_all
  have e3: "write_odd c (ucast icw4) (pic_unlock ?t3) = upd_pic c (\<lambda>k. k\<lparr>special_fully_nested_mode := of_bool (bit icw4 4),
      auto_eoi := of_bool (bit icw4 1), init_state := 0\<rparr>) (pic_unlock ?t3)"
    using odd_write(3) [of "pic_unlock ?t3" c "ucast icw4"] s1(2) mode [of 1] mode [of 4] by simp
  show ?thesis
    unfolding Let_def w1 port_write(2) snd_conv e1 e2 e3 using s1(3,4) by simp
qed

text \<open>
  What the guest writes to the mask register or to the register of level triggered lines it reads back,
  the latter without the lines that are always edge triggered.
\<close>

theorem pic_registers_roundtrip:
  assumes "init_state (pics s c) = 0" "poll (pics s c) = 0"
  shows "fst (snd (picdev_read ack (pic_port c + 1) 1 (snd (picdev_write ack (pic_port c + 1) 1 d s)))) = Some d \<and>
         (let a = (case c of Pic0 \<Rightarrow> 0x4d0 | Pic1 \<Rightarrow> 0x4d1)
          in fst (snd (picdev_read ack a 1 (snd (picdev_write ack a 1 d s)))) = Some (d AND elcr_mask (pics s c)))"
proof -
  let ?s = "write_imr c (ucast d) s"
  have "setup_of (pics ?s c) = setup_of ((pics s c)\<lparr>imr := d\<rparr>)"
    unfolding write_imr_def Let_def setup_update by (subst fold_pics) simp_all
  then have "imr (pics ?s c) = d" "poll (pics ?s c) = 0"
    using setup_fields(2) [of "pics ?s c"] setup_poll [of "pics ?s c"] assms(2) by fastforce+
  then show ?thesis
    using assms(1)
    by (cases c) (simp_all add: port_write write_odd_def picdev_read_def picdev_write_def picdev_in_range_def pic_port_def
      pic_number_def pic_ioport_read_def pic_ioport_write_def elcr_ioport_read_def elcr_ioport_write_def)
qed

section \<open>Sample runs\<close>

text \<open>A controller with one CPU whose local controller lets it through, and notifiers that do nothing.\<close>

definition sample_vcpu :: pic_vcpu where
  "sample_vcpu = \<lparr>apic_hw_enabled = True, apic_lvt0 = 0x700\<rparr>"

definition no_ack :: ack where
  "no_ack irq s = s"

lemma no_ack_ok: "ack_ok no_ack" "lines_only no_ack"
  by (simp_all add: ack_ok_def lines_only_def no_ack_def)

lemma new_pic_fields [simp]:
  "irr (pics (new_pic v) c) = 0" "isr (pics (new_pic v) c) = 0" "imr (pics (new_pic v) c) = 0"
  "last_irr (pics (new_pic v) c) = 0" "auto_eoi (pics (new_pic v) c) = 0" "irq_base (pics (new_pic v) c) = 0"
  "elcr (pics (new_pic v) c) = 0" "priority_add (pics (new_pic v) c) = 0" "init_state (pics (new_pic v) c) = 0"
  "poll (pics (new_pic v) c) = 0" "special_fully_nested_mode (pics (new_pic v) c) = 0"
  "pic_vcpus (new_pic v) = v" "\<not> pic_output (new_pic v)"
  by (simp_all add: new_pic_def zero_kpic_def)

lemma wins_new_pic: "i < 8 \<Longrightarrow> wins c (pics (new_pic v) c) i"
  by (simp add: wins_def requested_def serviced_def)

lemma get_irq_new_pic: "pic_get_irq c (pics (new_pic v) c) = None"
  by (simp add: pic_get_irq_def get_priority_def)

theorem pic_priority_rule_witness:
  "pic_get_irq Pic0 (rise 1 (pics (new_pic []) Pic0)) = Some 1 \<and> bit (irr (rise 1 (pics (new_pic []) Pic0))) 1"
proof -
  have "bit (irr (rise 1 (pics (new_pic []) Pic0))) 1"
    by (simp add: rise_def)
  then have "pic_get_irq Pic0 (rise 1 (pics (new_pic []) Pic0)) = Some 1"
    using wins_new_pic [of 1 Pic0 "[]"] by (simp add: pic_get_irq_wins del: One_nat_def)
  then show ?thesis
    using pic_priority_rule [of "rise 1 (pics (new_pic []) Pic0)" Pic0] by simp
qed


theorem pic_delivers_witness:
  "\<exists>ret s1 s2. kvm_pic_set_irq 12 0 True (new_pic [sample_vcpu]) = Inr (ret, s1) \<and> pic_output s1 \<and>
     (\<forall>i. first_accepting 0 [sample_vcpu] = Some i \<longrightarrow> Kick i \<in> set (pic_events s1)) \<and>
     kvm_pic_read_irq no_ack s1 = (4, s2) \<and> bit (isr (pics s2 Pic1)) 4"
  using pic_delivers [of "new_pic [sample_vcpu]" 12 0 Pic1 no_ack]
  by (simp add: new_pic_inv wins_new_pic pic_number_def)


theorem pic_initialisation_witness:
  "let w = (\<lambda>a d s. snd (picdev_write no_ack a 1 d s));
       k = pics (w (pic_port Pic1 + 1) 1 (w (pic_port Pic1 + 1) 2 (w (pic_port Pic1 + 1) 0x77 (w (pic_port Pic1) 0x11 (new_pic []))))) Pic1
   in init_state k = 0 \<and> irq_base k = 0x77 AND 0xf8 \<and> imr k = 0 \<and> priority_add k = 0 \<and>
      auto_eoi k = of_bool (bit (1 :: u8) 1) \<and> special_fully_nested_mode k = of_bool (bit (1 :: u8) 4)"
  by (rule pic_initialisation [OF no_ack_ok(2)])

theorem pic_registers_roundtrip_witness:
  "fst (snd (picdev_read no_ack (pic_port Pic0 + 1) 1 (snd (picdev_write no_ack (pic_port Pic0 + 1) 1 0xfb (new_pic []))))) = Some 0xfb"
  by (rule conjunct1 [OF pic_registers_roundtrip]) simp_all

end
