(* ===== verification/IoBus.thy ===== *)
theory IoBus
  imports Pic "HOL-Library.Multiset"
begin

text \<open>
  The buses on which the kernel's devices sit, of \<open>x86/kvm_main.c\<close>, and the interrupt controller's place
  on the port bus, of \<open>x86/i8259.c\<close>. A bus is an array of address ranges kept sorted; an access is given
  to the devices whose range covers it, found by binary search, until one takes it. It is proved that
  this is a scan of the whole array, that registering keeps the array in order, and that port
  accesses of the guest reach the controller.

  The kernel's \<open>sort\<close> and \<open>bsearch\<close> are parameters with their contracts, allocation is a parameter that
  says whether it succeeds. The bus is replaced as a whole under RCU, so that readers see the old or
  the new one; freeing and \<open>kvm_io_bus_destroy\<close> are left out.
\<close>

section \<open>Ranges\<close>

text \<open>An address range is a pair of start and length.\<close>

record 'd kvm_io_range =
  io_range :: "u64 \<times> int"
  io_dev :: 'd

record 'd kvm_io_bus =
  ioeventfd_count :: int
  ranges :: "'d kvm_io_range list"

definition NR_IOBUS_DEVS :: int where
  "NR_IOBUS_DEVS = 1000"

definition ENOENT :: int where
  "ENOENT = 2"

definition ENOMEM :: int where
  "ENOMEM = 12"

definition ENOSPC :: int where
  "ENOSPC = 28"

definition kvm_io_bus_cmp :: "u64 \<times> int \<Rightarrow> u64 \<times> int \<Rightarrow> int" where
  "kvm_io_bus_cmp r1 r2 =
     (if fst r1 < fst r2 then -1
      else if fst r2 + of_int (snd r2) < fst r1 + of_int (snd r1) then 1
      else 0)"

definition kvm_io_bus_sort_cmp :: "'d kvm_io_range \<Rightarrow> 'd kvm_io_range \<Rightarrow> int" where
  "kvm_io_bus_sort_cmp p1 p2 = kvm_io_bus_cmp (io_range p1) (io_range p2)"

text \<open>The library routines of the kernel.\<close>

record 'd bus_env =
  bus_sort :: "('d kvm_io_range \<Rightarrow> 'd kvm_io_range \<Rightarrow> int) \<Rightarrow> 'd kvm_io_range list \<Rightarrow> 'd kvm_io_range list"
  bsearch :: "u64 \<times> int \<Rightarrow> 'd kvm_io_range list \<Rightarrow> (u64 \<times> int \<Rightarrow> 'd kvm_io_range \<Rightarrow> int) \<Rightarrow> nat option"

section \<open>Registering devices\<close>

definition kvm_io_bus_insert_dev :: "'d bus_env \<Rightarrow> 'd \<Rightarrow> u64 \<Rightarrow> int \<Rightarrow> 'd kvm_io_bus \<Rightarrow> 'd kvm_io_bus" where
  "kvm_io_bus_insert_dev env dev addr len bus =
     bus\<lparr>ranges := bus_sort env kvm_io_bus_sort_cmp (ranges bus @ [\<lparr>io_range = (addr, len), io_dev = dev\<rparr>])\<rparr>"

definition kvm_io_bus_register_dev ::
  "'d bus_env \<Rightarrow> bool \<Rightarrow> u64 \<Rightarrow> int \<Rightarrow> 'd \<Rightarrow> 'd kvm_io_bus \<Rightarrow> int \<times> 'd kvm_io_bus" where
  "kvm_io_bus_register_dev env alloc addr len dev bus =
     (if NR_IOBUS_DEVS - 1 < int (length (ranges bus)) - ioeventfd_count bus then (- ENOSPC, bus)
      else if \<not> alloc then (- ENOMEM, bus)
      else (0, kvm_io_bus_insert_dev env dev addr len bus))"

fun dev_index :: "'d \<Rightarrow> 'd kvm_io_range list \<Rightarrow> nat option" where
  "dev_index dev [] = None"
| "dev_index dev (r # rs) = (if io_dev r = dev then Some 0 else map_option Suc (dev_index dev rs))"

definition kvm_io_bus_unregister_dev :: "bool \<Rightarrow> 'd \<Rightarrow> 'd kvm_io_bus \<Rightarrow> int \<times> 'd kvm_io_bus" where
  "kvm_io_bus_unregister_dev alloc dev bus =
     (case dev_index dev (ranges bus) of
        None \<Rightarrow> (- ENOENT, bus)
      | Some i \<Rightarrow>
          if \<not> alloc then (- ENOMEM, bus)
          else (0, bus\<lparr>ranges := take i (ranges bus) @ drop (i + 1) (ranges bus)\<rparr>))"

section \<open>Access\<close>

primrec first_dev :: "u64 \<times> int \<Rightarrow> 'd kvm_io_range list \<Rightarrow> nat \<Rightarrow> nat" where
  "first_dev key rs 0 = 0"
| "first_dev key rs (Suc off) =
     (if kvm_io_bus_cmp key (io_range (rs ! off)) = 0 then first_dev key rs off else Suc off)"

definition kvm_io_bus_get_first_dev :: "'d bus_env \<Rightarrow> 'd kvm_io_bus \<Rightarrow> u64 \<Rightarrow> int \<Rightarrow> nat option" where
  "kvm_io_bus_get_first_dev env bus addr len =
     (case bsearch env (addr, len) (ranges bus) (\<lambda>key r. kvm_io_bus_cmp key (io_range r)) of
        None \<Rightarrow> None
      | Some off \<Rightarrow> Some (first_dev (addr, len) (ranges bus) off))"

text \<open>
  The loop over the devices from index \<open>idx\<close> on; \<open>op\<close> is the access to one device, which changes the state
  and says with 0 that it was taken. The result is the index of the device that took it.
\<close>

fun try_devs ::
  "('d \<Rightarrow> 's \<Rightarrow> int \<times> 's) \<Rightarrow> u64 \<times> int \<Rightarrow> nat \<Rightarrow> 'd kvm_io_range list \<Rightarrow> 's \<Rightarrow> int \<times> 's" where
  "try_devs op key idx [] s = (- EOPNOTSUPP, s)"
| "try_devs op key idx (r # rs) s =
     (if kvm_io_bus_cmp key (io_range r) \<noteq> 0 then (- EOPNOTSUPP, s)
      else case op (io_dev r) s of (ret, s) \<Rightarrow>
        if ret = 0 then (int idx, s) else try_devs op key (Suc idx) rs s)"

text \<open>\<open>__kvm_io_bus_write\<close>, and \<open>__kvm_io_bus_read\<close>, which differs in the access only.\<close>

definition io_bus_access ::
  "'d bus_env \<Rightarrow> ('d \<Rightarrow> 's \<Rightarrow> int \<times> 's) \<Rightarrow> 'd kvm_io_bus \<Rightarrow> u64 \<Rightarrow> int \<Rightarrow> 's \<Rightarrow> int \<times> 's" where
  "io_bus_access env op bus addr len s =
     (case kvm_io_bus_get_first_dev env bus addr len of
        None \<Rightarrow> (- EOPNOTSUPP, s)
      | Some idx \<Rightarrow> try_devs op (addr, len) idx (drop idx (ranges bus)) s)"

definition kvm_io_bus_write ::
  "'d bus_env \<Rightarrow> ('d \<Rightarrow> u64 \<Rightarrow> int \<Rightarrow> 'v \<Rightarrow> 's \<Rightarrow> int \<times> 's) \<Rightarrow> 'd kvm_io_bus \<Rightarrow> u64 \<Rightarrow> int \<Rightarrow> 'v \<Rightarrow> 's \<Rightarrow> int \<times> 's" where
  "kvm_io_bus_write env dev_write bus addr len val s =
     (case io_bus_access env (\<lambda>d. dev_write d addr len val) bus addr len s of
        (r, s) \<Rightarrow> (if r < 0 then r else 0, s))"

text \<open>With a guess at the device, from an earlier access.\<close>

definition kvm_io_bus_write_cookie ::
  "'d bus_env \<Rightarrow> ('d \<Rightarrow> u64 \<Rightarrow> int \<Rightarrow> 'v \<Rightarrow> 's \<Rightarrow> int \<times> 's) \<Rightarrow> 'd kvm_io_bus \<Rightarrow> u64 \<Rightarrow> int \<Rightarrow> 'v \<Rightarrow> int \<Rightarrow> 's \<Rightarrow> int \<times> 's" where
  "kvm_io_bus_write_cookie env dev_write bus addr len val cookie s =
     (if 0 \<le> cookie \<and> cookie < int (length (ranges bus)) \<and>
         kvm_io_bus_cmp (addr, len) (io_range (ranges bus ! nat cookie)) = 0 then
        case dev_write (io_dev (ranges bus ! nat cookie)) addr len val s of (ret, s) \<Rightarrow>
          if ret = 0 then (cookie, s)
          else io_bus_access env (\<lambda>d. dev_write d addr len val) bus addr len s
      else io_bus_access env (\<lambda>d. dev_write d addr len val) bus addr len s)"

text \<open>A read carries the value read so far in the state.\<close>

definition kvm_io_bus_read ::
  "'d bus_env \<Rightarrow> ('d \<Rightarrow> u64 \<Rightarrow> int \<Rightarrow> 'v \<times> 's \<Rightarrow> int \<times> 'v \<times> 's) \<Rightarrow> 'd kvm_io_bus \<Rightarrow> u64 \<Rightarrow> int \<Rightarrow> 'v \<times> 's \<Rightarrow> int \<times> 'v \<times> 's" where
  "kvm_io_bus_read env dev_read bus addr len s =
     (case io_bus_access env (\<lambda>d. dev_read d addr len) bus addr len s of
        (r, s) \<Rightarrow> (if r < 0 then r else 0, s))"

section \<open>The interrupt controller on the port bus\<close>

datatype port_dev = PicMaster | PicSlave | PicEclr | OtherDev nat

text \<open>The operations of the controller's three devices, and those of the others as a parameter.\<close>

definition port_write ::
  "ack \<Rightarrow> (nat \<Rightarrow> u64 \<Rightarrow> int \<Rightarrow> u8 \<Rightarrow> kvm_pic \<Rightarrow> int \<times> kvm_pic) \<Rightarrow> port_dev \<Rightarrow> u64 \<Rightarrow> int \<Rightarrow> u8 \<Rightarrow> kvm_pic \<Rightarrow> int \<times> kvm_pic" where
  "port_write ack other d addr len val s =
     (case d of OtherDev n \<Rightarrow> other n addr len val s | _ \<Rightarrow> picdev_write ack addr len val s)"

text \<open>
  \<open>kvm_create_pic\<close>: \<open>allocs\<close> says which of the allocations succeed, that of the controller, those of three
  registrations and those of two roll-backs. The result is the controller, if there is one, and the bus.
\<close>

definition kvm_create_pic ::
  "port_dev bus_env \<Rightarrow> (nat \<Rightarrow> bool) \<Rightarrow> pic_vcpu list \<Rightarrow> port_dev kvm_io_bus \<Rightarrow> kvm_pic option \<times> port_dev kvm_io_bus" where
  "kvm_create_pic env allocs vcpus bus =
     (if \<not> allocs 0 then (None, bus)
      else case kvm_io_bus_register_dev env (allocs 1) 0x20 2 PicMaster bus of (ret, bus) \<Rightarrow>
        if ret < 0 then (None, bus)
        else case kvm_io_bus_register_dev env (allocs 2) 0xa0 2 PicSlave bus of (ret, bus) \<Rightarrow>
          if ret < 0 then (None, snd (kvm_io_bus_unregister_dev (allocs 5) PicMaster bus))
          else case kvm_io_bus_register_dev env (allocs 3) 0x4d0 2 PicEclr bus of (ret, bus) \<Rightarrow>
            if ret < 0 then
              let bus = snd (kvm_io_bus_unregister_dev (allocs 4) PicSlave bus)
              in (None, snd (kvm_io_bus_unregister_dev (allocs 5) PicMaster bus))
            else (Some (new_pic vcpus), bus))"

definition kvm_destroy_pic ::
  "(nat \<Rightarrow> bool) \<Rightarrow> kvm_pic option \<Rightarrow> port_dev kvm_io_bus \<Rightarrow> kvm_pic option \<times> port_dev kvm_io_bus" where
  "kvm_destroy_pic allocs vpic bus =
     (case vpic of
        None \<Rightarrow> (None, bus)
      | Some _ \<Rightarrow>
          let bus = snd (kvm_io_bus_unregister_dev (allocs 0) PicMaster bus);
              bus = snd (kvm_io_bus_unregister_dev (allocs 1) PicSlave bus);
              bus = snd (kvm_io_bus_unregister_dev (allocs 2) PicEclr bus)
          in (None, bus))"

section \<open>Order of the array\<close>

definition io_start :: "u64 \<times> int \<Rightarrow> nat" where
  "io_start r = unat (fst r)"

definition io_end :: "u64 \<times> int \<Rightarrow> nat" where
  "io_end r = unat (fst r) + nat (snd r)"

text \<open>A range is not empty and does not wrap around.\<close>

definition range_ok :: "u64 \<times> int \<Rightarrow> bool" where
  "range_ok r \<longleftrightarrow> 0 < snd r \<and> snd r < 2 ^ 31 \<and> io_end r < 2 ^ 64"

text \<open>Ranges on a bus are disjoint or the same, as those of event descriptors on one port are.\<close>

definition compatible :: "u64 \<times> int \<Rightarrow> u64 \<times> int \<Rightarrow> bool" where
  "compatible r1 r2 \<longleftrightarrow> r1 = r2 \<or> io_end r1 \<le> io_start r2 \<or> io_end r2 \<le> io_start r1"

definition covers :: "u64 \<times> int \<Rightarrow> u64 \<times> int \<Rightarrow> bool" where
  "covers r key \<longleftrightarrow> io_start r \<le> io_start key \<and> io_end key \<le> io_end r"

definition bus_set_ok :: "'d kvm_io_range list \<Rightarrow> bool" where
  "bus_set_ok rs \<longleftrightarrow> (\<forall>r\<in>set rs. range_ok (io_range r)) \<and>
     (\<forall>r\<in>set rs. \<forall>t\<in>set rs. compatible (io_range r) (io_range t))"

definition bus_ok :: "'d kvm_io_bus \<Rightarrow> bool" where
  "bus_ok bus \<longleftrightarrow> bus_set_ok (ranges bus) \<and>
     sorted_wrt (\<lambda>r t. io_start (io_range r) \<le> io_start (io_range t)) (ranges bus)"

text \<open>
  What the kernel promises: \<open>sort\<close> permutes, and sorts when the comparison is a total preorder on the
  elements; \<open>bsearch\<close> finds an equal element of an array sorted with respect to the key.
\<close>

definition preorder_on :: "('a \<Rightarrow> 'a \<Rightarrow> int) \<Rightarrow> 'a set \<Rightarrow> bool" where
  "preorder_on cmp A \<longleftrightarrow>
     (\<forall>x\<in>A. \<forall>y\<in>A. cmp x y \<le> 0 \<or> cmp y x \<le> 0) \<and>
     (\<forall>x\<in>A. \<forall>y\<in>A. \<forall>z\<in>A. cmp x y \<le> 0 \<and> cmp y z \<le> 0 \<longrightarrow> cmp x z \<le> 0)"

definition key_sorted :: "('k \<Rightarrow> 'a \<Rightarrow> int) \<Rightarrow> 'k \<Rightarrow> 'a list \<Rightarrow> bool" where
  "key_sorted cmp key xs \<longleftrightarrow>
     sorted_wrt (\<lambda>x y. (0 < cmp key y \<longrightarrow> 0 < cmp key x) \<and> (cmp key x < 0 \<longrightarrow> cmp key y < 0)) xs"

definition bus_env_ok :: "'d bus_env \<Rightarrow> bool" where
  "bus_env_ok env \<longleftrightarrow>
     (\<forall>cmp xs. mset (bus_sort env cmp xs) = mset xs \<and>
        (preorder_on cmp (set xs) \<longrightarrow> sorted_wrt (\<lambda>x y. cmp x y \<le> 0) (bus_sort env cmp xs))) \<and>
     (\<forall>key xs cmp. key_sorted cmp key xs \<longrightarrow>
        (case bsearch env key xs cmp of
           Some i \<Rightarrow> i < length xs \<and> cmp key (xs ! i) = 0
         | None \<Rightarrow> \<forall>x\<in>set xs. cmp key x \<noteq> 0))"

lemma unat_range_end: "range_ok r \<Longrightarrow> unat (fst r + of_int (snd r)) = io_end r"
proof -
  assume r: "range_ok r"
  then obtain n where n: "snd r = int n"
    by (metis nonneg_int_cases less_imp_le range_ok_def)
  have "unat (of_nat n :: u64) = n"
    using r n by (simp add: range_ok_def unat_of_nat take_bit_nat_eq_self)
  then show ?thesis
    using r n unat_add_small_u64 [of "fst r" "of_nat n"] by (simp add: range_ok_def io_end_def)
qed

lemma cmp_nat:
  "range_ok r1 \<Longrightarrow> range_ok r2 \<Longrightarrow> kvm_io_bus_cmp r1 r2 =
     (if io_start r1 < io_start r2 then -1 else if io_end r2 < io_end r1 then 1 else 0)"
  by (simp add: kvm_io_bus_cmp_def io_start_def word_less_nat_alt unat_range_end)

lemma cmp_zero: "range_ok key \<Longrightarrow> range_ok r \<Longrightarrow> kvm_io_bus_cmp key r = 0 \<longleftrightarrow> covers r key"
  by (auto simp: cmp_nat covers_def)

lemma range_nonempty: "range_ok r \<Longrightarrow> io_start r < io_end r"
  by (simp add: range_ok_def io_start_def io_end_def)

lemma cmp_compatible:
  "range_ok r1 \<Longrightarrow> range_ok r2 \<Longrightarrow> compatible r1 r2 \<Longrightarrow> kvm_io_bus_cmp r1 r2 \<le> 0 \<longleftrightarrow> io_start r1 \<le> io_start r2"
  using range_nonempty [of r1] range_nonempty [of r2] by (auto simp: cmp_nat compatible_def)

lemma preorder_on_bus: "bus_set_ok rs \<Longrightarrow> preorder_on kvm_io_bus_sort_cmp (set rs)"
  unfolding preorder_on_def bus_set_ok_def kvm_io_bus_sort_cmp_def
  by (simp add: cmp_compatible) (meson linear order_trans)

lemma insert_dev_ok:
  fixes d :: 'd
  assumes "bus_env_ok env" "bus_ok bus" "range_ok (addr, len)"
    and "\<forall>r\<in>set (ranges bus). compatible (io_range r) (addr, len)"
  defines "r \<equiv> \<lparr>io_range = (addr, len), io_dev = d\<rparr>"
  shows "bus_ok (kvm_io_bus_insert_dev env d addr len bus)"
    and "mset (ranges (kvm_io_bus_insert_dev env d addr len bus)) = add_mset r (mset (ranges bus))"
proof -
  let ?xs = "ranges bus @ [r]"
  let ?ys = "bus_sort env kvm_io_bus_sort_cmp ?xs"
  have sym: "compatible a b \<longleftrightarrow> compatible b a" for a b
    by (auto simp: compatible_def)
  have ok: "bus_set_ok ?xs"
    using assms(2-4) sym by (auto simp: bus_ok_def bus_set_ok_def r_def) (auto simp: compatible_def)
  have m: "mset ?ys = mset ?xs" and s: "sorted_wrt (\<lambda>x y. kvm_io_bus_sort_cmp x y \<le> 0) ?ys"
    using assms(1) preorder_on_bus [OF ok] by (auto simp: bus_env_ok_def)
  have st: "set ?ys = set ?xs" using m by (metis set_mset_mset)
  then have ok': "bus_set_ok ?ys" using ok by (simp add: bus_set_ok_def)
  have "sorted_wrt (\<lambda>x y. io_start (io_range x) \<le> io_start (io_range y)) ?ys"
    using ok' by (intro sorted_wrt_mono_rel [OF _ s]) (auto simp: bus_set_ok_def kvm_io_bus_sort_cmp_def cmp_compatible)
  then show "bus_ok (kvm_io_bus_insert_dev env d addr len bus)"
    using ok' by (simp add: bus_ok_def kvm_io_bus_insert_dev_def r_def)
  show "mset (ranges (kvm_io_bus_insert_dev env d addr len bus)) = add_mset r (mset (ranges bus))"
    using m by (simp add: kvm_io_bus_insert_dev_def r_def)
qed

section \<open>An access is a scan of the bus\<close>

text \<open>The reference: offer the access to each covering device in turn.\<close>

fun offer :: "('d \<Rightarrow> 's \<Rightarrow> int \<times> 's) \<Rightarrow> (nat \<times> 'd kvm_io_range) list \<Rightarrow> 's \<Rightarrow> int \<times> 's" where
  "offer op [] s = (- EOPNOTSUPP, s)"
| "offer op ((i, r) # rs) s = (case op (io_dev r) s of (ret, s) \<Rightarrow> if ret = 0 then (int i, s) else offer op rs s)"

definition covering :: "'d kvm_io_bus \<Rightarrow> u64 \<Rightarrow> int \<Rightarrow> (nat \<times> 'd kvm_io_range) list" where
  "covering bus addr len = filter (\<lambda>(i, r). covers (io_range r) (addr, len)) (enumerate 0 (ranges bus))"

lemma bus_key_sorted:
  assumes "bus_ok bus" "range_ok key"
  shows "key_sorted (\<lambda>key r. kvm_io_bus_cmp key (io_range r)) key (ranges bus)"
  unfolding key_sorted_def
proof (rule sorted_wrt_mono_rel)
  show "sorted_wrt (\<lambda>r t. io_start (io_range r) \<le> io_start (io_range t)) (ranges bus)"
    using assms(1) by (simp add: bus_ok_def)
next
  fix x y assume xy: "x \<in> set (ranges bus)" "y \<in> set (ranges bus)" "io_start (io_range x) \<le> io_start (io_range y)"
  then have "range_ok (io_range x)" "range_ok (io_range y)" "compatible (io_range x) (io_range y)"
    using assms(1) by (auto simp: bus_ok_def bus_set_ok_def)
  then show "(0 < kvm_io_bus_cmp key (io_range y) \<longrightarrow> 0 < kvm_io_bus_cmp key (io_range x)) \<and>
      (kvm_io_bus_cmp key (io_range x) < 0 \<longrightarrow> kvm_io_bus_cmp key (io_range y) < 0)"
    using xy(3) assms(2) range_nonempty [of "io_range x"] range_nonempty [of "io_range y"]
    by (auto simp: cmp_nat compatible_def)
qed

lemma filter_takeWhile:
  "(\<And>i j. i \<le> j \<Longrightarrow> j < length xs \<Longrightarrow> P (xs ! j) \<Longrightarrow> P (xs ! i)) \<Longrightarrow> filter P xs = takeWhile P xs"
proof (induction xs)
  case (Cons x xs)
  show ?case
  proof (cases "P x")
    case True
    then show ?thesis
      using Cons.IH Cons.prems [of "Suc _" "Suc _"] by simp
  next
    case False
    then have "\<not> P y" if "y \<in> set xs" for y
      using that Cons.prems [of 0 "Suc _"] by (auto simp: in_set_conv_nth)
    then show ?thesis using False by simp
  qed
qed simp

lemma drop_enumerate_add: "drop n (enumerate m xs) = enumerate (m + n) (drop n xs)"
proof (induction xs arbitrary: m n)
  case (Cons x xs)
  then show ?case by (cases n) auto
qed simp

lemma try_devs_offer:
  "try_devs op key idx rs s =
     offer op (takeWhile (\<lambda>(i, r). kvm_io_bus_cmp key (io_range r) = 0) (enumerate idx rs)) s"
  by (induction rs arbitrary: idx s) (auto split: prod.split)

lemma first_dev_least:
  "first_dev key rs off \<le> off \<and>
     (\<forall>i. first_dev key rs off \<le> i \<and> i < off \<longrightarrow> kvm_io_bus_cmp key (io_range (rs ! i)) = 0) \<and>
     (first_dev key rs off > 0 \<longrightarrow> kvm_io_bus_cmp key (io_range (rs ! (first_dev key rs off - 1))) \<noteq> 0)"
  by (induction off) (auto simp: less_Suc_eq)

lemma access_scan:
  assumes "bus_env_ok env" "bus_ok bus" "range_ok (addr, len)"
  shows "io_bus_access env op bus addr len s = offer op (covering bus addr len) s"
proof -
  let ?rs = "ranges bus" and ?key = "(addr, len)"
  let ?P = "\<lambda>(i :: nat, r). kvm_io_bus_cmp ?key (io_range r) = 0"
  have ks: "key_sorted (\<lambda>key r. kvm_io_bus_cmp key (io_range r)) ?key ?rs"
    using bus_key_sorted [OF assms(2,3)] .
  have cov: "covering bus addr len = filter ?P (enumerate 0 ?rs)"
    unfolding covering_def using assms(2,3)
    by (intro filter_cong refl) (auto simp: cmp_zero bus_ok_def bus_set_ok_def in_set_enumerate_eq intro: nth_mem)
  show ?thesis
  proof (cases "bsearch env ?key ?rs (\<lambda>key r. kvm_io_bus_cmp key (io_range r))")
    case None
    then have "\<forall>x\<in>set ?rs. kvm_io_bus_cmp ?key (io_range x) \<noteq> 0"
      using assms(1) ks unfolding bus_env_ok_def by (metis (mono_tags, lifting) option.simps(4))
    then have "filter ?P (enumerate 0 ?rs) = []"
      by (auto simp: filter_empty_conv in_set_enumerate_eq)
    then show ?thesis
      using None unfolding cov by (simp add: io_bus_access_def kvm_io_bus_get_first_dev_def)
  next
    case (Some off)
    then have off: "off < length ?rs" "kvm_io_bus_cmp ?key (io_range (?rs ! off)) = 0"
      using assms(1) ks unfolding bus_env_ok_def by (metis (mono_tags, lifting) option.simps(5))+
    define a where "a = first_dev ?key ?rs off"
    define c where "c = (\<lambda>i. kvm_io_bus_cmp ?key (io_range (?rs ! i)))"
    have a: "a \<le> off" "\<And>i. a \<le> i \<Longrightarrow> i < off \<Longrightarrow> c i = 0" "0 < a \<Longrightarrow> c (a - 1) \<noteq> 0"
      using first_dev_least [of ?key ?rs off] unfolding a_def c_def by auto
    have mono: "(0 < c j \<longrightarrow> 0 < c i) \<and> (c i < 0 \<longrightarrow> c j < 0)" if "i < j" "j < length ?rs" for i j
      using ks that unfolding key_sorted_def c_def sorted_wrt_iff_nth_less by blast
    have oc: "c off = 0" using off(2) by (simp add: c_def)
    have before: "c i \<noteq> 0" if "i < a" for i
    proof -
      have "c (a - 1) \<noteq> 0" "a - 1 < off" using that a(1,3) by simp_all
      then have "0 < c (a - 1)" using mono [of "a - 1" off] off(1) oc by simp
      moreover have "i = a - 1 \<or> i < a - 1" "a - 1 < length ?rs"
        using that a(1) off(1) by linarith+
      ultimately show ?thesis using mono [of i "a - 1"] by auto
    qed
    have down: "c i = 0" if "a \<le> i" "i \<le> j" "j < length ?rs" "c j = 0" for i j
    proof (cases "i \<le> off")
      case True
      then show ?thesis using a(2) [OF that(1)] oc by (cases "i = off") simp_all
    next
      case False
      then show ?thesis
        using mono [of off i] mono [of i j] oc that(2-4) by (cases "i = j") simp_all
    qed
    have "filter ?P (enumerate 0 ?rs) = filter ?P (take a (enumerate 0 ?rs)) @ filter ?P (drop a (enumerate 0 ?rs))"
      by (metis append_take_drop_id filter_append)
    also have "filter ?P (take a (enumerate 0 ?rs)) = []"
      using before a(1) off(1) by (auto simp: filter_empty_conv in_set_conv_nth nth_enumerate_eq c_def)
    also have "filter ?P (drop a (enumerate 0 ?rs)) = takeWhile ?P (enumerate a (drop a ?rs))"
      unfolding drop_enumerate_add add_0
    proof (rule filter_takeWhile)
      fix i j assume ij: "i \<le> j" "j < length (enumerate a (drop a ?rs))" "?P (enumerate a (drop a ?rs) ! j)"
      then show "?P (enumerate a (drop a ?rs) ! i)"
        using down [of "a + i" "a + j"] by (auto simp: nth_enumerate_eq c_def)
    qed
    finally show ?thesis
      using Some unfolding cov by (simp add: io_bus_access_def kvm_io_bus_get_first_dev_def try_devs_offer a_def)
  qed
qed

text \<open>
  C13. Binary search and the walk from the first match on lose no device: on a bus in order a write is offered
  to every device whose range covers it, in the order of the array, until one takes it, and to no other.
\<close>

theorem io_bus_write_scan:
  assumes "bus_env_ok env" "bus_ok bus" "range_ok (addr, len)"
  shows "kvm_io_bus_write env dev_write bus addr len val s =
    (case offer (\<lambda>d. dev_write d addr len val) (covering bus addr len) s of (r, s) \<Rightarrow> (if r < 0 then r else 0, s))"
  unfolding kvm_io_bus_write_def access_scan [OF assms] ..

section \<open>Registering and unregistering\<close>

lemma dev_index_Some: "dev_index d rs = Some i \<Longrightarrow> i < length rs \<and> io_dev (rs ! i) = d"
  by (induction rs arbitrary: i) (auto split: if_splits)

lemma dev_index_None: "dev_index d rs = None \<longleftrightarrow> d \<notin> io_dev ` set rs"
  by (induction rs) auto

lemma mset_remove_nth: "i < length xs \<Longrightarrow> add_mset (xs ! i) (mset (take i xs @ drop (i + 1) xs)) = mset xs"
proof -
  assume "i < length xs"
  then have "xs = take i xs @ xs ! i # drop (i + 1) xs"
    by (simp add: id_take_nth_drop)
  then show ?thesis
    by (metis mset.simps(2) mset_append union_mset_add_mset_right)
qed

lemma sorted_wrt_remove:
  assumes "sorted_wrt P xs"
  shows "sorted_wrt P (take i xs @ drop (i + 1) xs)"
proof -
  have "sorted_wrt P (take i xs @ drop i xs)" using assms by simp
  moreover have "set (drop (i + 1) xs) \<subseteq> set (drop i xs)"
    by (rule set_drop_subset_set_drop) simp
  ultimately show ?thesis
    using assms unfolding sorted_wrt_append by (auto intro: sorted_wrt_drop)
qed

lemma bus_ok_remove: "bus_ok bus \<Longrightarrow> bus_ok (bus\<lparr>ranges := take i (ranges bus) @ drop (i + 1) (ranges bus)\<rparr>)"
proof -
  assume b: "bus_ok bus"
  have "set (take i (ranges bus) @ drop (i + 1) (ranges bus)) \<subseteq> set (ranges bus)"
    by (auto dest: in_set_takeD in_set_dropD)
  then have "bus_set_ok (take i (ranges bus) @ drop (i + 1) (ranges bus))"
    using b unfolding bus_ok_def bus_set_ok_def by blast
  then show ?thesis
    using b sorted_wrt_remove by (auto simp: bus_ok_def simp del: append_take_drop_id)
qed

definition devs :: "'d kvm_io_bus \<Rightarrow> 'd set" where
  "devs bus = io_dev ` set (ranges bus)"

definition bus_room :: "'d kvm_io_bus \<Rightarrow> int" where
  "bus_room bus = NR_IOBUS_DEVS - (int (length (ranges bus)) - ioeventfd_count bus)"

lemma register_cases:
  assumes "bus_env_ok env" "kvm_io_bus_register_dev env alloc addr len d bus = (ret, bus')"
  shows "if 0 < bus_room bus \<and> alloc
         then ret = 0 \<and> bus' = kvm_io_bus_insert_dev env d addr len bus \<and>
              mset (ranges bus') = add_mset \<lparr>io_range = (addr, len), io_dev = d\<rparr> (mset (ranges bus)) \<and>
              bus_room bus' = bus_room bus - 1
         else ret < 0 \<and> bus' = bus"
proof -
  have "mset (bus_sort env kvm_io_bus_sort_cmp xs) = mset xs" for xs
    using assms(1) by (simp add: bus_env_ok_def)
  moreover from this have "length (bus_sort env kvm_io_bus_sort_cmp xs) = length xs" for xs
    by (metis size_mset)
  ultimately show ?thesis
    using assms(2)
    by (auto simp: kvm_io_bus_register_dev_def bus_room_def kvm_io_bus_insert_dev_def ENOSPC_def ENOMEM_def split: if_splits)
qed

lemma unregister_only:
  assumes "mset (ranges bus) = add_mset \<lparr>io_range = a, io_dev = d\<rparr> M" "d \<notin> io_dev ` set_mset M"
  shows "\<exists>bus'. kvm_io_bus_unregister_dev True d bus = (0, bus') \<and> mset (ranges bus') = M \<and>
           (bus_ok bus \<longrightarrow> bus_ok bus')"
proof -
  have st: "set (ranges bus) = insert \<lparr>io_range = a, io_dev = d\<rparr> (set_mset M)"
    using assms(1) by (metis set_mset_add_mset_insert set_mset_mset)
  then have "dev_index d (ranges bus) \<noteq> None"
    unfolding dev_index_None by force
  then obtain i where i: "dev_index d (ranges bus) = Some i" by blast
  note d = dev_index_Some [OF i]
  have "ranges bus ! i = \<lparr>io_range = a, io_dev = d\<rparr>"
    using d st assms(2) nth_mem [of i "ranges bus"] by auto
  then have "mset (take i (ranges bus) @ drop (i + 1) (ranges bus)) = M"
    using mset_remove_nth [of i "ranges bus"] d assms(1) by simp
  then show ?thesis
    using i bus_ok_remove [of bus i] by (simp add: kvm_io_bus_unregister_dev_def)
qed

text \<open>
  Registering a device whose range does not cut into others keeps the bus in order and adds just this
  range; unregistering it gives back what was there before.
\<close>

theorem io_bus_register_unregister:
  assumes "bus_env_ok env" "bus_ok bus" "range_ok (addr, len)" "0 < bus_room bus" "d \<notin> devs bus"
    and "\<forall>r\<in>set (ranges bus). compatible (io_range r) (addr, len)"
  shows "\<exists>bus1 bus2. kvm_io_bus_register_dev env True addr len d bus = (0, bus1) \<and> bus_ok bus1 \<and>
           mset (ranges bus1) = add_mset \<lparr>io_range = (addr, len), io_dev = d\<rparr> (mset (ranges bus)) \<and>
           kvm_io_bus_unregister_dev True d bus1 = (0, bus2) \<and> bus_ok bus2 \<and> mset (ranges bus2) = mset (ranges bus)"
proof -
  obtain ret bus1 where r: "kvm_io_bus_register_dev env True addr len d bus = (ret, bus1)"
    by fastforce
  have b: "ret = 0" "bus1 = kvm_io_bus_insert_dev env d addr len bus"
    "mset (ranges bus1) = add_mset \<lparr>io_range = (addr, len), io_dev = d\<rparr> (mset (ranges bus))"
    using register_cases [OF assms(1) r] assms(4) by auto
  have ok: "bus_ok bus1"
    unfolding b(2) by (rule insert_dev_ok(1) [OF assms(1-3,6)])
  show ?thesis
    using unregister_only [OF b(3)] assms(5) ok r b(1,3) by (auto simp: devs_def)
qed

section \<open>The controller's ports\<close>

definition pic_ranges :: "port_dev kvm_io_range list" where
  "pic_ranges = [\<lparr>io_range = (0x20, 2), io_dev = PicMaster\<rparr>, \<lparr>io_range = (0xa0, 2), io_dev = PicSlave\<rparr>,
     \<lparr>io_range = (0x4d0, 2), io_dev = PicEclr\<rparr>]"

definition pic_devs :: "port_dev set" where
  "pic_devs = {PicMaster, PicSlave, PicEclr}"

text \<open>The controller's ports are free.\<close>

definition ports_free :: "port_dev kvm_io_bus \<Rightarrow> bool" where
  "ports_free bus \<longleftrightarrow> (\<forall>r\<in>set (ranges bus). \<forall>p\<in>set pic_ranges.
     io_end (io_range r) \<le> io_start (io_range p) \<or> io_end (io_range p) \<le> io_start (io_range r))"

lemma pic_ranges_ok: "p \<in> set pic_ranges \<Longrightarrow> range_ok (io_range p)"
  by (auto simp: pic_ranges_def range_ok_def io_end_def)

text \<open>
  C30. When the controller cannot be created, the bus holds the ranges it held before, provided that the
  roll-back gets its memory.
\<close>

theorem create_pic_rollback:
  assumes "bus_env_ok env" "pic_devs \<inter> devs bus = {}" "kvm_create_pic env allocs vcpus bus = (None, bus')"
    and "allocs 4" "allocs 5"
  shows "mset (ranges bus') = mset (ranges bus)"
proof -
  obtain r1 b1 where 1: "kvm_io_bus_register_dev env (allocs 1) 0x20 2 PicMaster bus = (r1, b1)" by fastforce
  obtain r2 b2 where 2: "kvm_io_bus_register_dev env (allocs 2) 0xa0 2 PicSlave b1 = (r2, b2)" by fastforce
  obtain r3 b3 where 3: "kvm_io_bus_register_dev env (allocs 3) 0x4d0 2 PicEclr b2 = (r3, b3)" by fastforce
  note c = register_cases [OF assms(1) 1] register_cases [OF assms(1) 2] register_cases [OF assms(1) 3]
  have nd: "PicMaster \<notin> io_dev ` set_mset (mset (ranges bus))" "PicSlave \<notin> io_dev ` set_mset (mset (ranges bus))"
    using assms(2) by (auto simp: pic_devs_def devs_def)
  consider "\<not> allocs 0 \<or> r1 < 0" | "allocs 0" "r1 = 0" "r2 < 0" | "allocs 0" "r1 = 0" "r2 = 0" "r3 < 0"
    | "allocs 0" "r1 = 0" "r2 = 0" "r3 = 0"
    using c by (auto split: if_splits)
  then show ?thesis
  proof cases
    case 1
    then show ?thesis using assms(3) c(1) \<open>_ = (r1, b1)\<close> by (auto simp: kvm_create_pic_def split: if_splits)
  next
    case 2
    then have "mset (ranges b2) = add_mset \<lparr>io_range = (0x20, 2), io_dev = PicMaster\<rparr> (mset (ranges bus))"
      using c(1,2) by (auto split: if_splits)
    from unregister_only [OF this nd(1)] show ?thesis
      using assms(3,5) 2 \<open>_ = (r1, b1)\<close> \<open>_ = (r2, b2)\<close> by (auto simp: kvm_create_pic_def)
  next
    case 3
    then have m: "mset (ranges b3) = add_mset \<lparr>io_range = (0xa0, 2), io_dev = PicSlave\<rparr>
        (add_mset \<lparr>io_range = (0x20, 2), io_dev = PicMaster\<rparr> (mset (ranges bus)))"
      using c by (auto split: if_splits)
    then obtain b4 where b4: "kvm_io_bus_unregister_dev True PicSlave b3 = (0, b4)"
      "mset (ranges b4) = add_mset \<lparr>io_range = (0x20, 2), io_dev = PicMaster\<rparr> (mset (ranges bus))"
      using unregister_only [OF m] nd(2) by auto
    from unregister_only [OF b4(2) nd(1)] show ?thesis
      using assms(3-5) 3 b4(1) \<open>_ = (r1, b1)\<close> \<open>_ = (r2, b2)\<close> \<open>_ = (r3, b3)\<close> by (auto simp: kvm_create_pic_def Let_def)
  next
    case 4
    then show ?thesis
      using assms(3) \<open>_ = (r1, b1)\<close> \<open>_ = (r2, b2)\<close> \<open>_ = (r3, b3)\<close> by (auto simp: kvm_create_pic_def)
  qed
qed

lemma map_snd_covering: "map snd (covering bus addr len) = filter (\<lambda>r. covers (io_range r) (addr, len)) (ranges bus)"
proof -
  have "map snd (filter (\<lambda>(i, r). P r) (enumerate n xs)) = filter P xs" for P :: "'a kvm_io_range \<Rightarrow> bool" and n xs
    by (induction xs arbitrary: n) auto
  then show ?thesis by (simp add: covering_def)
qed

definition pic_ports :: "u64 set" where
  "pic_ports = {0x20, 0x21, 0xa0, 0xa1, 0x4d0, 0x4d1}"

lemma pic_port_ranges:
  "a \<in> pic_ports \<Longrightarrow> \<exists>p\<in>set pic_ranges. filter (\<lambda>r. covers (io_range r) (a, 1)) pic_ranges = [p] \<and> covers (io_range p) (a, 1)"
  by (auto simp: pic_ports_def pic_ranges_def covers_def io_start_def io_end_def)

lemma register_pic:
  assumes "bus_env_ok env" "bus_ok bus" "0 < bus_room bus" "range_ok (addr, len)"
    and "\<forall>r\<in>set (ranges bus). io_end (io_range r) \<le> unat addr \<or> unat addr + nat len \<le> io_start (io_range r)"
  shows "\<exists>bus'. kvm_io_bus_register_dev env True addr len d bus = (0, bus') \<and> bus_ok bus' \<and> bus_room bus' = bus_room bus - 1 \<and>
    mset (ranges bus') = add_mset \<lparr>io_range = (addr, len), io_dev = d\<rparr> (mset (ranges bus))"
proof -
  obtain ret bus' where r: "kvm_io_bus_register_dev env True addr len d bus = (ret, bus')"
    by fastforce
  have b: "ret = 0 \<and> bus' = kvm_io_bus_insert_dev env d addr len bus \<and> bus_room bus' = bus_room bus - 1 \<and>
    mset (ranges bus') = add_mset \<lparr>io_range = (addr, len), io_dev = d\<rparr> (mset (ranges bus))"
    using register_cases [OF assms(1) r] assms(3) by auto
  have "bus_ok (kvm_io_bus_insert_dev env d addr len bus)"
    using assms(5) by (intro insert_dev_ok(1) [OF assms(1,2,4)]) (auto simp: compatible_def io_start_def io_end_def)
  then show ?thesis using b r by auto
qed

lemma create_pic_succeeds:
  assumes "bus_env_ok env" "bus_ok bus" "3 \<le> bus_room bus" "ports_free bus" "\<forall>i. allocs i"
  shows "\<exists>bus'. kvm_create_pic env allocs vcpus bus = (Some (new_pic vcpus), bus') \<and> bus_ok bus' \<and>
    mset (ranges bus') = mset pic_ranges + mset (ranges bus)"
proof -
  have ok: "range_ok (0x20, 2)" "range_ok (0xa0, 2)" "range_ok (0x4d0, 2)"
    by (simp_all add: range_ok_def io_end_def)
  have free: "\<forall>r\<in>set (ranges bus). io_end (io_range r) \<le> 0x20 \<or> 0x22 \<le> io_start (io_range r)"
    "\<forall>r\<in>set (ranges bus). io_end (io_range r) \<le> 0xa0 \<or> 0xa2 \<le> io_start (io_range r)"
    "\<forall>r\<in>set (ranges bus). io_end (io_range r) \<le> 0x4d0 \<or> 0x4d2 \<le> io_start (io_range r)"
    using assms(4) by (auto simp: ports_free_def pic_ranges_def io_start_def io_end_def)
  have ends: "io_end (0x20, 2) = 0x22" "io_end (0xa0, 2) = 0xa2"
    by (simp_all add: io_end_def)
  obtain b1 where 1: "kvm_io_bus_register_dev env True 0x20 2 PicMaster bus = (0, b1)" "bus_ok b1" "bus_room b1 = bus_room bus - 1"
    "mset (ranges b1) = add_mset \<lparr>io_range = (0x20, 2), io_dev = PicMaster\<rparr> (mset (ranges bus))"
    using register_pic [OF assms(1,2) _ ok(1), of PicMaster] free(1) assms(3) ends by auto
  have s1: "set (ranges b1) = insert \<lparr>io_range = (0x20, 2), io_dev = PicMaster\<rparr> (set (ranges bus))"
    using 1(4) by (metis set_mset_add_mset_insert set_mset_mset)
  obtain b2 where 2: "kvm_io_bus_register_dev env True 0xa0 2 PicSlave b1 = (0, b2)" "bus_ok b2" "bus_room b2 = bus_room b1 - 1"
    "mset (ranges b2) = add_mset \<lparr>io_range = (0xa0, 2), io_dev = PicSlave\<rparr> (mset (ranges b1))"
    using register_pic [OF assms(1) 1(2) _ ok(2), of PicSlave] free(2) assms(3) 1(3) s1 ends by auto
  have s2: "set (ranges b2) = insert \<lparr>io_range = (0xa0, 2), io_dev = PicSlave\<rparr> (set (ranges b1))"
    using 2(4) by (metis set_mset_add_mset_insert set_mset_mset)
  obtain b3 where 3: "kvm_io_bus_register_dev env True 0x4d0 2 PicEclr b2 = (0, b3)" "bus_ok b3"
    "mset (ranges b3) = add_mset \<lparr>io_range = (0x4d0, 2), io_dev = PicEclr\<rparr> (mset (ranges b2))"
    using register_pic [OF assms(1) 2(2) _ ok(3), of PicEclr] free(3) assms(3) 1(3) 2(3) s1 s2 ends by auto
  then show ?thesis
    using assms(5) 1 2 by (simp add: kvm_create_pic_def pic_ranges_def)
qed

text \<open>
  C14. With memory and room on a bus in order, whose other devices keep off the controller's ports, the
  controller is created, and afterwards a byte the guest writes to one of the six ports goes to the
  controller and to it only.
\<close>

theorem create_pic_ports:
  assumes "bus_env_ok env" "bus_ok bus" "3 \<le> bus_room bus" "ports_free bus" "\<forall>i. allocs i" "a \<in> pic_ports"
  shows "\<exists>bus'. kvm_create_pic env allocs vcpus bus = (Some (new_pic vcpus), bus') \<and> bus_ok bus' \<and>
           kvm_io_bus_write env (port_write ack other) bus' a 1 val s = picdev_write ack a 1 val s"
proof -
  obtain bus' where b: "kvm_create_pic env allocs vcpus bus = (Some (new_pic vcpus), bus')" "bus_ok bus'"
    "mset (ranges bus') = mset pic_ranges + mset (ranges bus)"
    using create_pic_succeeds [OF assms(1-5)] by blast
  obtain p where p: "p \<in> set pic_ranges" "filter (\<lambda>r. covers (io_range r) (a, 1)) pic_ranges = [p]" "covers (io_range p) (a, 1)"
    using pic_port_ranges [OF assms(6)] by blast
  have "\<not> covers (io_range r) (a, 1)" if "r \<in> set (ranges bus)" for r
    using assms(4) that p(1,3) by (fastforce simp: ports_free_def covers_def io_start_def io_end_def)
  then have "filter (\<lambda>r. covers (io_range r) (a, 1)) (ranges bus) = []"
    by (simp add: filter_empty_conv)
  then have "mset (filter (\<lambda>r. covers (io_range r) (a, 1)) (ranges bus')) = {#p#}"
    using p(2) b(3) by (metis add_0_right filter_union_mset mset.simps mset_filter)
  then have "map snd (covering bus' a 1) = [p]"
    unfolding map_snd_covering by (simp only: mset_single_iff)
  then obtain i where i: "covering bus' a 1 = [(i, p)]"
    by (auto simp: map_eq_Cons_conv)
  have "range_ok (a, 1)"
    using assms(6) by (auto simp: pic_ports_def range_ok_def io_end_def)
  moreover have "port_write ack other (io_dev p) a 1 val s = picdev_write ack a 1 val s"
    using p(1) by (auto simp: pic_ranges_def port_write_def)
  moreover have "fst (picdev_write ack a 1 val s) = 0"
    using assms(6) by (auto simp: picdev_write_def picdev_in_range_def pic_ports_def)
  ultimately show ?thesis
    using b(1,2) io_bus_write_scan [OF assms(1) b(2), of a 1 "port_write ack other" val s] i
    by (auto simp: case_prod_beta prod_eq_iff)
qed

section \<open>Sample bus\<close>

text \<open>Insertion sort and linear search satisfy the contracts.\<close>

fun insert_by :: "('a \<Rightarrow> 'a \<Rightarrow> int) \<Rightarrow> 'a \<Rightarrow> 'a list \<Rightarrow> 'a list" where
  "insert_by cmp x [] = [x]"
| "insert_by cmp x (y # ys) = (if cmp x y \<le> 0 then x # y # ys else y # insert_by cmp x ys)"

primrec sort_by :: "('a \<Rightarrow> 'a \<Rightarrow> int) \<Rightarrow> 'a list \<Rightarrow> 'a list" where
  "sort_by cmp [] = []"
| "sort_by cmp (x # xs) = insert_by cmp x (sort_by cmp xs)"

primrec search_by :: "('a \<Rightarrow> bool) \<Rightarrow> 'a list \<Rightarrow> nat option" where
  "search_by P [] = None"
| "search_by P (x # xs) = (if P x then Some 0 else map_option Suc (search_by P xs))"

definition sample_env :: "'d bus_env" where
  "sample_env = \<lparr>bus_sort = sort_by, bsearch = (\<lambda>key xs cmp. search_by (\<lambda>x. cmp key x = 0) xs)\<rparr>"

definition empty_bus :: "'d kvm_io_bus" where
  "empty_bus = \<lparr>ioeventfd_count = 0, ranges = []\<rparr>"

lemma mset_insert_by: "mset (insert_by cmp x ys) = add_mset x (mset ys)"
  by (induction ys) auto

lemma mset_sort_by [simp]: "mset (sort_by cmp xs) = mset xs"
  by (induction xs) (simp_all add: mset_insert_by)

lemma set_insert_by: "set (insert_by cmp x ys) = insert x (set ys)"
  by (induction ys) auto

lemma preorder_onD:
  assumes "preorder_on cmp A" "x \<in> A" "y \<in> A"
  shows "cmp x y \<le> 0 \<or> cmp y x \<le> 0" "z \<in> A \<Longrightarrow> cmp x y \<le> 0 \<Longrightarrow> cmp y z \<le> 0 \<Longrightarrow> cmp x z \<le> 0"
  using assms unfolding preorder_on_def by blast+

lemma preorder_on_subset: "preorder_on cmp B \<Longrightarrow> A \<subseteq> B \<Longrightarrow> preorder_on cmp A"
  unfolding preorder_on_def [of _ A] by (auto dest: preorder_onD subsetD)

lemma sorted_insert_by:
  "preorder_on cmp (insert x (set ys)) \<Longrightarrow> sorted_wrt (\<lambda>x y. cmp x y \<le> 0) ys \<Longrightarrow>
     sorted_wrt (\<lambda>x y. cmp x y \<le> 0) (insert_by cmp x ys)"
proof (induction ys)
  case (Cons y ys)
  have s: "\<forall>z\<in>set ys. cmp y z \<le> 0" "sorted_wrt (\<lambda>x y. cmp x y \<le> 0) ys"
    using Cons.prems(2) by simp_all
  have IH: "sorted_wrt (\<lambda>x y. cmp x y \<le> 0) (insert_by cmp x ys)"
    using preorder_on_subset [OF Cons.prems(1), of "insert x (set ys)"] s(2) by (intro Cons.IH) auto
  show ?case
  proof (cases "cmp x y \<le> 0")
    case True
    then have "\<forall>z\<in>set ys. cmp x z \<le> 0"
      using preorder_onD(2) [OF Cons.prems(1), of x y] s(1) by simp
    then show ?thesis using True s by simp
  next
    case False
    then have "cmp y x \<le> 0"
      using preorder_onD(1) [OF Cons.prems(1), of x y] by simp
    then show ?thesis using False IH s(1) by (simp add: set_insert_by)
  qed
qed simp

lemma sorted_sort_by: "preorder_on cmp (set xs) \<Longrightarrow> sorted_wrt (\<lambda>x y. cmp x y \<le> 0) (sort_by cmp xs)"
proof (induction xs)
  case (Cons x xs)
  have "preorder_on cmp (set xs)"
    by (rule preorder_on_subset [OF Cons.prems]) auto
  moreover have "set (sort_by cmp xs) = set xs"
    by (metis mset_sort_by set_mset_mset)
  ultimately show ?case
    using Cons.IH Cons.prems by (simp add: sorted_insert_by)
qed simp

lemma search_by_spec: "case search_by P xs of Some i \<Rightarrow> i < length xs \<and> P (xs ! i) | None \<Rightarrow> \<forall>x\<in>set xs. \<not> P x"
  by (induction xs) (auto split: option.splits)

lemma sample_env_ok: "bus_env_ok sample_env"
  unfolding bus_env_ok_def
proof (intro conjI allI impI)
  fix key xs and cmp :: "u64 \<times> int \<Rightarrow> 'a kvm_io_range \<Rightarrow> int"
  show "case bsearch sample_env key xs cmp of Some i \<Rightarrow> i < length xs \<and> cmp key (xs ! i) = 0
        | None \<Rightarrow> \<forall>x\<in>set xs. cmp key x \<noteq> 0"
    using search_by_spec [of xs "\<lambda>x. cmp key x = 0"] by (simp add: sample_env_def)
qed (simp_all add: sample_env_def sorted_sort_by)

lemma empty_bus_ok: "bus_ok empty_bus" "bus_room empty_bus = 1000" "devs empty_bus = {}" "ranges empty_bus = []"
  by (simp_all add: empty_bus_def bus_ok_def bus_set_ok_def bus_room_def NR_IOBUS_DEVS_def devs_def)

theorem io_bus_write_scan_witness:
  "kvm_io_bus_write sample_env (\<lambda>d a l v s. (0, s + v)) \<lparr>ioeventfd_count = 0, ranges = [\<lparr>io_range = (0x20, 2), io_dev = ()\<rparr>]\<rparr>
     0x21 1 (5 :: int) 1 = (0, 6)"
proof -
  have "bus_ok \<lparr>ioeventfd_count = 0, ranges = [\<lparr>io_range = (0x20, 2), io_dev = ()\<rparr>]\<rparr>" "range_ok (0x21, 1)"
    by (simp_all add: bus_ok_def bus_set_ok_def range_ok_def compatible_def io_end_def)
  from io_bus_write_scan [OF sample_env_ok this, of "\<lambda>d a l v s. (0, s + v)" 5 1] show ?thesis
    by (simp add: covering_def covers_def io_start_def io_end_def)
qed

theorem io_bus_register_unregister_witness:
  "\<exists>bus1 bus2. kvm_io_bus_register_dev sample_env True 0x20 2 (7 :: nat) empty_bus = (0, bus1) \<and>
     kvm_io_bus_unregister_dev True 7 bus1 = (0, bus2) \<and> mset (ranges bus2) = {#}"
  using io_bus_register_unregister [OF sample_env_ok empty_bus_ok(1), of "0x20" 2 7]
  by (auto simp: empty_bus_ok range_ok_def io_end_def)

theorem create_pic_rollback_witness:
  "mset (ranges (snd (kvm_create_pic sample_env (\<lambda>i. i \<noteq> 2) [] empty_bus))) = {#}"
proof -
  have "fst (kvm_create_pic sample_env (\<lambda>i. i \<noteq> 2) [] empty_bus) = None"
    by (simp add: kvm_create_pic_def kvm_io_bus_register_dev_def empty_bus_ok NR_IOBUS_DEVS_def ENOMEM_def ENOSPC_def
        empty_bus_def kvm_io_bus_insert_dev_def sample_env_def)
  then have "kvm_create_pic sample_env (\<lambda>i. i \<noteq> 2) [] empty_bus =
      (None, snd (kvm_create_pic sample_env (\<lambda>i. i \<noteq> 2) [] empty_bus))"
    by (simp add: prod_eq_iff)
  from create_pic_rollback [OF sample_env_ok _ this] show ?thesis
    by (simp add: empty_bus_ok)
qed

theorem create_pic_ports_witness:
  "\<exists>bus'. kvm_create_pic sample_env (\<lambda>i. True) [] empty_bus = (Some (new_pic []), bus') \<and> bus_ok bus' \<and>
     kvm_io_bus_write sample_env (port_write no_ack (\<lambda>n a l v s. (0, s))) bus' 0x21 1 0xff (new_pic []) =
       picdev_write no_ack 0x21 1 0xff (new_pic [])"
  by (rule create_pic_ports [OF sample_env_ok])
    (simp_all add: empty_bus_ok ports_free_def pic_ports_def)

end
