(* ===== verification/PageCache.thy ===== *)
theory PageCache
  imports VmiPrelude
begin

text \<open>
  The cache of sent pages that live migration compresses against, \<open>page_cache.c\<close> with \<open>pow2floor\<close> of
  \<open>util/cutils.c\<close>: an array of slots, one page each, indexed by the low bits of the page number.
  Proved are what an insertion does to every address, and that resizing keeps the most recent page of
  each slot. Allocations that may fail are parameters; freeing is left out.
\<close>

section \<open>Powers of two\<close>

definition is_power_of_2 :: "u64 \<Rightarrow> bool" where
  "is_power_of_2 v \<longleftrightarrow> v \<noteq> 0 \<and> v AND (v - 1) = 0"

text \<open>The number of leading zeros.\<close>

definition clz64 :: "u64 \<Rightarrow> nat" where
  "clz64 v = length (takeWhile (\<lambda>i. \<not> bit v i) (rev [0..<64]))"

definition pow2floor :: "int \<Rightarrow> int" where
  "pow2floor n =
     (let v = of_int n :: u64
      in if is_power_of_2 v then n else sint (drop_bit (clz64 v) (0x8000000000000000 :: u64)))"

section \<open>The cache\<close>

record CacheItem =
  it_addr :: u64
  it_age :: u64
  it_data :: "u8 list option"

record PageCache =
  page_cache :: "CacheItem list option"
  page_size :: nat
  max_num_items :: int
  max_item_age :: u64
  num_items :: int

definition free_item :: CacheItem where
  "free_item = \<lparr>it_addr = - 1, it_age = 0, it_data = None\<rparr>"

text \<open>\<open>alloc1\<close> and \<open>alloc2\<close> say whether the two allocations succeed.\<close>

definition cache_init :: "bool \<Rightarrow> bool \<Rightarrow> int \<Rightarrow> nat \<Rightarrow> PageCache option" where
  "cache_init alloc1 alloc2 num_pages psize =
     (if num_pages \<le> 0 then None
      else if \<not> alloc1 then None
      else let num_pages = (if \<not> is_power_of_2 (of_int num_pages) then pow2floor num_pages else num_pages)
           in if \<not> alloc2 then None
              else Some \<lparr>page_cache = Some (replicate (nat num_pages) free_item), page_size = psize,
                         max_num_items = num_pages, max_item_age = 0, num_items = 0\<rparr>)"

definition cache_fini :: "PageCache \<Rightarrow> PageCache res" where
  "cache_fini c = (if page_cache c = None then Inl Abort else Inr (c\<lparr>page_cache := None\<rparr>))"

definition cache_get_cache_pos :: "PageCache \<Rightarrow> u64 \<Rightarrow> nat res" where
  "cache_get_cache_pos c address =
     (if max_num_items c = 0 then Inl Abort
      else Inr (unat ((address div of_nat (page_size c)) AND (of_int (max_num_items c) - 1))))"

text \<open>The slots of the array with the position of an address.\<close>

definition cache_get_by_addr :: "PageCache \<Rightarrow> u64 \<Rightarrow> (CacheItem list \<times> nat) res" where
  "cache_get_by_addr c addr =
     (case page_cache c of
        None \<Rightarrow> Inl Abort
      | Some items \<Rightarrow> bindE (cache_get_cache_pos c addr) (\<lambda>pos.
          if length items \<le> pos then Inl Overflow else Inr (items, pos)))"

definition cache_is_cached :: "PageCache \<Rightarrow> u64 \<Rightarrow> bool res" where
  "cache_is_cached c addr = bindE (cache_get_by_addr c addr) (\<lambda>(items, pos). Inr (it_addr (items ! pos) = addr))"

definition get_cached_data :: "PageCache \<Rightarrow> u64 \<Rightarrow> u8 list option res" where
  "get_cached_data c addr = bindE (cache_get_by_addr c addr) (\<lambda>(items, pos). Inr (it_data (items ! pos)))"

definition cache_insert :: "bool \<Rightarrow> PageCache \<Rightarrow> u64 \<Rightarrow> u8 list \<Rightarrow> (int \<times> PageCache) res" where
  "cache_insert alloc c addr pdata =
     bindE (cache_get_by_addr c addr) (\<lambda>(items, pos).
       if it_data (items ! pos) = None \<and> \<not> alloc then Inr (-1, c)
       else let n = num_items c + (if it_data (items ! pos) = None then 1 else 0);
                age = max_item_age c + 1;
                it = \<lparr>it_addr = addr, it_age = age, it_data = Some (take (page_size c) pdata)\<rparr>
            in Inr (0, c\<lparr>page_cache := Some (items[pos := it]), num_items := n, max_item_age := age\<rparr>))"

text \<open>The loop of \<open>cache_resize\<close> over the old slots.\<close>

fun move_items :: "CacheItem list \<Rightarrow> PageCache \<Rightarrow> PageCache res" where
  "move_items [] new = Inr new"
| "move_items (old_it # olds) new =
     (if it_addr old_it = - 1 then move_items olds new
      else bindE (cache_get_by_addr new (it_addr old_it)) (\<lambda>(items, pos).
        if it_data (items ! pos) \<noteq> None \<and> it_age old_it \<le> it_age (items ! pos) then move_items olds new
        else move_items olds
          (new\<lparr>page_cache := Some (items[pos := old_it]),
               num_items := num_items new + (if it_data (items ! pos) = None then 1 else 0)\<rparr>)))"

definition cache_resize :: "bool \<Rightarrow> bool \<Rightarrow> PageCache \<Rightarrow> int \<Rightarrow> (int \<times> PageCache) res" where
  "cache_resize alloc1 alloc2 c new_num_pages =
     (case page_cache c of
        None \<Rightarrow> Inr (-1, c)
      | Some items \<Rightarrow>
          if pow2floor new_num_pages = max_num_items c then Inr (max_num_items c, c)
          else case cache_init alloc1 alloc2 new_num_pages (page_size c) of
            None \<Rightarrow> Inr (-1, c)
          | Some new \<Rightarrow> bindE (move_items items new) (\<lambda>new.
              Inr (max_num_items new,
                   c\<lparr>page_cache := page_cache new, max_num_items := max_num_items new, num_items := num_items new\<rparr>)))"

section \<open>What the cache holds\<close>

definition slots :: "PageCache \<Rightarrow> CacheItem list" where
  "slots c = (case page_cache c of None \<Rightarrow> [] | Some items \<Rightarrow> items)"

definition slot_of :: "PageCache \<Rightarrow> u64 \<Rightarrow> nat" where
  "slot_of c a = unat (a div of_nat (page_size c)) mod nat (max_num_items c)"

text \<open>The page cached for an address.\<close>

definition cached :: "PageCache \<Rightarrow> u64 \<Rightarrow> u8 list option" where
  "cached c a = (if a = - 1 then None
     else if it_addr (slots c ! slot_of c a) = a then it_data (slots c ! slot_of c a) else None)"

definition item_ok :: "PageCache \<Rightarrow> nat \<Rightarrow> CacheItem \<Rightarrow> bool" where
  "item_ok c i it \<longleftrightarrow>
     (case it_data it of
        None \<Rightarrow> it_addr it = - 1
      | Some d \<Rightarrow> length d = page_size c \<and> it_addr it \<noteq> - 1 \<and> slot_of c (it_addr it) = i)"

definition cache_inv :: "PageCache \<Rightarrow> bool" where
  "cache_inv c \<longleftrightarrow>
     page_cache c \<noteq> None \<and> (\<exists>k<63. max_num_items c = 2 ^ k) \<and> 0 < page_size c \<and> page_size c < 2 ^ 32 \<and>
     length (slots c) = nat (max_num_items c) \<and> (\<forall>i<length (slots c). item_ok c i (slots c ! i)) \<and>
     num_items c = int (length (filter (\<lambda>it. it_data it \<noteq> None) (slots c)))"

section \<open>Rounding down to a power of two\<close>

lemma power_2_word: "k < 64 \<Longrightarrow> unat (2 ^ k :: u64) = 2 ^ k"
proof -
  assume k: "k < 64"
  then have "(2 :: nat) ^ k < 2 ^ 64"
    by (intro power_strict_increasing) simp_all
  then have "unat (of_nat (2 ^ k) :: u64) = 2 ^ k"
    by (simp add: unat_of_nat take_bit_nat_eq_self del: of_nat_power of_nat_numeral)
  then show ?thesis by simp
qed

lemma top_bit: "(v :: u64) \<noteq> 0 \<Longrightarrow> \<exists>k<64. 2 ^ k \<le> unat v \<and> unat v < 2 ^ (k + 1)"
proof -
  assume "v \<noteq> 0"
  then have "1 \<le> unat v"
    by (simp add: unat_gt_0 Suc_leI)
  then obtain k where k: "2 ^ k \<le> unat v" "unat v < 2 ^ (k + 1)"
    using ex_power_ivl1 [of 2 "unat v"] by auto
  have "(2 :: nat) ^ k < 2 ^ 64"
    using k(1) unat_less_u64 [of v] by simp
  then have "k < 64"
    using power_less_imp_less_exp [of "2 :: nat" k 64] by simp
  then show ?thesis using k by blast
qed

lemma bit_unat_u64: "bit (v :: u64) i \<longleftrightarrow> odd (unat v div 2 ^ i)"
proof -
  have "bit v i \<longleftrightarrow> bit (unat v) i"
    by (simp add: bit_unsigned_iff)
  then show ?thesis by (simp add: bit_iff_odd)
qed

lemma is_power_of_2_iff:
  assumes "k < 64" "2 ^ k \<le> unat v" "unat v < 2 ^ (k + 1)"
  shows "is_power_of_2 v \<longleftrightarrow> unat v = 2 ^ k"
proof
  assume p: "is_power_of_2 v"
  show "unat v = 2 ^ k"
  proof (rule ccontr)
    assume n: "unat v \<noteq> 2 ^ k"
    have u: "unat (v - 1) = unat v - 1"
      using p by (simp add: is_power_of_2_def unat_minus_one)
    have "unat v div 2 ^ k = 1" "(unat v - 1) div 2 ^ k = 1"
      using assms n by (auto intro!: div_nat_eqI)
    then have "bit v k" "bit (v - 1) k"
      by (simp_all add: bit_unat_u64 u)
    then have "bit (v AND (v - 1)) k"
      by (simp add: bit_and_iff)
    then show False
      using p by (simp add: is_power_of_2_def)
  qed
next
  assume u: "unat v = 2 ^ k"
  have v: "v = 2 ^ k"
    using u assms(1) by (intro word_unat_eq_iff [THEN iffD2]) (simp add: power_2_word)
  have "(2 ^ k :: u64) - 1 = mask k"
    by (simp add: mask_eq_exp_minus_1)
  moreover have "(2 ^ k :: u64) AND mask k = 0"
    by (rule bit_word_eqI) (auto simp: bit_simps)
  ultimately show "is_power_of_2 v"
    using assms(1) unfolding is_power_of_2_def v by simp
qed

lemma clz64_top:
  assumes "k < 64" "2 ^ k \<le> unat v" "unat v < 2 ^ (k + 1)"
  shows "clz64 v = 63 - k"
proof -
  have z: "\<not> bit v i" if "k < i" for i
  proof -
    have "unat v < 2 ^ i"
      using assms(3) power_increasing [of "k + 1" i "2 :: nat"] that by linarith
    then show ?thesis by (simp add: bit_unat_u64)
  qed
  have "unat v div 2 ^ k = 1"
    using assms by (auto intro!: div_nat_eqI)
  then have b: "bit v k" by (simp add: bit_unat_u64)
  have "[0..<64] = [0..<k] @ [k] @ [Suc k..<64]"
    using upt_add_eq_append [of 0 k "64 - k"] assms(1) by (simp add: upt_conv_Cons)
  then have "rev [0..<64] = rev [Suc k..<64] @ k # rev [0..<k]"
    by simp
  moreover have "takeWhile (\<lambda>i. \<not> bit v i) (rev [Suc k..<64] @ k # rev [0..<k]) = rev [Suc k..<64]"
    using z b by (subst takeWhile_append2) auto
  ultimately show ?thesis
    by (simp add: clz64_def)
qed

lemma drop_bit_power: "k \<le> m \<Longrightarrow> m < 64 \<Longrightarrow> drop_bit (m - k) (2 ^ m :: u64) = 2 ^ k"
  by (rule bit_word_eqI) (auto simp: bit_simps)

lemma pow2floor_bounds:
  assumes "0 < n" "n < 2 ^ 63"
  shows "\<exists>k<63. pow2floor n = 2 ^ k \<and> 2 ^ k \<le> n \<and> n < 2 ^ (k + 1)"
proof -
  define v where "v = (of_int n :: u64)"
  have "uint v = n"
    using assms by (simp add: v_def unsigned_of_int take_bit_int_eq_self)
  then have u: "int (unat v) = n" by simp
  then have "v \<noteq> 0" using assms(1) by auto
  then obtain k where k: "k < 64" "2 ^ k \<le> unat v" "unat v < 2 ^ (k + 1)"
    using top_bit by blast
  have "unat v < 2 ^ 63"
    using u assms(2) by (metis of_nat_less_iff of_nat_numeral of_nat_power)
  then have "(2 :: nat) ^ k < 2 ^ 63"
    using k(2) by (rule le_less_trans [rotated])
  then have k63: "k < 63"
    using power_less_imp_less_exp [of "2 :: nat" k 63] by simp
  have kn: "2 ^ k \<le> n" "n < 2 ^ (k + 1)"
    using k(2,3) u by (metis of_nat_le_iff of_nat_numeral of_nat_power, metis of_nat_less_iff of_nat_numeral of_nat_power)
  have "pow2floor n = 2 ^ k"
  proof (cases "is_power_of_2 v")
    case True
    then have "unat v = 2 ^ k" using is_power_of_2_iff [OF k] by blast
    then have "n = 2 ^ k" using u by simp
    then show ?thesis using True unfolding pow2floor_def Let_def v_def [symmetric] by simp
  next
    case False
    have "drop_bit (63 - k) (2 ^ 63 :: u64) = 2 ^ k"
      using k63 by (intro drop_bit_power) simp_all
    moreover have "sint (2 ^ k :: u64) = 2 ^ k"
    proof -
      have "uint (2 ^ k :: u64) = 2 ^ k"
        using power_2_word [OF k(1)] by (metis int_eq_iff of_nat_numeral of_nat_power uint_nat)
      moreover have "(2 :: int) ^ k < 2 ^ 63"
        using k63 by (intro power_strict_increasing) simp_all
      moreover have "- (2 ^ 63) \<le> (2 :: int) ^ k"
        by (rule order_trans [of _ 0]) simp_all
      ultimately show ?thesis
        using signed_take_bit_int_eq_self [of 63 "2 ^ k"] by (simp add: sint_uint)
    qed
    ultimately show ?thesis
      using False clz64_top [OF k] by (simp add: pow2floor_def v_def [symmetric])
  qed
  then show ?thesis using k63 kn by blast
qed

section \<open>Insertion\<close>

lemma pos_slot:
  assumes "max_num_items c = 2 ^ k" "k < 63"
  shows "cache_get_cache_pos c a = Inr (slot_of c a)"
proof -
  have "(of_int (max_num_items c) :: u64) - 1 = mask k"
    using assms(1) by (simp add: mask_eq_exp_minus_1)
  moreover have "unat (x AND mask k) = take_bit k (unat x)" for x :: u64
    by (simp only: take_bit_eq_mask [symmetric] unsigned_take_bit_eq)
  ultimately show ?thesis
    using assms by (simp add: cache_get_cache_pos_def slot_of_def nat_power_eq take_bit_eq_mod)
qed

lemma slot_of_less: "0 < max_num_items c \<Longrightarrow> slot_of c a < nat (max_num_items c)"
  by (simp add: slot_of_def)

lemma get_by_addr:
  assumes "cache_inv c"
  shows "cache_get_by_addr c a = Inr (slots c, slot_of c a)" "slot_of c a < length (slots c)"
proof -
  obtain k where k: "max_num_items c = 2 ^ k" "k < 63"
    using assms by (auto simp: cache_inv_def)
  show l: "slot_of c a < length (slots c)"
    using assms slot_of_less [of c a] k by (simp add: cache_inv_def)
  show "cache_get_by_addr c a = Inr (slots c, slot_of c a)"
    using assms l pos_slot [OF k] by (auto simp: cache_get_by_addr_def cache_inv_def slots_def)
qed

lemma cache_lookup:
  assumes "cache_inv c" "a \<noteq> - 1"
  shows "cache_is_cached c a = Inr (cached c a \<noteq> None)" "cached c a \<noteq> None \<Longrightarrow> get_cached_data c a = Inr (cached c a)"
proof -
  have "item_ok c (slot_of c a) (slots c ! slot_of c a)"
    using assms get_by_addr(2) [OF assms(1)] by (simp add: cache_inv_def)
  then show "cache_is_cached c a = Inr (cached c a \<noteq> None)"
    using assms get_by_addr [OF assms(1)] by (auto simp: cache_is_cached_def cached_def item_ok_def split: option.splits)
  show "cached c a \<noteq> None \<Longrightarrow> get_cached_data c a = Inr (cached c a)"
    using assms get_by_addr [OF assms(1)] by (auto simp: get_cached_data_def cached_def split: if_splits)
qed

text \<open>Replacing one slot.\<close>

lemma count_update:
  "i < length xs \<Longrightarrow> P x \<Longrightarrow> length (filter P (xs[i := x])) = length (filter P xs) + (if P (xs ! i) then 0 else 1)"
proof (induction xs arbitrary: i)
  case (Cons y ys)
  then show ?case by (cases i) auto
qed simp

lemma replace_slot:
  assumes "cache_inv c" "p = slot_of c a" "a \<noteq> - 1" "length d = page_size c"
    and "it = \<lparr>it_addr = a, it_age = g, it_data = Some d\<rparr>"
    and "c' = c\<lparr>page_cache := Some ((slots c)[p := it]),
                num_items := num_items c + (if it_data (slots c ! p) = None then 1 else 0), max_item_age := m\<rparr>"
  shows "cache_inv c'"
    and "cached c' x = (if x = a then Some d else if slot_of c x = p then None else cached c x)"
proof -
  have s: "slot_of c' = slot_of c" "slots c' = (slots c)[p := it]" "page_size c' = page_size c"
    using assms(6) by (simp_all add: slots_def slot_of_def fun_eq_iff)
  have p: "p < length (slots c)" using get_by_addr(2) [OF assms(1)] assms(2) by simp
  have ok: "item_ok c' = item_ok c"
    unfolding item_ok_def s(1,3) by simp
  have "item_ok c i (slots c ! i)" if "i < length (slots c)" for i
    using assms(1) that by (simp add: cache_inv_def)
  moreover have "item_ok c p it"
    using assms(2-5) by (simp add: item_ok_def)
  ultimately have "item_ok c' i (slots c' ! i)" if "i < length (slots c')" for i
    using that p unfolding ok s(2) by (cases "i = p") simp_all
  moreover have "num_items c' = int (length (filter (\<lambda>it. it_data it \<noteq> None) (slots c')))"
    using assms(1,5,6) p count_update [of p "slots c" "\<lambda>it. it_data it \<noteq> None" it] unfolding s(2)
    by (simp add: cache_inv_def)
  ultimately show "cache_inv c'"
    using assms(1,6) s(2) unfolding cache_inv_def by simp
  show "cached c' x = (if x = a then Some d else if slot_of c x = p then None else cached c x)"
    using assms(2,3,5) p unfolding cached_def s by (auto simp: nth_list_update)
qed

text \<open>
  Inserting a page makes it the one cached for its address, drops the page of another address that
  had the slot, and leaves every other address alone. It fails only when the slot is free and there is
  no memory, and then changes nothing.
\<close>

theorem cache_insert_effect:
  assumes "cache_inv c" "a \<noteq> - 1" "length d = page_size c"
  shows "\<exists>r c'. cache_insert alloc c a d = Inr (r, c') \<and> cache_inv c' \<and> page_size c' = page_size c \<and>
           (if r = 0
            then cached c' = (\<lambda>x. if x = a then Some d else if slot_of c x = slot_of c a then None else cached c x)
            else r = -1 \<and> c' = c \<and> \<not> alloc \<and> cached c a = None)"
proof -
  let ?it = "\<lparr>it_addr = a, it_age = max_item_age c + 1, it_data = Some d\<rparr>"
  let ?p = "slot_of c a"
  let ?c = "c\<lparr>page_cache := Some ((slots c)[?p := ?it]),
     num_items := num_items c + (if it_data (slots c ! ?p) = None then 1 else 0), max_item_age := max_item_age c + 1\<rparr>"
  show ?thesis
  proof (cases "it_data (slots c ! ?p) = None \<and> \<not> alloc")
    case True
    then show ?thesis
      using get_by_addr [OF assms(1)] assms(1) by (simp add: cache_insert_def cached_def)
  next
    case False
    have "cache_insert alloc c a d = Inr (0, ?c)"
      using get_by_addr(1) [OF assms(1)] False assms(3) by (simp add: cache_insert_def Let_def)
    then show ?thesis
      using replace_slot [OF assms(1) refl assms(2,3) refl refl, of "max_item_age c + 1" "max_item_age c + 1"]
      by (simp add: fun_eq_iff)
  qed
qed

section \<open>Resizing\<close>

lemma init_inv:
  assumes "cache_init alloc1 alloc2 n ps = Some c" "n < 2 ^ 63" "0 < ps" "ps < 2 ^ 32"
  shows "cache_inv c" "page_size c = ps" "cached c = (\<lambda>_. None)" "slots c = replicate (nat (max_num_items c)) free_item"
    and "max_num_items c \<le> n" "n < 2 * max_num_items c"
proof -
  have n: "0 < n" using assms(1) by (simp add: cache_init_def split: if_splits)
  obtain k where k: "k < 63" "pow2floor n = 2 ^ k" "2 ^ k \<le> n" "n < 2 ^ (k + 1)"
    using pow2floor_bounds [OF n assms(2)] by blast
  have "is_power_of_2 (of_int n) \<Longrightarrow> n = 2 ^ k"
    using k(2) by (simp add: pow2floor_def)
  then have c: "c = \<lparr>page_cache = Some (replicate (nat (2 ^ k)) free_item), page_size = ps,
      max_num_items = 2 ^ k, max_item_age = 0, num_items = 0\<rparr>"
    using assms(1) k(2) by (auto simp: cache_init_def Let_def split: if_splits)
  then show "page_size c = ps" "slots c = replicate (nat (max_num_items c)) free_item"
    "max_num_items c \<le> n" "n < 2 * max_num_items c"
    using k(3,4) by (simp_all add: slots_def)
  show "cache_inv c"
    using c k(1) assms(3,4) by (auto simp: cache_inv_def slots_def item_ok_def free_item_def)
  show "cached c = (\<lambda>_. None)"
    using slot_of_less [of c] by (auto simp: c fun_eq_iff cached_def slots_def free_item_def)
qed

text \<open>The state of the loop: every page moved so far is in its slot or a later one is, and no page is new.\<close>

definition moved :: "CacheItem list \<Rightarrow> PageCache \<Rightarrow> bool" where
  "moved olds c \<longleftrightarrow>
     (\<forall>it\<in>set (slots c). it_data it \<noteq> None \<longrightarrow> it \<in> set olds) \<and>
     (\<forall>it\<in>set olds. it_addr it \<noteq> - 1 \<longrightarrow>
        (let it' = slots c ! slot_of c (it_addr it) in it_data it' \<noteq> None \<and> it_age it \<le> it_age it'))"

lemma move_items_moved:
  assumes "cache_inv c" "moved before c"
    and "\<forall>it\<in>set olds. it_addr it \<noteq> - 1 \<longrightarrow> (\<exists>d. it_data it = Some d \<and> length d = page_size c)"
  shows "\<exists>c'. move_items olds c = Inr c' \<and> cache_inv c' \<and> moved (before @ olds) c' \<and>
           page_size c' = page_size c \<and> max_num_items c' = max_num_items c"
  using assms
proof (induction olds arbitrary: before c)
  case (Cons it olds)
  let ?p = "slot_of c (it_addr it)"
  note g = get_by_addr [OF Cons.prems(1), of "it_addr it"]
  consider "it_addr it = - 1" | "it_addr it \<noteq> - 1" "it_data (slots c ! ?p) \<noteq> None" "it_age it \<le> it_age (slots c ! ?p)"
    | "it_addr it \<noteq> - 1" "\<not> (it_data (slots c ! ?p) \<noteq> None \<and> it_age it \<le> it_age (slots c ! ?p))"
    by blast
  then show ?case
  proof cases
    case 1
    then have "moved (before @ [it]) c"
      using Cons.prems(2) by (auto simp: moved_def)
    then show ?thesis
      using Cons.IH [of c "before @ [it]"] Cons.prems 1 by simp
  next
    case 2
    then have "moved (before @ [it]) c"
      using Cons.prems(2) by (auto simp: moved_def Let_def)
    then show ?thesis
      using Cons.IH [of c "before @ [it]"] Cons.prems 2 g by simp
  next
    case 3
    let ?c = "c\<lparr>page_cache := Some ((slots c)[?p := it]),
      num_items := num_items c + (if it_data (slots c ! ?p) = None then 1 else 0)\<rparr>"
    obtain d where d: "it_data it = Some d" "length d = page_size c"
      using Cons.prems(3) 3(1) by auto
    have inv: "cache_inv ?c"
      using replace_slot(1) [OF Cons.prems(1) refl 3(1) d(2), of it "it_age it" ?c "max_item_age c"] d(1) by simp
    have s: "slot_of ?c = slot_of c" "slots ?c = (slots c)[?p := it]"
      by (simp_all add: slots_def slot_of_def fun_eq_iff)
    have "x \<in> set (before @ [it])" if "x \<in> set (slots ?c)" "it_data x \<noteq> None" for x
      using that Cons.prems(2) set_update_subset_insert [of "slots c" ?p it] unfolding s moved_def by auto
    moreover have "it_data (slots ?c ! slot_of ?c (it_addr x)) \<noteq> None \<and> it_age x \<le> it_age (slots ?c ! slot_of ?c (it_addr x))"
      if "x \<in> set (before @ [it])" "it_addr x \<noteq> - 1" for x
    proof (cases "slot_of c (it_addr x) = ?p")
      case True
      have "it_age x \<le> it_age it"
      proof (cases "x = it")
        case False
        then have "it_data (slots c ! ?p) \<noteq> None" "it_age x \<le> it_age (slots c ! ?p)"
          using that Cons.prems(2) True unfolding moved_def Let_def by auto
        then show ?thesis using 3(2) by auto
      qed simp
      then show ?thesis using True g(2) d(1) unfolding s by simp
    next
      case False
      then have "x \<in> set before" using that(1) by auto
      then show ?thesis
        using that(2) False Cons.prems(2) unfolding s moved_def Let_def by simp
    qed
    ultimately have "moved (before @ [it]) ?c"
      unfolding moved_def Let_def by blast
    then have "\<exists>c'. move_items olds ?c = Inr c' \<and> cache_inv c' \<and> moved (before @ it # olds) c' \<and>
           page_size c' = page_size c \<and> max_num_items c' = max_num_items c"
      using Cons.IH [of ?c "before @ [it]"] inv Cons.prems(3) by simp
    moreover have "move_items (it # olds) c = move_items olds ?c"
      using 3 g(1) by (cases "it_data (slots c ! ?p)") auto
    ultimately show ?thesis by simp
  qed
qed simp

lemma move_all:
  assumes "cache_inv c" "n < 2 ^ 63" "cache_init alloc1 alloc2 n (page_size c) = Some new"
  shows "\<exists>new'. move_items (slots c) new = Inr new' \<and> cache_inv new' \<and> moved (slots c) new' \<and>
           page_size new' = page_size c \<and> max_num_items new' = max_num_items new"
proof -
  have ps: "0 < page_size c" "page_size c < 2 ^ 32" using assms(1) by (auto simp: cache_inv_def)
  note i = init_inv [OF assms(3,2) ps]
  have "moved [] new"
    using i(4) by (auto simp: moved_def free_item_def)
  moreover have "\<forall>it\<in>set (slots c). it_addr it \<noteq> - 1 \<longrightarrow> (\<exists>d. it_data it = Some d \<and> length d = page_size new)"
  proof (intro ballI impI)
    fix it assume "it \<in> set (slots c)" "it_addr it \<noteq> - 1"
    then obtain j where "item_ok c j it"
      using assms(1) by (auto simp: in_set_conv_nth cache_inv_def)
    then show "\<exists>d. it_data it = Some d \<and> length d = page_size new"
      using \<open>it_addr it \<noteq> - 1\<close> i(2) by (cases "it_data it") (simp_all add: item_ok_def)
  qed
  ultimately show ?thesis
    using move_items_moved [OF i(1), of "[]" "slots c"] i(2) by auto
qed

text \<open>A page of the new cache was one of the old, and one that is missing gave its slot to a later one.\<close>

lemma moved_cached:
  assumes "cache_inv c" "cache_inv new" "moved (slots c) new" "cached new a = Some d"
  shows "cached c a = Some d"
proof -
  let ?it = "slots new ! slot_of new a"
  have it: "a \<noteq> - 1" "it_addr ?it = a" "it_data ?it = Some d"
    using assms(4) by (auto simp: cached_def split: if_splits)
  then have "?it \<in> set (slots c)"
    using assms(3) nth_mem [OF get_by_addr(2) [OF assms(2), of a]] by (auto simp: moved_def)
  then obtain j where j: "j < length (slots c)" "slots c ! j = ?it"
    by (auto simp: in_set_conv_nth)
  then have "item_ok c j ?it"
    using assms(1) by (metis cache_inv_def)
  then have "slot_of c a = j"
    using it by (simp add: item_ok_def)
  then show ?thesis
    using j it by (simp add: cached_def)
qed

lemma moved_later:
  assumes "cache_inv c" "cache_inv new" "moved (slots c) new" "cached c a = Some d"
  shows "\<exists>b. slot_of new b = slot_of new a \<and> cached new b \<noteq> None \<and>
           it_age (slots c ! slot_of c a) \<le> it_age (slots new ! slot_of new b)"
proof -
  let ?it = "slots c ! slot_of c a" and ?n = "slots new ! slot_of new a"
  have it: "it_addr ?it = a" "a \<noteq> - 1" "?it \<in> set (slots c)"
    using assms(4) nth_mem [OF get_by_addr(2) [OF assms(1), of a]] by (auto simp: cached_def split: if_splits)
  then have n: "it_data ?n \<noteq> None" "it_age ?it \<le> it_age ?n"
    using assms(3) unfolding moved_def Let_def by metis+
  have "item_ok new (slot_of new a) ?n"
    using assms(2) get_by_addr(2) [OF assms(2), of a] by (simp add: cache_inv_def)
  then have "slot_of new (it_addr ?n) = slot_of new a" "it_addr ?n \<noteq> - 1"
    using n(1) by (auto simp: item_ok_def)
  then show ?thesis
    using n by (intro exI [of _ "it_addr ?n"]) (simp add: cached_def)
qed

text \<open>
  Resizing succeeds or leaves the cache alone. When it succeeds, the new number of slots is the largest
  power of two that is not above the requested number, no address is cached with a page it did not
  have, and a page that is no longer cached gave its slot to one that is at least as recent.
\<close>

theorem cache_resize_effect:
  assumes "cache_inv c" "n < 2 ^ 63"
  shows "\<exists>r c'. cache_resize alloc1 alloc2 c n = Inr (r, c') \<and> cache_inv c' \<and>
         (r = -1 \<and> c' = c \<or> r = max_num_items c' \<and> (c' = c \<or> r \<le> n \<and> n < 2 * r)) \<and>
         cached c' \<subseteq>\<^sub>m cached c \<and>
         (\<forall>a d. cached c a = Some d \<longrightarrow>
            (\<exists>b. slot_of c' b = slot_of c' a \<and> cached c' b \<noteq> None \<and>
                 it_age (slots c ! slot_of c a) \<le> it_age (slots c' ! slot_of c' b)))"
proof -
  have same: "\<exists>b. slot_of c b = slot_of c a \<and> cached c b \<noteq> None \<and>
        it_age (slots c ! slot_of c a) \<le> it_age (slots c ! slot_of c b)" if "cached c a = Some d" for a d
    using that by (intro exI [of _ a]) simp
  have items: "page_cache c = Some (slots c)"
    using assms(1) by (auto simp: cache_inv_def slots_def)
  show ?thesis
  proof (cases "pow2floor n = max_num_items c \<or> cache_init alloc1 alloc2 n (page_size c) = None")
    case True
    then show ?thesis
      using same items assms(1) by (auto simp: cache_resize_def)
  next
    case False
    then obtain new where new: "cache_init alloc1 alloc2 n (page_size c) = Some new" by auto
    then obtain new' where m: "move_items (slots c) new = Inr new'" "cache_inv new'" "moved (slots c) new'"
      "page_size new' = page_size c" "max_num_items new' = max_num_items new"
      using move_all [OF assms] by blast
    let ?c = "c\<lparr>page_cache := page_cache new', max_num_items := max_num_items new', num_items := num_items new'\<rparr>"
    have s: "slot_of ?c = slot_of new'" "slots ?c = slots new'" "cached ?c = cached new'"
      using m(4) by (simp_all add: slot_of_def slots_def cached_def fun_eq_iff)
    have ps: "page_size ?c = page_size new'"
      using m(4) by simp
    have io: "item_ok ?c = item_ok new'"
      unfolding item_ok_def s(1) ps ..
    have "cache_inv ?c"
      using m(2,4) unfolding cache_inv_def s io by simp
    moreover have "cache_resize alloc1 alloc2 c n = Inr (max_num_items new', ?c)"
      using False new m(1) items by (simp add: cache_resize_def)
    moreover have "max_num_items new' \<le> n" "n < 2 * max_num_items new'"
      using init_inv(5,6) [OF new assms(2)] assms(1) m(5) by (simp_all add: cache_inv_def)
    moreover have "cached new' \<subseteq>\<^sub>m cached c"
      unfolding map_le_def dom_def using moved_cached [OF assms(1) m(2,3)] by auto
    ultimately show ?thesis
      using moved_later [OF assms(1) m(2,3)] s by (intro exI [of _ "max_num_items new'"] exI [of _ ?c]) simp
  qed
qed

section \<open>Sample cache\<close>

definition sample_cache :: PageCache where
  "sample_cache = \<lparr>page_cache = Some [free_item, free_item], page_size = 8, max_num_items = 2, max_item_age = 0, num_items = 0\<rparr>"

lemma sample_cache_inv: "cache_inv sample_cache" "page_size sample_cache = 8"
proof -
  have "\<exists>k<63. (2 :: int) = 2 ^ k"
    by (rule exI [of _ 1]) simp
  then show "cache_inv sample_cache"
    by (auto simp: cache_inv_def sample_cache_def slots_def item_ok_def free_item_def less_Suc_eq)
qed (simp add: sample_cache_def)

theorem cache_insert_effect_witness:
  "\<exists>c'. cache_insert True sample_cache 8 (replicate 8 1) = Inr (0, c') \<and> cached c' 8 = Some (replicate 8 1)"
  using cache_insert_effect [OF sample_cache_inv(1), of 8 "replicate 8 1" True] sample_cache_inv(2)
  by (auto split: if_splits)

theorem cache_resize_effect_witness:
  "\<exists>r c'. cache_resize True True sample_cache 5 = Inr (r, c') \<and> cache_inv c' \<and> cached c' \<subseteq>\<^sub>m cached sample_cache"
  using cache_resize_effect [OF sample_cache_inv(1), of 5 True True] by auto

end
