(* ===== verification/Spec2Isabelle.thy ===== *)
theory Spec2Isabelle
  imports Hmp CryptoDriver Xbzrle IoBus PageCache
begin

text \<open>
  Virtual-machine introspection in QEMU and KVM.
\<close>

end
